(* ===== verification/Prelude.thy ===== *)
theory Prelude
  imports Main "HOL-Library.Word"
begin

text \<open>
  Shared vocabulary of the development: the ways a Rust call can end, a monad for
  operations on mutable state, its weakest-precondition rules, and the fixed-width
  arithmetic of the sources (wrapping, checked and saturating operations).
\<close>

unbundle bit_operations_syntax

named_theorems wp_rules \<open>weakest-precondition facts of the operations\<close>
named_theorems saturation \<open>saturating operations on natural numbers\<close>
named_theorems usize_simps \<open>wrap-around operations on in-range arguments\<close>

section \<open>Types\<close>

type_synonym u8 = "8 word"
type_synonym u16 = "16 word"
type_synonym u32 = "32 word"
type_synonym u64 = "64 word"

text \<open>
  \<open>usize\<close> is a \<^typ>\<open>nat\<close>; every operation of the sources that can leave the 64-bit range is
  written with its wrap-around below. A slice is a list, and a Rust slice never has more than
  \<open>isize::MAX\<close> bytes (\<open>fits_slice\<close> below).
\<close>

type_synonym usize = nat

section \<open>Outcomes of a call\<close>

text \<open>
  \<open>Ok\<close> and \<open>Err\<close> are the two constructors of Rust's \<open>Result\<close>. \<open>Panic\<close> is a failed assertion,
  an out-of-range index or an \<open>unreachable!\<close>. \<open>UB\<close> is undefined behaviour: an unchecked read
  outside the slice.
\<close>

datatype (dead 'e, 'a) outcome = Ok 'a | Err 'e | Panic | UB

fun obind :: "('e, 'a) outcome \<Rightarrow> ('a \<Rightarrow> ('e, 'b) outcome) \<Rightarrow> ('e, 'b) outcome" where
  "obind (Ok a) f = f a"
| "obind (Err e) f = Err e"
| "obind Panic f = Panic"
| "obind UB f = UB"

text \<open>An outcome that is a value of the Rust return type: no panic and no undefined behaviour.\<close>

definition defined_outcome :: "('e, 'a) outcome \<Rightarrow> bool" where
  "defined_outcome r \<longleftrightarrow> r \<noteq> Panic \<and> r \<noteq> UB"

lemma defined_outcome_simps [simp]:
  "defined_outcome (Ok a)" "defined_outcome (Err e)"
  "\<not> defined_outcome Panic" "\<not> defined_outcome UB"
  by (simp_all add: defined_outcome_def)

lemma obind_eq_Ok [simp]: "obind m f = Ok b \<longleftrightarrow> (\<exists>a. m = Ok a \<and> f a = Ok b)"
  by (cases m) auto

lemma obind_Ok_E: "obind m f = Ok b \<Longrightarrow> (\<And>a. m = Ok a \<Longrightarrow> f a = Ok b \<Longrightarrow> P) \<Longrightarrow> P"
  by auto

lemma defined_obind:
  assumes "defined_outcome m" and "\<And>a. m = Ok a \<Longrightarrow> defined_outcome (f a)"
  shows "defined_outcome (obind m f)"
  using assms by (cases m) auto

definition assert_or_panic :: "bool \<Rightarrow> ('e, unit) outcome" where
  "assert_or_panic b = (if b then Ok () else Panic)"

lemma assert_or_panic_simps [simp]:
  "assert_or_panic True = Ok ()" "assert_or_panic False = Panic"
  "assert_or_panic b = Ok u \<longleftrightarrow> b"
  by (auto simp: assert_or_panic_def)

definition ok_or :: "'e \<Rightarrow> 'a option \<Rightarrow> ('e, 'a) outcome" where
  "ok_or e x = (case x of None \<Rightarrow> Err e | Some a \<Rightarrow> Ok a)"

lemma ok_or_simps [simp]: "ok_or e None = Err e" "ok_or e (Some a) = Ok a"
  by (simp_all add: ok_or_def)

definition index_or_panic :: "'a list \<Rightarrow> nat \<Rightarrow> ('e, 'a) outcome" where
  "index_or_panic xs i = (if i < length xs then Ok (xs ! i) else Panic)"

section \<open>Operations on mutable state\<close>

text \<open>
  An operation that takes \<open>&mut s\<close> maps the state before to its outcome and the state after. The
  state is kept on \<open>Err\<close> too, as in Rust.
\<close>

type_synonym ('s, 'e, 'a) op = "'s \<Rightarrow> ('e, 'a) outcome \<times> 's"

definition sreturn :: "'a \<Rightarrow> ('s, 'e, 'a) op" where
  "sreturn a s = (Ok a, s)"

definition sfail :: "'e \<Rightarrow> ('s, 'e, 'a) op" where
  "sfail e s = (Err e, s)"

definition sget :: "('s, 'e, 's) op" where
  "sget s = (Ok s, s)"

definition slift :: "('e, 'a) outcome \<Rightarrow> ('s, 'e, 'a) op" where
  "slift r s = (r, s)"

definition sbind :: "('s, 'e, 'a) op \<Rightarrow> ('a \<Rightarrow> ('s, 'e, 'b) op) \<Rightarrow> ('s, 'e, 'b) op" where
  "sbind m f s = (case m s of
      (Ok a, s') \<Rightarrow> f a s'
    | (Err e, s') \<Rightarrow> (Err e, s')
    | (Panic, s') \<Rightarrow> (Panic, s')
    | (UB, s') \<Rightarrow> (UB, s'))"

text \<open>
  \<open>wp m Q s\<close>: run from \<open>s\<close>, the operation neither panics nor has undefined behaviour, and if it
  returns \<open>Ok a\<close> then \<open>Q a\<close> holds of the state after.
\<close>

definition wp :: "('s, 'e, 'a) op \<Rightarrow> ('a \<Rightarrow> 's \<Rightarrow> bool) \<Rightarrow> 's \<Rightarrow> bool" where
  "wp m Q s = (case m s of
      (Ok a, s') \<Rightarrow> Q a s'
    | (Err e, s') \<Rightarrow> True
    | (Panic, s') \<Rightarrow> False
    | (UB, s') \<Rightarrow> False)"

lemma wp_sreturn [wp_rules, simp]: "wp (sreturn a) Q s = Q a s"
  by (simp add: wp_def sreturn_def)

lemma wp_sfail [wp_rules, simp]: "wp (sfail e) Q s"
  by (simp add: wp_def sfail_def)

lemma wp_sget [wp_rules, simp]: "wp sget Q s = Q s s"
  by (simp add: wp_def sget_def)

lemma wp_sbind [wp_rules, simp]: "wp (sbind m f) Q s = wp m (\<lambda>a. wp (f a) Q) s"
  by (auto simp: wp_def sbind_def split: prod.splits outcome.splits)

lemma wp_update [wp_rules, simp]: "wp (\<lambda>s. (Ok a, g s)) Q s = Q a (g s)"
  by (simp add: wp_def)

lemma wp_if [wp_rules, simp]:
  "wp (if b then m else m') Q s = (if b then wp m Q s else wp m' Q s)"
  by simp

lemma wp_mono: "wp m Q s \<Longrightarrow> (\<And>a s'. Q a s' \<Longrightarrow> R a s') \<Longrightarrow> wp m R s"
  by (auto simp: wp_def split: prod.splits outcome.splits)

lemma wp_conj: "wp m Q s \<Longrightarrow> wp m R s \<Longrightarrow> wp m (\<lambda>a t. Q a t \<and> R a t) s"
  by (auto simp: wp_def split: prod.splits outcome.splits)

text \<open>The use of a \<open>wp\<close> fact: the outcome is defined, and the postcondition holds on success.\<close>

lemma wp_defined: "wp m Q s \<Longrightarrow> defined_outcome (fst (m s))"
  by (auto simp: wp_def split: prod.splits outcome.splits)

lemma wp_Ok: "wp m Q s \<Longrightarrow> m s = (Ok a, s') \<Longrightarrow> Q a s'"
  by (simp add: wp_def)

lemma wp_fst_Ok: "wp m (\<lambda>a _. Q a) s \<Longrightarrow> fst (m s) = Ok a \<Longrightarrow> Q a"
  by (auto simp: wp_def split: prod.splits outcome.splits)

lemma wpI:
  assumes "defined_outcome (fst (m s))" and "\<And>a s'. m s = (Ok a, s') \<Longrightarrow> Q a s'"
  shows "wp m Q s"
  using assms by (auto simp: wp_def split: prod.splits outcome.splits)

lemma wp_slift: "wp (slift r) Q s \<longleftrightarrow> defined_outcome r \<and> (\<forall>a. r = Ok a \<longrightarrow> Q a s)"
  by (cases r) (auto simp: wp_def slift_def)

lemma sbind_Ok_E:
  assumes "sbind m f s = (Ok b, t)"
  obtains a s' where "m s = (Ok a, s')" and "f a s' = (Ok b, t)"
  using assms by (auto simp: sbind_def split: prod.splits outcome.splits)

lemma sbind_Ok_iff:
  "sbind m f s = (Ok b, t) \<longleftrightarrow> (\<exists>a s'. m s = (Ok a, s') \<and> f a s' = (Ok b, t))"
  by (auto simp: sbind_def split: prod.splits outcome.splits)

lemma sreturn_Ok_iff [simp]: "sreturn a s = (Ok b, t) \<longleftrightarrow> b = a \<and> t = s"
  by (auto simp: sreturn_def)

lemma sfail_Ok_iff [simp]: "sfail e s = (Ok b, t) \<longleftrightarrow> False"
  by (simp add: sfail_def)

lemma sget_Ok_iff [simp]: "sget s = (Ok b, t) \<longleftrightarrow> b = s \<and> t = s"
  by (auto simp: sget_def)

section \<open>64-bit \<open>usize\<close> arithmetic\<close>

definition usize_wrapping_add :: "usize \<Rightarrow> usize \<Rightarrow> usize" where
  "usize_wrapping_add a b = (a + b) mod 2 ^ 64"

definition usize_wrapping_sub :: "usize \<Rightarrow> usize \<Rightarrow> usize" where
  "usize_wrapping_sub a b = (a + 2 ^ 64 - b mod 2 ^ 64) mod 2 ^ 64"

definition usize_wrapping_mul :: "usize \<Rightarrow> usize \<Rightarrow> usize" where
  "usize_wrapping_mul a b = (a * b) mod 2 ^ 64"

definition usize_checked_add :: "usize \<Rightarrow> usize \<Rightarrow> usize option" where
  "usize_checked_add a b = (if a + b < 2 ^ 64 then Some (a + b) else None)"

text \<open>The bound Rust guarantees for the byte length of a slice.\<close>

definition fits_slice :: "'a list \<Rightarrow> bool" where
  "fits_slice bs \<longleftrightarrow> length bs < 2 ^ 63"

lemma usize_wrapping_add_small [usize_simps]:
  "a + b < 2 ^ 64 \<Longrightarrow> usize_wrapping_add a b = a + b"
  by (simp add: usize_wrapping_add_def)

lemma usize_wrapping_mul_small [usize_simps]:
  "a * b < 2 ^ 64 \<Longrightarrow> usize_wrapping_mul a b = a * b"
  by (simp add: usize_wrapping_mul_def)

lemma usize_wrapping_sub_small [usize_simps]:
  assumes "b \<le> a" "a < 2 ^ 64"
  shows "usize_wrapping_sub a b = a - b"
proof -
  have "a + 2 ^ 64 - b = (a - b) + 2 ^ 64" using assms by simp
  then have "(a + 2 ^ 64 - b) mod 2 ^ 64 = (a - b) mod 2 ^ 64"
    by (metis mod_add_self2)
  also have "\<dots> = a - b" using assms by simp
  finally show ?thesis using assms by (simp add: usize_wrapping_sub_def)
qed

section \<open>Saturating \<open>u64\<close> and \<open>u16\<close> arithmetic\<close>

definition sat_add :: "'w::len word \<Rightarrow> 'w word \<Rightarrow> 'w word" where
  "sat_add a b = (if unat a + unat b < 2 ^ LENGTH('w) then a + b else - 1)"

definition sat_sub :: "'w::len word \<Rightarrow> 'w word \<Rightarrow> 'w word" where
  "sat_sub a b = (if b \<le> a then a - b else 0)"

definition sat_mul :: "'w::len word \<Rightarrow> 'w word \<Rightarrow> 'w word" where
  "sat_mul a b = (if unat a * unat b < 2 ^ LENGTH('w) then a * b else - 1)"

lemma unat_max: "unat (- 1 :: 'w::len word) = 2 ^ LENGTH('w) - 1"
  by (simp add: unsigned_minus_1_eq_mask mask_eq_exp_minus_1)

lemma unat_sat_add:
  "unat (sat_add a b) = min (unat a + unat b) (2 ^ LENGTH('w) - 1)" for a b :: "'w::len word"
  by (auto simp: sat_add_def unat_max unat_word_ariths)

lemma unat_sat_mul:
  "unat (sat_mul a b) = min (unat a * unat b) (2 ^ LENGTH('w) - 1)" for a b :: "'w::len word"
  by (auto simp: sat_mul_def unat_max unat_word_ariths)

lemma unat_sat_sub: "unat (sat_sub a b) = unat a - unat b" for a b :: "'w::len word"
  by (auto simp: sat_sub_def unat_sub word_le_nat_alt)

text \<open>A chain of saturating operations saturates as a whole.\<close>

lemma min_add_saturate [saturation]:
  "min (min a m + b) m = min (a + b) m" "min (a + min b m) m = min (a + b) m" for a b m :: nat
  by (auto simp: min_def)

lemma min_mult_saturate [saturation]:
  "min (min a m * b) m = min (a * b) m" "min (a * min b m) m = min (a * b) m" for a b m :: nat
proof -
  show l: "min (min a m * b) m = min (a * b) m" for a b m :: nat by (cases b) (auto simp: min_def)
  show "min (a * min b m) m = min (a * b) m" using l [of b m a] by (simp add: mult.commute)
qed

section \<open>Counting bits\<close>

text \<open>\<open>count_ones\<close> and \<open>trailing_zeros\<close> of the unsigned integer types.\<close>

definition count_ones :: "'w::len word \<Rightarrow> nat" where
  "count_ones w = length (filter (bit w) [0..<LENGTH('w)])"

definition trailing_zeros :: "'w::len word \<Rightarrow> nat" where
  "trailing_zeros w = length (takeWhile (\<lambda>n. \<not> bit w n) [0..<LENGTH('w)])"

lemma count_ones_card: "count_ones w = card {n. bit w n}" for w :: "'w::len word"
proof -
  have "count_ones w = card (set (filter (bit w) [0..<LENGTH('w)]))"
    unfolding count_ones_def by (rule distinct_card [symmetric]) simp
  also have "set (filter (bit w) [0..<LENGTH('w)]) = {n. bit w n}"
    by (auto dest: bit_imp_le_length)
  finally show ?thesis .
qed

lemma finite_bits [simp]: "finite {n. bit w n}" for w :: "'w::len word"
  by (rule finite_subset [of _ "{..<LENGTH('w)}"]) (auto dest: bit_imp_le_length)

lemma count_ones_le: "count_ones w \<le> LENGTH('w)" for w :: "'w::len word"
  unfolding count_ones_def using length_filter_le [of "bit w" "[0..<LENGTH('w)]"] by simp

lemma trailing_zeros_first:
  fixes w :: "'w::len word"
  assumes "bit w k" and "\<And>i. i < k \<Longrightarrow> \<not> bit w i"
  shows "trailing_zeros w = k"
proof -
  have "k < LENGTH('w)" using assms(1) by (rule bit_imp_le_length)
  then have "[0..<LENGTH('w)] = [0..<k] @ k # [Suc k..<LENGTH('w)]"
    by (metis le_add_same_cancel1 less_imp_le_nat upt_add_eq_append upt_conv_Cons zero_le
        le_add_diff_inverse)
  moreover have "takeWhile (\<lambda>n. \<not> bit w n) ([0..<k] @ k # [Suc k..<LENGTH('w)]) = [0..<k]"
    using assms by (subst takeWhile_append2) auto
  ultimately show ?thesis by (simp add: trailing_zeros_def)
qed

end
