(* ===== verification/Tx_Bytes.thy ===== *)
theory Tx_Bytes
  imports Prelude
begin

text \<open>
  The byte cursor of the zero-copy transaction parser: \<open>transaction-view/src/bytes.rs\<close> and
  \<open>result.rs\<close>. Every function of \<open>bytes.rs\<close> that takes \<open>offset: &mut usize\<close> is an operation on
  the offset. The reference decoder \<open>read_compressed_u16\<close> and the decoder the parser uses,
  \<open>optimized_read_compressed_u16\<close>, are both characterised by the encoding \<open>compact_u16\<close>.
\<close>

section \<open>Definitions\<close>

datatype TransactionViewError = ParseError | SanitizeError | AddressLookupMismatch

type_synonym bytes = "u8 list"
type_synonym 'a tv_result = "(TransactionViewError, 'a) outcome"
type_synonym 'a cursor = "(usize, TransactionViewError, 'a) op"

text \<open>Slice primitives of Rust: \<open>get\<close>, \<open>get_unchecked\<close>, \<open>as_ptr().add\<close> and \<open>from_raw_parts\<close>.\<close>

definition slice_get :: "bytes \<Rightarrow> usize \<Rightarrow> u8 option" where
  "slice_get bytes i = (if i < length bytes then Some (bytes ! i) else None)"

definition get_unchecked :: "bytes \<Rightarrow> usize \<Rightarrow> ('e, u8) outcome" where
  "get_unchecked bytes i = (if i < length bytes then Ok (bytes ! i) else UB)"

definition ptr_add :: "bytes \<Rightarrow> usize \<Rightarrow> ('e, usize) outcome" where
  "ptr_add bytes i = (if i \<le> length bytes then Ok i else UB)"

definition raw_slice :: "bytes \<Rightarrow> usize \<Rightarrow> usize \<Rightarrow> ('e, bytes) outcome" where
  "raw_slice bytes i n = (if i + n \<le> length bytes then Ok (take n (drop i bytes)) else UB)"

definition check_remaining :: "bytes \<Rightarrow> usize \<Rightarrow> usize \<Rightarrow> unit tv_result" where
  "check_remaining bytes offset num_bytes =
     (if num_bytes > usize_wrapping_sub (length bytes) offset then Err ParseError else Ok ())"

definition read_byte :: "bytes \<Rightarrow> u8 cursor" where
  "read_byte bytes offset =
     (ok_or ParseError (slice_get bytes offset), usize_wrapping_add offset 1)"

definition unchecked_read_byte :: "bytes \<Rightarrow> u8 cursor" where
  "unchecked_read_byte bytes offset =
     (get_unchecked bytes offset, usize_wrapping_add offset 1)"

text \<open>The loop \<open>for i in 0..3\<close> of \<open>read_compressed_u16\<close>, over the indices still to visit.\<close>

fun read_compressed_u16_loop :: "bytes \<Rightarrow> nat list \<Rightarrow> u16 \<Rightarrow> nat \<Rightarrow> u16 cursor" where
  "read_compressed_u16_loop bytes [] result shift offset =
     (Ok result, usize_wrapping_add offset 3)"
| "read_compressed_u16_loop bytes (i # rest) result shift offset =
     (case slice_get bytes (usize_wrapping_add offset i) of
        None \<Rightarrow> (Err ParseError, offset)
      | Some byte \<Rightarrow>
          if (i > 0 \<and> byte = 0) \<or> (i = 2 \<and> byte > 3) then (Err ParseError, offset)
          else (let result' = result OR push_bit shift (ucast (byte AND 0x7F)) in
                if byte AND 0x80 = 0
                then (Ok result', usize_wrapping_add (usize_wrapping_add offset i) 1)
                else read_compressed_u16_loop bytes rest result' (shift + 7) offset))"

definition read_compressed_u16 :: "bytes \<Rightarrow> u16 cursor" where
  "read_compressed_u16 bytes offset = read_compressed_u16_loop bytes [0, 1, 2] 0 0 offset"

definition optimized_read_compressed_u16 :: "bytes \<Rightarrow> u16 cursor" where
  "optimized_read_compressed_u16 bytes offset =
     (case slice_get bytes offset of
        None \<Rightarrow> (Err ParseError, offset)
      | Some byte1 \<Rightarrow>
          let result = (0 :: u16) OR ucast (byte1 AND 0x7F) in
          if byte1 AND 0x80 = 0 then (Ok result, usize_wrapping_add offset 1)
          else (case slice_get bytes (usize_wrapping_add offset 1) of
                  None \<Rightarrow> (Err ParseError, offset)
                | Some byte2 \<Rightarrow>
                    if byte2 = 0 \<or> byte2 AND 0x80 \<noteq> 0 then (Err ParseError, offset)
                    else (Ok (result OR push_bit 7 (ucast (byte2 AND 0x7F))),
                          usize_wrapping_add offset 2)))"

text \<open>\<open>sz\<close> stands for \<open>core::mem::size_of::<T>()\<close>; a \<open>&[T]\<close> is returned as the bytes it covers.\<close>

definition advance_offset_for_array :: "usize \<Rightarrow> bytes \<Rightarrow> u16 \<Rightarrow> unit cursor" where
  "advance_offset_for_array sz bytes num_elements =
     (let array_len_bytes = usize_wrapping_mul (unat num_elements) sz in
      sbind sget (\<lambda>offset.
      sbind (slift (check_remaining bytes offset array_len_bytes)) (\<lambda>_ _.
        (Ok (), usize_wrapping_add offset array_len_bytes))))"

definition advance_offset_for_type :: "usize \<Rightarrow> bytes \<Rightarrow> unit cursor" where
  "advance_offset_for_type sz bytes =
     sbind sget (\<lambda>offset.
     sbind (slift (check_remaining bytes offset sz)) (\<lambda>_ _.
       (Ok (), usize_wrapping_add offset sz)))"

definition read_slice_data :: "usize \<Rightarrow> bytes \<Rightarrow> u16 \<Rightarrow> bytes cursor" where
  "read_slice_data sz bytes num_elements =
     sbind sget (\<lambda>offset.
     sbind (slift (ptr_add bytes offset)) (\<lambda>current_ptr.
     sbind (advance_offset_for_array sz bytes num_elements) (\<lambda>_.
       slift (raw_slice bytes current_ptr (unat num_elements * sz)))))"

definition unchecked_read_slice_data :: "usize \<Rightarrow> bytes \<Rightarrow> u16 \<Rightarrow> bytes cursor" where
  "unchecked_read_slice_data sz bytes num_elements =
     sbind sget (\<lambda>offset.
     sbind (slift (ptr_add bytes offset)) (\<lambda>current_ptr.
     sbind (\<lambda>_. (Ok (), usize_wrapping_add offset
                          (usize_wrapping_mul (unat num_elements) sz))) (\<lambda>_.
       slift (raw_slice bytes current_ptr (unat num_elements * sz)))))"

definition read_type :: "usize \<Rightarrow> bytes \<Rightarrow> bytes cursor" where
  "read_type sz bytes =
     sbind sget (\<lambda>offset.
     sbind (slift (ptr_add bytes offset)) (\<lambda>current_ptr.
     sbind (advance_offset_for_type sz bytes) (\<lambda>_.
       slift (raw_slice bytes current_ptr sz))))"

definition unchecked_copy_value :: "usize \<Rightarrow> bytes \<Rightarrow> usize \<Rightarrow> bytes tv_result" where
  "unchecked_copy_value sz bytes offset =
     obind (ptr_add bytes offset) (\<lambda>current_ptr. raw_slice bytes current_ptr sz)"

text \<open>The specification of the compact encoding: seven bits per byte, least significant first.\<close>

definition byte_of :: "nat \<Rightarrow> u8" where
  "byte_of n = word_of_nat n"

definition compact_u16 :: "nat \<Rightarrow> bytes" where
  "compact_u16 v =
     (if v < 128 then [byte_of v]
      else if v < 16384 then [byte_of (v mod 128 + 128), byte_of (v div 128)]
      else [byte_of (v mod 128 + 128), byte_of (v div 128 mod 128 + 128), byte_of (v div 16384)])"

text \<open>\<open>xs\<close> stands in \<open>bytes\<close> at \<open>offset\<close>.\<close>

definition starts_at :: "bytes \<Rightarrow> usize \<Rightarrow> bytes \<Rightarrow> bool" where
  "starts_at bytes offset xs \<longleftrightarrow>
     offset + length xs \<le> length bytes \<and> take (length xs) (drop offset bytes) = xs"

section \<open>Bit facts about single bytes\<close>

lemma and_low7: "unat (b AND 0x7F) = unat b mod 128" for b :: u8
proof -
  have "unat (b AND 0x7F) = unat b AND mask 7"
    by (simp add: unsigned_and_eq mask_eq_exp_minus_1)
  then show ?thesis by (simp add: take_bit_eq_mod flip: take_bit_eq_mask)
qed

lemma and_msb: "b AND 0x80 = 0 \<longleftrightarrow> unat b < 128" for b :: u8
proof -
  have "b AND 0x80 = 0 \<longleftrightarrow> \<not> bit b 7"
    using and_exp_eq_0_iff_not_bit [of b 7] by simp
  also have "\<dots> \<longleftrightarrow> \<not> bit (unat b) 7"
    by (simp add: bit_unsigned_iff)
  also have "\<dots> \<longleftrightarrow> even (unat b div 128)"
    by (simp add: bit_iff_odd)
  also have "\<dots> \<longleftrightarrow> unat b < 128"
  proof (cases "unat b < 128")
    case False
    moreover have "unat b < 256" using unsigned_less [of b, where 'a = nat] by simp
    ultimately have "unat b div 128 = 1" by (auto intro: div_nat_eqI)
    then show ?thesis using False by simp
  qed simp
  finally show ?thesis .
qed

lemma nat_or_push_bit:
  fixes r x :: nat
  assumes "r < 2 ^ k"
  shows "r OR push_bit k x = r + 2 ^ k * x"
proof -
  have "r AND push_bit k x = 0"
  proof (rule bit_eqI)
    fix n show "bit (r AND push_bit k x) n \<longleftrightarrow> bit 0 n"
    proof (cases "n < k")
      case True then show ?thesis by (simp add: bit_and_iff bit_push_bit_iff)
    next
      case False
      then have "(2::nat) ^ k \<le> 2 ^ n" by (simp add: power_increasing)
      with assms have "r < 2 ^ n" by (rule order_less_le_trans)
      then have "\<not> bit r n" by (simp add: bit_iff_odd)
      then show ?thesis by (simp add: bit_and_iff)
    qed
  qed
  then have "r + push_bit k x = r OR push_bit k x" by (rule disjunctive_add_eq_or)
  then show ?thesis by (simp add: push_bit_eq_mult mult.commute)
qed

lemma unat_or_push_bit:
  fixes r x :: "'w::len word"
  assumes "unat r < 2 ^ k" and "2 ^ k * unat x < 2 ^ LENGTH('w)"
  shows "unat (r OR push_bit k x) = unat r + 2 ^ k * unat x"
proof -
  have "unat (push_bit k x) = take_bit LENGTH('w) (push_bit k (unat x))"
    by (rule unsigned_push_bit_eq)
  also have "\<dots> = push_bit k (unat x)"
    by (rule take_bit_nat_eq_self) (use assms(2) in \<open>simp add: push_bit_eq_mult mult.commute\<close>)
  finally show ?thesis using assms(1) by (simp only: unsigned_or_eq nat_or_push_bit)
qed

lemma unat_low7_u16: "unat (ucast (b AND 0x7F) :: u16) = unat b mod 128" for b :: u8
proof -
  have "unat (ucast (b AND 0x7F) :: u16) = unat (b AND 0x7F)"
    by (simp add: unsigned_ucast_eq and_low7 take_bit_nat_eq_self)
  then show ?thesis by (simp add: and_low7)
qed

lemma byte_less_256 [simp]: "unat b < 256" for b :: u8
  using unsigned_less [of b, where 'a = nat] by simp

section \<open>Cursor operations on an in-range offset\<close>

lemma slice_get_simps [simp]:
  "i < length bs \<Longrightarrow> slice_get bs i = Some (bs ! i)"
  "length bs \<le> i \<Longrightarrow> slice_get bs i = None"
  by (simp_all add: slice_get_def)

lemma ptr_add_simps [simp]: "i \<le> length bs \<Longrightarrow> ptr_add bs i = Ok i"
  by (simp add: ptr_add_def)

lemma raw_slice_simps [simp]: "i + n \<le> length bs \<Longrightarrow> raw_slice bs i n = Ok (take n (drop i bs))"
  by (simp add: raw_slice_def)

lemma check_remaining_eq:
  assumes "fits_slice bytes" and "offset \<le> length bytes"
  shows "check_remaining bytes offset n =
           (if offset + n \<le> length bytes then Ok () else Err ParseError)"
  using assms by (auto simp: check_remaining_def fits_slice_def usize_simps)

lemma read_byte_eq:
  assumes "fits_slice bytes" and "offset \<le> length bytes"
  shows "read_byte bytes offset =
           (if offset < length bytes then Ok (bytes ! offset) else Err ParseError, offset + 1)"
  using assms by (auto simp: read_byte_def fits_slice_def usize_simps)

lemma read_byte_wp [wp_rules]:
  assumes "fits_slice bytes" and "offset \<le> length bytes"
    and "offset < length bytes \<Longrightarrow> Q (bytes ! offset) (offset + 1)"
  shows "wp (read_byte bytes) Q offset"
  using assms by (auto simp: wp_def read_byte_eq)

lemma unchecked_read_byte_wp [wp_rules]:
  assumes "fits_slice bytes" and "offset < length bytes" and "Q (bytes ! offset) (offset + 1)"
  shows "wp (unchecked_read_byte bytes) Q offset"
  using assms
  by (auto simp: wp_def unchecked_read_byte_def get_unchecked_def fits_slice_def usize_simps)

lemma advance_offset_for_array_eq:
  assumes "fits_slice bytes" and "offset \<le> length bytes" and "sz \<le> 2 ^ 32"
  shows "advance_offset_for_array sz bytes n offset =
           (if offset + unat n * sz \<le> length bytes then (Ok (), offset + unat n * sz)
            else (Err ParseError, offset))"
proof -
  have "unat n * sz \<le> 2 ^ 16 * 2 ^ 32"
    using assms(3) unsigned_less [of n, where 'a = nat] by (intro mult_le_mono) auto
  then have "usize_wrapping_mul (unat n) sz = unat n * sz"
    by (simp add: usize_wrapping_mul_small)
  then show ?thesis using assms
    by (auto simp: advance_offset_for_array_def Let_def sbind_def sget_def slift_def check_remaining_eq
        fits_slice_def usize_simps)
qed

lemma advance_offset_for_array_wp [wp_rules]:
  assumes "fits_slice bytes" and "offset \<le> length bytes" and "sz \<le> 2 ^ 32"
    and "offset + unat n * sz \<le> length bytes \<Longrightarrow> Q () (offset + unat n * sz)"
  shows "wp (advance_offset_for_array sz bytes n) Q offset"
  using assms by (auto simp: wp_def advance_offset_for_array_eq)

lemma advance_offset_for_type_eq:
  assumes "fits_slice bytes" and "offset \<le> length bytes"
  shows "advance_offset_for_type sz bytes offset =
           (if offset + sz \<le> length bytes then (Ok (), offset + sz)
            else (Err ParseError, offset))"
  using assms
  by (auto simp: advance_offset_for_type_def sbind_def sget_def slift_def check_remaining_eq
      fits_slice_def usize_simps)

lemma advance_offset_for_type_wp [wp_rules]:
  assumes "fits_slice bytes" and "offset \<le> length bytes"
    and "offset + sz \<le> length bytes \<Longrightarrow> Q () (offset + sz)"
  shows "wp (advance_offset_for_type sz bytes) Q offset"
  using assms by (auto simp: wp_def advance_offset_for_type_eq)

lemma read_type_eq:
  assumes "fits_slice bytes" and "offset \<le> length bytes"
  shows "read_type sz bytes offset =
           (if offset + sz \<le> length bytes then (Ok (take sz (drop offset bytes)), offset + sz)
            else (Err ParseError, offset))"
  using assms
  by (auto simp: read_type_def sbind_def sget_def slift_def advance_offset_for_type_eq)

lemma read_slice_data_eq:
  assumes "fits_slice bytes" and "offset \<le> length bytes" and "sz \<le> 2 ^ 32"
  shows "read_slice_data sz bytes n offset =
           (if offset + unat n * sz \<le> length bytes
            then (Ok (take (unat n * sz) (drop offset bytes)), offset + unat n * sz)
            else (Err ParseError, offset))"
  using assms
  by (auto simp: read_slice_data_def sbind_def sget_def slift_def advance_offset_for_array_eq)

lemma unchecked_read_slice_data_u8_eq:
  assumes "fits_slice bytes" and "offset + unat n \<le> length bytes"
  shows "unchecked_read_slice_data 1 bytes n offset =
           (Ok (take (unat n) (drop offset bytes)), offset + unat n)"
  using assms
  by (auto simp: unchecked_read_slice_data_def sbind_def sget_def slift_def fits_slice_def
      usize_simps)

lemma unchecked_copy_value_eq:
  "offset + sz \<le> length bytes \<Longrightarrow>
     unchecked_copy_value sz bytes offset = Ok (take sz (drop offset bytes))"
  by (simp add: unchecked_copy_value_def)

section \<open>The compact encoding\<close>

lemma length_compact_u16: "length (compact_u16 v) = (if v < 128 then 1 else if v < 16384 then 2 else 3)"
  by (simp add: compact_u16_def)

lemma starts_at_Nil [simp]: "starts_at bytes i [] \<longleftrightarrow> i \<le> length bytes"
  by (simp add: starts_at_def)

lemma starts_at_Cons [simp]:
  "starts_at bytes i (x # xs) \<longleftrightarrow> i < length bytes \<and> bytes ! i = x \<and> starts_at bytes (Suc i) xs"
proof (cases "i < length bytes")
  case True
  then have "drop i bytes = bytes ! i # drop (Suc i) bytes" by (simp add: Cons_nth_drop_Suc)
  then show ?thesis using True by (auto simp: starts_at_def)
qed (auto simp: starts_at_def)

lemma unat_byte_of [simp]: "unat (byte_of n) = n mod 256"
  by (simp add: byte_of_def unat_of_nat)

lemma byte_of_unat [simp]: "byte_of (unat b) = b"
  by (simp add: byte_of_def)

lemma eq_byte_of_iff: "n < 256 \<Longrightarrow> b = byte_of n \<longleftrightarrow> unat b = n"
  by auto

lemma u16_eqI: "unat v = unat w \<Longrightarrow> v = w" for v w :: u16
  by (rule word_unat_eq_iff [THEN iffD2])

text \<open>Joining seven-bit groups: \<open>r\<close> holds the groups below bit \<open>k\<close>.\<close>

lemma unat_join7:
  fixes r :: u16 and b :: u8
  assumes "unat r < 2 ^ k" and "2 ^ k * (unat b mod 128) < 65536"
  shows "unat (r OR push_bit k (ucast (b AND 0x7F))) = unat r + 2 ^ k * (unat b mod 128)"
  using assms by (subst unat_or_push_bit) (simp_all add: unat_low7_u16)

lemma high_byte_sub: "unat b - 128 < 128" for b :: u8
proof -
  have "unat b < 256" by simp
  then show ?thesis by linarith
qed

lemma high_byte_mod: "128 \<le> unat b \<Longrightarrow> unat b mod 128 = unat b - 128" for b :: u8
  by (simp add: le_mod_geq high_byte_sub)

lemma join7_div_mod:
  fixes v b c :: nat
  assumes "v = b - 128 + 128 * c" and "128 \<le> b" and "b < 256" and "0 < c" and "c < 128"
  shows "v mod 128 + 128 = b" and "v div 128 = c" and "128 \<le> v" and "v < 16384"
proof -
  define d where "d = b - 128"
  have "b = d + 128" "d < 128" using assms(2,3) by (simp_all add: d_def)
  with assms show "v mod 128 + 128 = b" "v div 128 = c" "128 \<le> v" "v < 16384" by auto
qed

lemma optimized_read_one_byte:
  assumes "fits_slice bytes" and "offset < length bytes" and "unat (bytes ! offset) < 128"
  obtains v where "optimized_read_compressed_u16 bytes offset = (Ok v, offset + 1)"
    and "unat v = unat (bytes ! offset)"
  using assms that [of "0 OR ucast (bytes ! offset AND 0x7F)"]
  by (simp add: optimized_read_compressed_u16_def Let_def and_msb unat_low7_u16 fits_slice_def
      usize_simps)

lemma optimized_read_two_bytes:
  assumes "fits_slice bytes" and "offset + 1 < length bytes" and "128 \<le> unat (bytes ! offset)"
    and "bytes ! (offset + 1) \<noteq> 0" and "unat (bytes ! (offset + 1)) < 128"
  obtains v where "optimized_read_compressed_u16 bytes offset = (Ok v, offset + 2)"
    and "unat v = unat (bytes ! offset) - 128 + 128 * unat (bytes ! (offset + 1))"
proof -
  let ?v = "((0 :: u16) OR ucast (bytes ! offset AND 0x7F))
      OR push_bit 7 (ucast (bytes ! (offset + 1) AND 0x7F))"
  have "unat ?v = unat (bytes ! offset) - 128 + 128 * unat (bytes ! (offset + 1))"
    using assms by (subst unat_join7) (simp_all add: unat_low7_u16 high_byte_mod high_byte_sub)
  moreover have "optimized_read_compressed_u16 bytes offset = (Ok ?v, offset + 2)"
    using assms
    by (simp add: optimized_read_compressed_u16_def Let_def and_msb fits_slice_def
        usize_simps not_less)
  ultimately show ?thesis using that by blast
qed

lemma optimized_read_Err:
  assumes "fits_slice bytes"
    and "length bytes \<le> offset \<or>
      128 \<le> unat (bytes ! offset) \<and>
      (length bytes \<le> offset + 1 \<or> bytes ! (offset + 1) = 0 \<or>
       128 \<le> unat (bytes ! (offset + 1)))"
  shows "optimized_read_compressed_u16 bytes offset = (Err ParseError, offset)"
  using assms
  by (auto simp: optimized_read_compressed_u16_def slice_get_def Let_def and_msb
      fits_slice_def usize_simps not_less)

text \<open>The parser's decoder accepts exactly the minimal encodings of the values below 16384.\<close>

lemma optimized_read_complete:
  assumes "fits_slice bytes" and "unat v < 16384"
    and "starts_at bytes offset (compact_u16 (unat v))"
  shows "optimized_read_compressed_u16 bytes offset =
           (Ok v, offset + length (compact_u16 (unat v)))"
proof (cases "unat v < 128")
  case True
  with assms have b: "offset < length bytes" "unat (bytes ! offset) = unat v"
    by (auto simp: compact_u16_def)
  then obtain w where "optimized_read_compressed_u16 bytes offset = (Ok w, offset + 1)"
    and "unat w = unat v"
    using True assms(1) by (metis optimized_read_one_byte)
  then show ?thesis using True by (simp add: length_compact_u16 u16_eqI)
next
  case False
  with assms have b: "unat (bytes ! offset) = unat v mod 128 + 128"
    "unat (bytes ! (offset + 1)) = unat v div 128" "offset + 1 < length bytes"
    by (auto simp: compact_u16_def)
  have d: "unat v div 128 < 128" "unat v div 128 \<noteq> 0"
    using assms(2) False by (auto simp: div_eq_0_iff)
  then have "bytes ! (offset + 1) \<noteq> 0" using b by (metis unsigned_0)
  with b d assms(1) obtain w where w: "optimized_read_compressed_u16 bytes offset = (Ok w, offset + 2)"
    and "unat w = unat v mod 128 + 128 - 128 + 128 * (unat v div 128)"
    by (metis optimized_read_two_bytes le_add2)
  then have "unat w = unat v" by simp
  with w False assms(2) show ?thesis by (simp add: length_compact_u16 u16_eqI)
qed

lemma optimized_read_sound:
  assumes "fits_slice bytes" and "offset \<le> length bytes"
    and "optimized_read_compressed_u16 bytes offset = (Ok v, offset')"
  shows "unat v < 16384 \<and> starts_at bytes offset (compact_u16 (unat v)) \<and>
    offset' = offset + length (compact_u16 (unat v))"
proof (cases "offset < length bytes \<and> unat (bytes ! offset) < 128")
  case True
  then obtain w where "optimized_read_compressed_u16 bytes offset = (Ok w, offset + 1)"
    and "unat w = unat (bytes ! offset)"
    using assms(1) by (metis optimized_read_one_byte)
  with assms(3) True show ?thesis by (auto simp: compact_u16_def eq_byte_of_iff)
next
  case False
  have two: "offset + 1 < length bytes" "128 \<le> unat (bytes ! offset)"
    "bytes ! (offset + 1) \<noteq> 0" "unat (bytes ! (offset + 1)) < 128"
    using False assms(3) optimized_read_Err [OF assms(1), of offset] by fastforce+
  obtain w where "optimized_read_compressed_u16 bytes offset = (Ok w, offset + 2)"
    and w: "unat w = unat (bytes ! offset) - 128 + 128 * unat (bytes ! (offset + 1))"
    using two assms(1) by (metis optimized_read_two_bytes)
  moreover have "unat w mod 128 + 128 = unat (bytes ! offset)"
    "unat w div 128 = unat (bytes ! (offset + 1))" "128 \<le> unat w" "unat w < 16384"
    using join7_div_mod [OF w] two byte_less_256 [of "bytes ! offset"] by (auto simp: unat_gt_0)
  ultimately show ?thesis using assms(3) two
    by (auto simp: compact_u16_def eq_byte_of_iff)
qed

text \<open>The reference decoder, on encodings of one, two and three bytes.\<close>

lemma read_compressed_one_byte:
  assumes "fits_slice bytes" and "offset < length bytes" and "unat (bytes ! offset) < 128"
  obtains v where "read_compressed_u16 bytes offset = (Ok v, offset + 1)"
    and "unat v = unat (bytes ! offset)"
  using assms that [of "0 OR push_bit 0 (ucast (bytes ! offset AND 0x7F))"]
  by (simp add: read_compressed_u16_def Let_def and_msb unat_low7_u16 fits_slice_def usize_simps)

lemma read_compressed_two_bytes:
  assumes "fits_slice bytes" and "offset + 1 < length bytes" and "128 \<le> unat (bytes ! offset)"
    and "bytes ! (offset + 1) \<noteq> 0" and "unat (bytes ! (offset + 1)) < 128"
  obtains v where "read_compressed_u16 bytes offset = (Ok v, offset + 2)"
    and "unat v = unat (bytes ! offset) - 128 + 128 * unat (bytes ! (offset + 1))"
proof -
  let ?v = "((0 :: u16) OR push_bit 0 (ucast (bytes ! offset AND 0x7F)))
      OR push_bit 7 (ucast (bytes ! (offset + 1) AND 0x7F))"
  have "unat ?v = unat (bytes ! offset) - 128 + 128 * unat (bytes ! (offset + 1))"
    using assms by (subst unat_join7) (simp_all add: unat_low7_u16 high_byte_mod high_byte_sub)
  moreover have "read_compressed_u16 bytes offset = (Ok ?v, offset + 2)"
    using assms
    by (simp add: read_compressed_u16_def Let_def and_msb fits_slice_def usize_simps not_less)
  ultimately show ?thesis using that by blast
qed

lemma read_compressed_three_bytes:
  assumes "fits_slice bytes" and "offset + 2 < length bytes" and "128 \<le> unat (bytes ! offset)"
    and "128 \<le> unat (bytes ! (offset + 1))"
    and "bytes ! (offset + 2) \<noteq> 0" and "bytes ! (offset + 2) \<le> 3"
  obtains v where "read_compressed_u16 bytes offset = (Ok v, offset + 3)"
    and "unat v = unat (bytes ! offset) - 128 + 128 * (unat (bytes ! (offset + 1)) - 128)
           + 16384 * unat (bytes ! (offset + 2))"
proof -
  let ?w = "((0 :: u16) OR push_bit 0 (ucast (bytes ! offset AND 0x7F)))
      OR push_bit 7 (ucast (bytes ! (offset + 1) AND 0x7F))"
  let ?v = "?w OR push_bit 14 (ucast (bytes ! (offset + 2) AND 0x7F))"
  have w: "unat ?w = unat (bytes ! offset) - 128 + 128 * (unat (bytes ! (offset + 1)) - 128)"
    using assms(3,4) high_byte_sub [of "bytes ! offset"] high_byte_sub [of "bytes ! (offset + 1)"]
    by (subst unat_join7) (simp_all add: unat_low7_u16 high_byte_mod)
  have c: "unat (bytes ! (offset + 2)) \<le> 3"
    using assms(6) by (simp add: word_le_nat_alt)
  have "unat ?w < 2 ^ 14"
    using high_byte_sub [of "bytes ! offset"] high_byte_sub [of "bytes ! (offset + 1)"]
    unfolding w by simp
  then have "unat ?v = unat ?w + 2 ^ 14 * unat (bytes ! (offset + 2))"
    using c by (subst unat_join7) simp_all
  moreover have "read_compressed_u16 bytes offset = (Ok ?v, offset + 3)"
  proof -
    have "unat (bytes ! (offset + 2)) < 128" using c by simp
    moreover have "bytes ! (offset + 1) \<noteq> 0" using assms(4) by auto
    ultimately show ?thesis using assms
      by (simp add: read_compressed_u16_def Let_def and_msb fits_slice_def usize_simps not_less)
  qed
  ultimately show ?thesis using that w by simp
qed

lemma read_compressed_Err:
  assumes "fits_slice bytes" and "offset \<le> length bytes"
    and "length bytes \<le> offset \<or>
      128 \<le> unat (bytes ! offset) \<and>
      (length bytes \<le> offset + 1 \<or> bytes ! (offset + 1) = 0 \<or>
       128 \<le> unat (bytes ! (offset + 1)) \<and>
       (length bytes \<le> offset + 2 \<or> bytes ! (offset + 2) = 0 \<or> 3 < bytes ! (offset + 2)))"
  shows "read_compressed_u16 bytes offset = (Err ParseError, offset)"
proof -
  have add: "usize_wrapping_add offset i = offset + i" if "i \<le> 2" for i
    using assms(1,2) that by (simp add: fits_slice_def usize_simps)
  show ?thesis
    using assms(3)
    by (elim disjE conjE)
       (simp_all add: read_compressed_u16_def slice_get_def Let_def and_msb not_less add)
qed

lemma u16_top_group: "16384 \<le> unat v \<Longrightarrow> unat v div 16384 \<in> {1..3}" for v :: u16
proof -
  assume "16384 \<le> unat v"
  moreover have "unat v < 65536" using unsigned_less [of v, where 'a = nat] by simp
  ultimately show ?thesis by (simp add: Suc_le_eq div_greater_zero_iff less_mult_imp_div_less)
qed

lemma split_three_groups: "v mod 128 + 128 * (v div 128 mod 128) + 16384 * (v div 16384) = v"
  for v :: nat
proof -
  define q where "q = v div 128"
  have "v mod 128 + 128 * q = v" unfolding q_def by (rule mod_mult_div_eq)
  moreover have "q mod 128 + 128 * (q div 128) = q" by (rule mod_mult_div_eq)
  moreover have "v div 16384 = q div 128" by (simp add: q_def div_mult2_eq [symmetric])
  ultimately show ?thesis unfolding q_def [symmetric] by linarith
qed

lemma read_compressed_complete:
  assumes "fits_slice bytes" and "starts_at bytes offset (compact_u16 (unat v))"
  shows "read_compressed_u16 bytes offset = (Ok v, offset + length (compact_u16 (unat v)))"
proof -
  consider "unat v < 128" | "128 \<le> unat v" "unat v < 16384" | "16384 \<le> unat v" by linarith
  then show ?thesis
  proof cases
    case 1
    with assms have b: "offset < length bytes" "unat (bytes ! offset) = unat v"
      by (auto simp: compact_u16_def)
    then obtain w where "read_compressed_u16 bytes offset = (Ok w, offset + 1)"
      and "unat w = unat v"
      using 1 assms(1) by (metis read_compressed_one_byte)
    then show ?thesis using 1 by (simp add: length_compact_u16 u16_eqI)
  next
    case 2
    with assms have b: "unat (bytes ! offset) = unat v mod 128 + 128"
      "unat (bytes ! (offset + 1)) = unat v div 128" "offset + 1 < length bytes"
      by (auto simp: compact_u16_def)
    have d: "unat v div 128 < 128" "unat v div 128 \<noteq> 0"
      using 2 by (auto simp: div_eq_0_iff)
    then have "bytes ! (offset + 1) \<noteq> 0" using b by (metis unsigned_0)
    with b d assms(1) obtain w where w: "read_compressed_u16 bytes offset = (Ok w, offset + 2)"
      and "unat w = unat v mod 128 + 128 - 128 + 128 * (unat v div 128)"
      by (metis read_compressed_two_bytes le_add2)
    then have "unat w = unat v" by simp
    with w 2 show ?thesis by (simp add: length_compact_u16 u16_eqI)
  next
    case 3
    have d: "unat v div 16384 \<in> {1..3}" using 3 by (rule u16_top_group)
    with 3 assms have b: "unat (bytes ! offset) = unat v mod 128 + 128"
      "unat (bytes ! (offset + 1)) = unat v div 128 mod 128 + 128"
      "unat (bytes ! (offset + 2)) = unat v div 16384" "offset + 2 < length bytes"
      by (auto simp: compact_u16_def)
    have c: "bytes ! (offset + 2) \<noteq> 0" "bytes ! (offset + 2) \<le> 3"
      using b(3) d by (auto simp: word_le_nat_alt)
    from b c assms(1) obtain w where w: "read_compressed_u16 bytes offset = (Ok w, offset + 3)"
      and "unat w = unat v mod 128 + 128 - 128 + 128 * (unat v div 128 mod 128 + 128 - 128)
             + 16384 * (unat v div 16384)"
      by (metis read_compressed_three_bytes le_add2)
    then have "unat w = unat v" using split_three_groups [of "unat v"] by simp
    with w 3 show ?thesis by (simp add: length_compact_u16 u16_eqI)
  qed
qed

lemma join_three_groups:
  fixes v b c d :: nat
  assumes "v = b - 128 + 128 * (c - 128) + 16384 * d" and "128 \<le> b" and "b < 256"
    and "128 \<le> c" and "c < 256" and "0 < d"
  shows "v mod 128 + 128 = b" and "v div 128 mod 128 + 128 = c" and "v div 16384 = d"
    and "16384 \<le> v"
proof -
  define x y where "x = b - 128" and "y = c - 128"
  have xy: "b = x + 128" "c = y + 128" "x < 128" "y < 128"
    using assms by (simp_all add: x_def y_def)
  have v: "v = x + 128 * (y + 128 * d)" using assms(1) xy by simp
  have "v div 128 = y + 128 * d" using xy(3) by (simp add: v)
  moreover have "v div 16384 = v div 128 div 128" by (simp add: div_mult2_eq [symmetric])
  ultimately show "v div 128 mod 128 + 128 = c" "v div 16384 = d" using xy by simp_all
  have "v mod 128 = x" using xy(3) by (simp only: v mod_mult_self2 mod_less)
  then show "v mod 128 + 128 = b" using xy by simp
  show "16384 \<le> v" using v assms(6) by simp
qed

lemma read_compressed_sound:
  assumes "fits_slice bytes" and "offset \<le> length bytes"
    and "read_compressed_u16 bytes offset = (Ok v, offset')"
  shows "starts_at bytes offset (compact_u16 (unat v)) \<and>
    offset' = offset + length (compact_u16 (unat v))"
proof -
  let ?b = "\<lambda>i. bytes ! (offset + i)"
  consider (1) "offset < length bytes" "unat (bytes ! offset) < 128"
    | (2) "offset + 1 < length bytes" "128 \<le> unat (bytes ! offset)" "?b 1 \<noteq> 0" "unat (?b 1) < 128"
    | (3) "offset + 2 < length bytes" "128 \<le> unat (bytes ! offset)" "128 \<le> unat (?b 1)"
        "?b 2 \<noteq> 0" "?b 2 \<le> 3"
    using assms(3) read_compressed_Err [OF assms(1,2)] by fastforce
  then show ?thesis
  proof cases
    case 1
    then obtain w where "read_compressed_u16 bytes offset = (Ok w, offset + 1)"
      and "unat w = unat (bytes ! offset)"
      using assms(1) by (metis read_compressed_one_byte)
    with assms(3) 1 show ?thesis by (auto simp: compact_u16_def eq_byte_of_iff)
  next
    case 2
    then obtain w where "read_compressed_u16 bytes offset = (Ok w, offset + 2)"
      and w: "unat w = unat (bytes ! offset) - 128 + 128 * unat (?b 1)"
      using assms(1) by (metis read_compressed_two_bytes)
    moreover have "unat w mod 128 + 128 = unat (bytes ! offset)" "unat w div 128 = unat (?b 1)"
      "128 \<le> unat w" "unat w < 16384"
      using join7_div_mod [OF w] 2 by (auto simp: unat_gt_0)
    ultimately show ?thesis using assms(3) 2 by (auto simp: compact_u16_def eq_byte_of_iff)
  next
    case 3
    then obtain w where "read_compressed_u16 bytes offset = (Ok w, offset + 3)"
      and w: "unat w = unat (bytes ! offset) - 128 + 128 * (unat (?b 1) - 128) + 16384 * unat (?b 2)"
      using assms(1) by (metis read_compressed_three_bytes)
    moreover have "unat w mod 128 + 128 = unat (bytes ! offset)"
      "unat w div 128 mod 128 + 128 = unat (?b 1)" "unat w div 16384 = unat (?b 2)"
      "16384 \<le> unat w"
      using join_three_groups [OF w] 3 by (auto simp: unat_gt_0)
    ultimately show ?thesis using assms(3) 3 by (auto simp: compact_u16_def eq_byte_of_iff)
  qed
qed

section \<open>Properties\<close>

text \<open>
  C4: The reference decoder \<open>read_compressed_u16\<close> returns \<open>v\<close> exactly when the minimal encoding
  of \<open>v\<close> stands at the offset, and it moves the offset just past that encoding: no other byte
  sequence is accepted, and every \<open>u16\<close> is decoded from its encoding.
\<close>

theorem read_compressed_u16_decodes:
  assumes "fits_slice bytes" and "offset \<le> length bytes"
  shows "read_compressed_u16 bytes offset = (Ok v, offset') \<longleftrightarrow>
    starts_at bytes offset (compact_u16 (unat v)) \<and>
    offset' = offset + length (compact_u16 (unat v))"
  using read_compressed_sound [OF assms] read_compressed_complete [OF assms(1)] by blast

theorem read_compressed_u16_decodes_witness:
  "read_compressed_u16 [0xFF, 0x85, 0x02, 0x03] 1 = (Ok 261, 3)"
proof -
  have "fits_slice [0xFF, 0x85, 0x02, 0x03 :: u8]" by (simp add: fits_slice_def)
  then show ?thesis
    by (subst read_compressed_u16_decodes) (simp_all add: compact_u16_def byte_of_def)
qed

text \<open>
  C5: The decoder used on the hot path agrees with the reference decoder on every value below
  16384 (two bytes), and rejects exactly what the reference rejects or decodes to a larger value.
\<close>

theorem optimized_read_agrees:
  assumes "fits_slice bytes" and "offset \<le> length bytes"
  shows "optimized_read_compressed_u16 bytes offset = (Ok v, offset') \<longleftrightarrow>
    read_compressed_u16 bytes offset = (Ok v, offset') \<and> unat v < 16384"
  using optimized_read_sound [OF assms] optimized_read_complete [OF assms(1)]
    read_compressed_sound [OF assms] read_compressed_complete [OF assms(1)] by blast

theorem optimized_read_agrees_witness:
  "optimized_read_compressed_u16 [0x85, 0x02] 0 = (Ok 261, 2)"
proof -
  have "fits_slice [0x85, 0x02 :: u8]" by (simp add: fits_slice_def)
  moreover have "read_compressed_u16 [0x85, 0x02] 0 = (Ok 261, 2)"
    by (simp add: read_compressed_u16_def slice_get_def usize_wrapping_add_def Let_def)
  ultimately show ?thesis by (subst optimized_read_agrees) simp_all
qed

end
