(* ===== verification/Tx_Frames.thy ===== *)
theory Tx_Frames
  imports Tx_Bytes
begin

text \<open>
  The fixed-shape frames of a transaction: \<open>signature_frame.rs\<close>, \<open>message_header_frame.rs\<close>,
  \<open>static_account_keys_frame.rs\<close>, \<open>transaction_config_frame.rs\<close> and \<open>transaction_version.rs\<close> of
  \<open>transaction-view/src\<close>. A frame holds counts and offsets only; the offsets are cast to \<open>u16\<close>
  with \<open>as\<close>, which truncates (\<open>as_u16\<close>).

  Sizes of types that live in other crates are the ones the sources document: a packet has at most
  1232 bytes, a signature 64 bytes, a public key and a hash 32 bytes, and the version prefix is the
  most significant bit of the first message byte. The target is little-endian.
\<close>

section \<open>Constants and casts\<close>

definition PACKET_DATA_SIZE :: usize where "PACKET_DATA_SIZE = 1232"
definition SIGNATURE_SIZE :: usize where "SIGNATURE_SIZE = 64"
definition PUBKEY_SIZE :: usize where "PUBKEY_SIZE = 32"
definition HASH_SIZE :: usize where "HASH_SIZE = 32"
definition MESSAGE_VERSION_PREFIX :: u8 where "MESSAGE_VERSION_PREFIX = 0x80"

lemmas size_defs = PACKET_DATA_SIZE_def SIGNATURE_SIZE_def PUBKEY_SIZE_def HASH_SIZE_def

text \<open>The \<open>as u8\<close> and \<open>as u16\<close> casts of a \<open>usize\<close>, and little-endian reads.\<close>

definition as_u16 :: "usize \<Rightarrow> u16" where "as_u16 n = word_of_nat n"

definition u8_to_u16 :: "u8 \<Rightarrow> u16" where "u8_to_u16 b = ucast b"

primrec le_nat :: "bytes \<Rightarrow> nat" where
  "le_nat [] = 0"
| "le_nat (b # bs) = unat b + 256 * le_nat bs"

lemma unat_as_u16 [simp]: "unat (as_u16 n) = n mod 65536"
  by (simp add: as_u16_def unat_of_nat)

lemma unat_as_u16_le: "unat (as_u16 n) \<le> n"
  by simp

lemma unat_u8_to_u16 [simp]: "unat (u8_to_u16 b) = unat b"
  by (simp add: u8_to_u16_def unsigned_ucast_eq take_bit_nat_eq_self less_trans [OF byte_less_256])

lemma le_nat_bound: "le_nat bs < 256 ^ length bs"
proof (induction bs)
  case (Cons b bs)
  have "unat b + 256 * le_nat bs < 256 + 256 * le_nat bs" by simp
  also have "\<dots> = 256 * (le_nat bs + 1)" by simp
  also have "\<dots> \<le> 256 * 256 ^ length bs" using Cons by (intro mult_le_mono) auto
  finally show ?case by simp
qed simp

section \<open>Signatures\<close>

definition MAX_SIGNATURES_PER_PACKET :: u8 where
  "MAX_SIGNATURES_PER_PACKET = word_of_nat (PACKET_DATA_SIZE div (SIGNATURE_SIZE + PUBKEY_SIZE))"

record SignatureFrame =
  sf_num_signatures :: u8
  sf_offset :: u16

definition SignatureFrame_try_new :: "bytes \<Rightarrow> SignatureFrame cursor" where
  "SignatureFrame_try_new bytes =
     sbind (read_byte bytes) (\<lambda>num_signatures.
     if num_signatures = 0 \<or> num_signatures > MAX_SIGNATURES_PER_PACKET then sfail ParseError
     else sbind sget (\<lambda>offset.
       let signature_offset = as_u16 offset in
       sbind (advance_offset_for_array SIGNATURE_SIZE bytes (u8_to_u16 num_signatures)) (\<lambda>_.
       sreturn \<lparr>sf_num_signatures = num_signatures, sf_offset = signature_offset\<rparr>)))"

lemma MAX_SIGNATURES_PER_PACKET_eq: "MAX_SIGNATURES_PER_PACKET = 12"
  by (simp add: MAX_SIGNATURES_PER_PACKET_def size_defs)

lemma SignatureFrame_try_new_wp [wp_rules]:
  assumes "fits_slice bytes" and "offset \<le> length bytes"
    and "\<And>n. n \<noteq> 0 \<Longrightarrow> n \<le> 12 \<Longrightarrow> offset + 1 + unat n * 64 \<le> length bytes \<Longrightarrow> bytes ! offset = n \<Longrightarrow>
          Q \<lparr>sf_num_signatures = n, sf_offset = as_u16 (offset + 1)\<rparr> (offset + 1 + unat n * 64)"
  shows "wp (SignatureFrame_try_new bytes) Q offset"
  using assms
  by (auto simp: SignatureFrame_try_new_def MAX_SIGNATURES_PER_PACKET_eq size_defs Let_def not_less
      intro!: read_byte_wp advance_offset_for_array_wp)

section \<open>Message header\<close>

datatype TransactionVersion = Legacy | V0 | V1

record MessageHeaderFrame =
  mh_offset :: u16
  mh_version :: TransactionVersion
  mh_num_required_signatures :: u8
  mh_num_readonly_signed_accounts :: u8
  mh_num_readonly_unsigned_accounts :: u8

definition MessageHeaderFrame_try_new :: "bytes \<Rightarrow> MessageHeaderFrame cursor" where
  "MessageHeaderFrame_try_new bytes =
     sbind sget (\<lambda>offset.
     let message_offset = as_u16 offset in
     sbind (read_byte bytes) (\<lambda>message_prefix.
     sbind (if message_prefix AND MESSAGE_VERSION_PREFIX \<noteq> 0
            then (let version = message_prefix AND NOT MESSAGE_VERSION_PREFIX in
                  if version = 0
                  then sbind (read_byte bytes) (\<lambda>n. sreturn (V0, n))
                  else sfail ParseError)
            else sreturn (Legacy, message_prefix)) (\<lambda>(version, num_required_signatures).
     sbind (read_byte bytes) (\<lambda>num_readonly_signed_accounts.
     sbind (read_byte bytes) (\<lambda>num_readonly_unsigned_accounts.
     sreturn \<lparr>mh_offset = message_offset, mh_version = version,
              mh_num_required_signatures = num_required_signatures,
              mh_num_readonly_signed_accounts = num_readonly_signed_accounts,
              mh_num_readonly_unsigned_accounts = num_readonly_unsigned_accounts\<rparr>)))))"

text \<open>The bytes of a header: one version byte before the three counts in a v0 message.\<close>

definition header_bytes :: "MessageHeaderFrame \<Rightarrow> bytes" where
  "header_bytes h =
     (if mh_version h = V0 then [0x80] else []) @
     [mh_num_required_signatures h, mh_num_readonly_signed_accounts h,
      mh_num_readonly_unsigned_accounts h]"

lemma version_prefix_only: "b AND 0x80 \<noteq> 0 \<Longrightarrow> b AND NOT 0x80 = 0 \<Longrightarrow> b = 0x80" for b :: u8
proof -
  assume a: "b AND 0x80 \<noteq> 0" and z: "b AND NOT 0x80 = 0"
  have "(NOT 0x80 :: u8) = 0x7F" by code_simp
  with z have "b AND 0x7F = 0" by (simp only:)
  then have "unat b mod 128 = 0" by (metis and_low7 unsigned_0)
  moreover have "128 \<le> unat b" using a by (simp add: and_msb)
  ultimately have "unat b = 128" by (simp add: high_byte_mod)
  then show ?thesis by (simp add: word_unat_eq_iff)
qed

lemma MessageHeaderFrame_try_new_wp [wp_rules]:
  assumes "fits_slice bytes" and "offset \<le> length bytes"
    and "\<And>h. starts_at bytes offset (header_bytes h) \<Longrightarrow> mh_offset h = as_u16 offset \<Longrightarrow>
           mh_version h \<noteq> V1 \<Longrightarrow>
           (mh_version h = Legacy \<longrightarrow> mh_num_required_signatures h AND 0x80 = 0) \<Longrightarrow>
           Q h (offset + length (header_bytes h))"
  shows "wp (MessageHeaderFrame_try_new bytes) Q offset"
proof -
  have v0: "bytes ! offset AND 0x80 \<noteq> 0 \<Longrightarrow> bytes ! offset AND NOT 0x80 = 0 \<Longrightarrow> bytes ! offset = 0x80"
    by (rule version_prefix_only)
  have q: "Q \<lparr>mh_offset = as_u16 offset, mh_version = v, mh_num_required_signatures = n,
      mh_num_readonly_signed_accounts = a, mh_num_readonly_unsigned_accounts = b\<rparr>
      (offset + length ((if v = V0 then [0x80] else []) @ [n, a, b]))"
    if "starts_at bytes offset ((if v = V0 then [0x80] else []) @ [n, a, b])" "v \<noteq> V1"
      "v = Legacy \<longrightarrow> n AND 0x80 = 0" for v n a b
    using that
      assms(3) [of "\<lparr>mh_offset = as_u16 offset, mh_version = v, mh_num_required_signatures = n,
        mh_num_readonly_signed_accounts = a, mh_num_readonly_unsigned_accounts = b\<rparr>"]
    by (simp add: header_bytes_def)
  show ?thesis
    using assms(1,2) v0 q [of V0] q [of Legacy]
    by (auto simp: MessageHeaderFrame_try_new_def MESSAGE_VERSION_PREFIX_def Let_def
        split: prod.splits intro!: read_byte_wp)
qed

section \<open>Static account keys\<close>

definition LEGACY_OR_V0_MAX_STATIC_ACCOUNTS_PER_PACKET :: u8 where
  "LEGACY_OR_V0_MAX_STATIC_ACCOUNTS_PER_PACKET = word_of_nat (PACKET_DATA_SIZE div PUBKEY_SIZE)"

record StaticAccountKeysFrame =
  sk_num_static_accounts :: u8
  sk_offset :: u16

definition StaticAccountKeysFrame_try_new :: "bytes \<Rightarrow> StaticAccountKeysFrame cursor" where
  "StaticAccountKeysFrame_try_new bytes =
     sbind (read_byte bytes) (\<lambda>num_static_accounts.
     if num_static_accounts = 0 \<or>
        num_static_accounts > LEGACY_OR_V0_MAX_STATIC_ACCOUNTS_PER_PACKET
     then sfail ParseError
     else sbind sget (\<lambda>offset.
       let static_accounts_offset = as_u16 offset in
       sbind (advance_offset_for_array PUBKEY_SIZE bytes (u8_to_u16 num_static_accounts)) (\<lambda>_.
       sreturn \<lparr>sk_num_static_accounts = num_static_accounts,
                sk_offset = static_accounts_offset\<rparr>)))"

lemma MAX_STATIC_ACCOUNTS_eq: "LEGACY_OR_V0_MAX_STATIC_ACCOUNTS_PER_PACKET = 38"
  by (simp add: LEGACY_OR_V0_MAX_STATIC_ACCOUNTS_PER_PACKET_def size_defs)

lemma StaticAccountKeysFrame_try_new_wp [wp_rules]:
  assumes "fits_slice bytes" and "offset \<le> length bytes"
    and "\<And>n. n \<noteq> 0 \<Longrightarrow> n \<le> 38 \<Longrightarrow> offset + 1 + unat n * 32 \<le> length bytes \<Longrightarrow> bytes ! offset = n \<Longrightarrow>
          Q \<lparr>sk_num_static_accounts = n, sk_offset = as_u16 (offset + 1)\<rparr>
            (offset + 1 + unat n * 32)"
  shows "wp (StaticAccountKeysFrame_try_new bytes) Q offset"
  using assms
  by (auto simp: StaticAccountKeysFrame_try_new_def MAX_STATIC_ACCOUNTS_eq size_defs Let_def not_less
      intro!: read_byte_wp advance_offset_for_array_wp)

section \<open>Transaction config (v1)\<close>

record TransactionConfigFrame =
  cf_mask_offset :: u16
  cf_mask :: u32
  cf_values_offset :: u16
  cf_num_values :: u8

definition CONFIG_VALUE_SIZE :: usize where "CONFIG_VALUE_SIZE = 4"

definition not_applicable :: TransactionConfigFrame where
  "not_applicable = \<lparr>cf_mask_offset = 0, cf_mask = 0, cf_values_offset = 0, cf_num_values = 0\<rparr>"

definition is_present :: "TransactionConfigFrame \<Rightarrow> bool" where
  "is_present f \<longleftrightarrow> cf_mask_offset f \<noteq> 0"

definition has_bit :: "u32 \<Rightarrow> nat \<Rightarrow> bool" where
  "has_bit msk b \<longleftrightarrow> b < 32 \<and> drop_bit b msk AND 1 \<noteq> 0"

definition sanitize_mask :: "u32 \<Rightarrow> unit tv_result" where
  "sanitize_mask msk =
     (if msk AND NOT 0b11111 \<noteq> 0 then Err SanitizeError
      else if has_bit msk 0 \<noteq> has_bit msk 1 then Err SanitizeError
      else Ok ())"

definition TransactionConfigFrame_try_new ::
  "bytes \<Rightarrow> usize \<Rightarrow> u32 \<Rightarrow> TransactionConfigFrame cursor" where
  "TransactionConfigFrame_try_new bytes mask_offset msk =
     sbind (slift (assert_or_panic (mask_offset > 0))) (\<lambda>_.
     sbind (slift (sanitize_mask msk)) (\<lambda>_.
     let num_values = (word_of_nat (count_ones msk) :: u8) in
     if mask_offset > 65535 then sfail SanitizeError
     else sbind sget (\<lambda>offset.
     if offset > 65535 then sfail SanitizeError
     else sbind (advance_offset_for_array CONFIG_VALUE_SIZE bytes (u8_to_u16 num_values)) (\<lambda>_.
     sreturn \<lparr>cf_mask_offset = as_u16 mask_offset, cf_mask = msk,
              cf_values_offset = as_u16 offset, cf_num_values = num_values\<rparr>))))"

definition word_index_for_bit :: "TransactionConfigFrame \<Rightarrow> nat \<Rightarrow> u8 option" where
  "word_index_for_bit f b =
     (if \<not> is_present f \<or> \<not> has_bit (cf_mask f) b then None
      else Some (word_of_nat (count_ones (cf_mask f AND (push_bit b 1 - 1)))))"

definition word_offset :: "TransactionConfigFrame \<Rightarrow> nat \<Rightarrow> usize option" where
  "word_offset f b = map_option (\<lambda>word_index.
     usize_wrapping_add (unat (cf_values_offset f))
       (usize_wrapping_mul (unat word_index) CONFIG_VALUE_SIZE)) (word_index_for_bit f b)"

text \<open>A config value of \<open>n\<close> bytes, read little-endian at the word of bit \<open>b\<close>.\<close>

definition config_value ::
  "usize \<Rightarrow> TransactionConfigFrame \<Rightarrow> bytes \<Rightarrow> nat \<Rightarrow> 'w::len word option tv_result" where
  "config_value n f bytes b =
     (case word_offset f b of
        None \<Rightarrow> Ok None
      | Some offset \<Rightarrow> obind (unchecked_copy_value n bytes offset)
                        (\<lambda>bs. Ok (Some (word_of_nat (le_nat bs)))))"

definition priority_fee_lamports :: "TransactionConfigFrame \<Rightarrow> bytes \<Rightarrow> u64 option tv_result" where
  "priority_fee_lamports f bytes = config_value 8 f bytes 0"

definition compute_unit_limit :: "TransactionConfigFrame \<Rightarrow> bytes \<Rightarrow> u32 option tv_result" where
  "compute_unit_limit f bytes = config_value 4 f bytes 2"

definition loaded_accounts_data_size_limit ::
  "TransactionConfigFrame \<Rightarrow> bytes \<Rightarrow> u32 option tv_result" where
  "loaded_accounts_data_size_limit f bytes = config_value 4 f bytes 3"

definition requested_heap_size :: "TransactionConfigFrame \<Rightarrow> bytes \<Rightarrow> u32 option tv_result" where
  "requested_heap_size f bytes = config_value 4 f bytes 4"

text \<open>
  What the config reads rely on: the mask is sanitized, and one four-byte word per set bit lies
  inside the slice from the values offset on.
\<close>

definition config_in_bounds :: "bytes \<Rightarrow> TransactionConfigFrame \<Rightarrow> bool" where
  "config_in_bounds bytes f \<longleftrightarrow>
     (is_present f \<longrightarrow> sanitize_mask (cf_mask f) = Ok () \<and>
        unat (cf_values_offset f) + 4 * count_ones (cf_mask f) \<le> length bytes)"

lemma has_bit_iff: "has_bit m b \<longleftrightarrow> bit m b"
proof -
  have "drop_bit b m AND 1 \<noteq> 0 \<longleftrightarrow> bit m b"
    by (simp add: and_one_eq mod_2_eq_odd bit_iff_odd_drop_bit)
  then show ?thesis using bit_imp_le_length [of m b] by (auto simp: has_bit_def)
qed

lemma config_in_bounds_not_applicable [simp]: "config_in_bounds bytes not_applicable"
  by (simp add: config_in_bounds_def is_present_def not_applicable_def)

lemma bits_below: "{n. bit (m AND (push_bit b 1 - 1)) n} = {n. bit m n \<and> n < b}" if "b < 32"
  for m :: u32
proof -
  have "(push_bit b 1 - 1 :: u32) = mask b"
    by (simp add: mask_eq_exp_minus_1 push_bit_eq_mult)
  then show ?thesis using that
    by (auto simp: bit_and_iff bit_mask_iff dest: bit_imp_le_length)
qed

text \<open>The packed index of a set bit is below the number of set bits, with room for the bits after it.\<close>

lemma bits_below_card:
  fixes m :: u32
  assumes "bit m b" and "\<And>c. c \<in> C \<Longrightarrow> bit m c \<and> b < c" and "finite C"
  shows "count_ones (m AND (push_bit b 1 - 1)) + 1 + card C \<le> count_ones m"
proof -
  have b: "b < 32" using bit_imp_le_length [OF assms(1)] by simp
  let ?L = "{n. bit m n \<and> n < b}"
  have fin: "finite ?L" by (rule finite_subset [OF _ finite_bits [of m]]) auto
  have "card (?L \<union> ({b} \<union> C)) = card ?L + card ({b} \<union> C)"
    using assms(3) fin by (intro card_Un_disjoint) (auto dest: assms(2))
  also have "card ({b} \<union> C) = 1 + card C" using assms(3) by (subst card_Un_disjoint) (auto dest: assms(2))
  finally have "card ?L + (1 + card C) = card (?L \<union> ({b} \<union> C))" by simp
  also have "\<dots> \<le> card {n. bit m n}"
    using assms(1) by (intro card_mono) (auto dest: assms(2))
  finally show ?thesis unfolding count_ones_card bits_below [OF b] by simp
qed

lemma word_offset_in_bounds:
  assumes "config_in_bounds bytes f" and "word_offset f b = Some offset"
    and "\<And>c. c \<in> C \<Longrightarrow> bit (cf_mask f) c \<and> b < c" and "finite C"
  shows "offset + 4 * (1 + card C) \<le> length bytes"
proof -
  from assms(2) have p: "is_present f" and hb: "bit (cf_mask f) b"
    and off: "offset = usize_wrapping_add (unat (cf_values_offset f))
      (usize_wrapping_mul
        (unat (word_of_nat (count_ones (cf_mask f AND (push_bit b 1 - 1))) :: u8)) 4)"
    by (auto simp: word_offset_def word_index_for_bit_def has_bit_iff CONFIG_VALUE_SIZE_def
        split: if_splits)
  let ?k = "count_ones (cf_mask f AND (push_bit b 1 - 1))"
  have "?k \<le> 32" using count_ones_le [of "cf_mask f AND (push_bit b 1 - 1)"] by simp
  moreover have "unat (cf_values_offset f) < 65536"
    using unsigned_less [of "cf_values_offset f", where 'a = nat] by simp
  ultimately have "offset = unat (cf_values_offset f) + 4 * ?k"
    by (simp add: off unat_of_nat usize_simps)
  then show ?thesis
    using bits_below_card [OF hb, of C] assms p by (auto simp: config_in_bounds_def)
qed

lemma config_value_defined:
  assumes "config_in_bounds bytes f"
  shows "defined_outcome (config_value 4 f bytes b :: 'w::len word option tv_result)"
  using word_offset_in_bounds [OF assms, of b _ "{}"]
  by (auto simp: config_value_def unchecked_copy_value_eq split: option.split)

lemma priority_fee_defined:
  assumes "config_in_bounds bytes f"
  shows "defined_outcome (priority_fee_lamports f bytes)"
proof (cases "word_offset f 0")
  case (Some offset)
  then have "is_present f" "bit (cf_mask f) 0"
    by (auto simp: word_offset_def word_index_for_bit_def has_bit_iff split: if_splits)
  with assms have "bit (cf_mask f) 1"
    by (auto simp: config_in_bounds_def sanitize_mask_def has_bit_iff split: if_splits)
  then have "offset + 8 \<le> length bytes"
    using word_offset_in_bounds [OF assms Some, of "{1}"] by simp
  then show ?thesis
    using Some by (simp add: priority_fee_lamports_def config_value_def unchecked_copy_value_eq)
qed (simp add: priority_fee_lamports_def config_value_def)

lemma TransactionConfigFrame_try_new_wp [wp_rules]:
  assumes "fits_slice bytes" and "offset \<le> length bytes" and "0 < mask_offset"
    and "\<And>f. offset < 65536 \<Longrightarrow> offset + 4 * count_ones msk \<le> length bytes \<Longrightarrow>
          config_in_bounds bytes f \<Longrightarrow> cf_mask f = msk \<Longrightarrow> unat (cf_mask_offset f) = mask_offset \<Longrightarrow>
          Q f (offset + 4 * count_ones msk)"
  shows "wp (TransactionConfigFrame_try_new bytes mask_offset msk) Q offset"
proof -
  have c: "count_ones msk \<le> 32" using count_ones_le [of msk] by simp
  then have u: "unat (word_of_nat (count_ones msk) :: u8) = count_ones msk"
    by (simp add: unat_of_nat)
  let ?f = "\<lparr>cf_mask_offset = as_u16 mask_offset, cf_mask = msk, cf_values_offset = as_u16 offset,
      cf_num_values = word_of_nat (count_ones msk)\<rparr>"
  have "Q ?f (offset + 4 * count_ones msk)"
    if "sanitize_mask msk = Ok ()" "mask_offset \<le> 65535" "offset \<le> 65535"
      "offset + count_ones msk * 4 \<le> length bytes"
    using that assms(4) [of ?f] by (simp add: config_in_bounds_def)
  then show ?thesis
    using assms(1-3)
    by (auto simp: TransactionConfigFrame_try_new_def wp_slift Let_def CONFIG_VALUE_SIZE_def u
        sanitize_mask_def mult.commute not_less intro!: advance_offset_for_array_wp split: if_splits)
qed

end
