(* ===== verification/Tx_Instructions.thy ===== *)
theory Tx_Instructions
  imports Tx_Frames
begin

text \<open>
  \<open>transaction-view/src/instructions_frame.rs\<close>: parsing the instruction section of legacy/v0 and of
  v1 transactions, and iterating over the instructions with unchecked reads. The lemmas show that a
  successfully parsed section is laid out as the iterator expects, so that no unchecked read leaves
  the slice, and that the decoded instructions re-encode to the bytes that were parsed.
\<close>

section \<open>Definitions\<close>

record LegacyAndV0InstructionFrame =
  lf_num_accounts :: u16
  lf_data_len :: u16
  lf_num_accounts_len :: u8
  lf_data_len_len :: u8

datatype InstructionsFrame =
    LegacyAndV0 u16 u16 "LegacyAndV0InstructionFrame list"
    \<comment> \<open>\<open>num_instructions\<close>, \<open>offset\<close>, \<open>frames\<close>\<close>
  | V1Frame u16 u16 u16
    \<comment> \<open>\<open>num_instructions\<close>, \<open>headers_offset\<close>, \<open>payloads_offset\<close>\<close>

record V1InstructionHeader =
  vh_program_id_index :: u8
  vh_num_accounts :: u8
  vh_data_len :: u16

record SVMInstruction =
  ix_program_id_index :: u8
  ix_accounts :: bytes
  ix_data :: bytes

text \<open>One round of the legacy/v0 loop, and the loop over the instructions still to parse.\<close>

definition parse_legacy_instruction :: "bytes \<Rightarrow> LegacyAndV0InstructionFrame cursor" where
  "parse_legacy_instruction bytes =
     sbind (read_byte bytes) (\<lambda>_.
     sbind sget (\<lambda>num_accounts_offset.
     sbind (optimized_read_compressed_u16 bytes) (\<lambda>num_accounts.
     sbind sget (\<lambda>offset.
     let num_accounts_len = byte_of (usize_wrapping_sub offset num_accounts_offset) in
     sbind (advance_offset_for_array 1 bytes num_accounts) (\<lambda>_.
     sbind sget (\<lambda>data_len_offset.
     sbind (optimized_read_compressed_u16 bytes) (\<lambda>data_len.
     sbind sget (\<lambda>offset.
     let data_len_len = byte_of (usize_wrapping_sub offset data_len_offset) in
     sbind (advance_offset_for_array 1 bytes data_len) (\<lambda>_.
     sreturn \<lparr>lf_num_accounts = num_accounts, lf_data_len = data_len,
              lf_num_accounts_len = num_accounts_len, lf_data_len_len = data_len_len\<rparr>)))))))))"

fun parse_legacy_instructions ::
  "bytes \<Rightarrow> nat \<Rightarrow> LegacyAndV0InstructionFrame list \<Rightarrow> LegacyAndV0InstructionFrame list cursor" where
  "parse_legacy_instructions bytes 0 frames = sreturn frames"
| "parse_legacy_instructions bytes (Suc n) frames =
     sbind (parse_legacy_instruction bytes) (\<lambda>frame.
     parse_legacy_instructions bytes n (frames @ [frame]))"

definition try_new_for_legacy_and_v0 :: "bytes \<Rightarrow> InstructionsFrame cursor" where
  "try_new_for_legacy_and_v0 bytes =
     sbind (optimized_read_compressed_u16 bytes) (\<lambda>num_instructions.
     sbind sget (\<lambda>offset.
     sbind (slift (check_remaining bytes offset
                     (usize_wrapping_mul 3 (unat num_instructions)))) (\<lambda>_.
     let instructions_offset = as_u16 offset in
     sbind (parse_legacy_instructions bytes (unat num_instructions) []) (\<lambda>frames.
     sreturn (LegacyAndV0 num_instructions instructions_offset frames)))))"

definition V1_HEADER_SIZE :: usize where "V1_HEADER_SIZE = 4"

text \<open>
  \<open>read_v1_header\<close> copies the four bytes of the \<open>repr(C)\<close> header: two \<open>u8\<close> and one little-endian
  \<open>u16\<close>.
\<close>

definition read_v1_header :: "bytes \<Rightarrow> V1InstructionHeader cursor" where
  "read_v1_header bytes offset =
     (obind (unchecked_copy_value V1_HEADER_SIZE bytes offset) (\<lambda>bs.
        Ok \<lparr>vh_program_id_index = bs ! 0, vh_num_accounts = bs ! 1,
            vh_data_len = as_u16 (le_nat (drop 2 bs))\<rparr>),
      usize_wrapping_add offset V1_HEADER_SIZE)"

text \<open>The loop that adds up the payload lengths, on the offset of the next header.\<close>

fun total_payload :: "bytes \<Rightarrow> nat \<Rightarrow> usize \<Rightarrow> usize cursor" where
  "total_payload bytes 0 total_payload_len = sreturn total_payload_len"
| "total_payload bytes (Suc n) total_payload_len =
     sbind (read_v1_header bytes) (\<lambda>header.
     sbind (slift (ok_or ParseError
       (usize_checked_add (unat (vh_num_accounts header)) (unat (vh_data_len header))))) (\<lambda>payload_len.
     sbind (slift (ok_or ParseError
       (usize_checked_add total_payload_len payload_len))) (\<lambda>total_payload_len.
     total_payload bytes n total_payload_len)))"

definition try_new_for_v1 :: "bytes \<Rightarrow> u8 \<Rightarrow> InstructionsFrame cursor" where
  "try_new_for_v1 bytes num_instructions =
     sbind sget (\<lambda>offset.
     let headers_offset = as_u16 offset;
         headers_len = usize_wrapping_mul V1_HEADER_SIZE (unat num_instructions) in
     sbind (slift (check_remaining bytes offset headers_len)) (\<lambda>_.
     let header_offset = offset;
         offset' = usize_wrapping_add offset headers_len;
         payloads_offset = as_u16 offset' in
     sbind (slift (fst (total_payload bytes (unat num_instructions) 0 header_offset)))
       (\<lambda>total_payload_len.
     sbind (slift (check_remaining bytes offset' total_payload_len)) (\<lambda>_ _.
       (Ok (V1Frame (u8_to_u16 num_instructions) headers_offset payloads_offset),
        usize_wrapping_add offset' total_payload_len)))))"

fun InstructionsFrame_num_instructions :: "InstructionsFrame \<Rightarrow> u16" where
  "InstructionsFrame_num_instructions (LegacyAndV0 num_instructions _ _) = num_instructions"
| "InstructionsFrame_num_instructions (V1Frame num_instructions _ _) = num_instructions"

datatype InstructionsIterator =
    ItLegacyAndV0 bytes usize u16 u16 "LegacyAndV0InstructionFrame list"
    \<comment> \<open>\<open>bytes\<close>, \<open>offset\<close>, \<open>num_instructions\<close>, \<open>index\<close>, \<open>frames\<close>\<close>
  | ItV1 bytes u16 u16 usize usize
    \<comment> \<open>\<open>bytes\<close>, \<open>index\<close>, \<open>num_instructions\<close>, \<open>headers_offset\<close>, \<open>payloads_offset\<close>\<close>

fun InstructionsFrame_iter :: "InstructionsFrame \<Rightarrow> bytes \<Rightarrow> InstructionsIterator" where
  "InstructionsFrame_iter (LegacyAndV0 num_instructions offset frames) bytes =
     ItLegacyAndV0 bytes (unat offset) num_instructions 0 frames"
| "InstructionsFrame_iter (V1Frame num_instructions headers_offset payloads_offset) bytes =
     ItV1 bytes 0 num_instructions (unat headers_offset) (unat payloads_offset)"

definition for_legacy_and_v0 ::
  "bytes \<Rightarrow> u16 \<Rightarrow> u8 \<Rightarrow> u16 \<Rightarrow> u8 \<Rightarrow> SVMInstruction cursor" where
  "for_legacy_and_v0 bytes num_accounts num_accounts_len data_len data_len_len =
     sbind (unchecked_read_byte bytes) (\<lambda>program_id_index.
     sbind (\<lambda>offset. (Ok (), usize_wrapping_add offset (unat num_accounts_len))) (\<lambda>_.
     sbind (unchecked_read_slice_data 1 bytes num_accounts) (\<lambda>accounts.
     sbind (\<lambda>offset. (Ok (), usize_wrapping_add offset (unat data_len_len))) (\<lambda>_.
     sbind (unchecked_read_slice_data 1 bytes data_len) (\<lambda>data.
     sreturn \<lparr>ix_program_id_index = program_id_index, ix_accounts = accounts, ix_data = data\<rparr>)))))"

definition for_v1 :: "bytes \<Rightarrow> u8 \<Rightarrow> u16 \<Rightarrow> u16 \<Rightarrow> SVMInstruction cursor" where
  "for_v1 bytes program_id_index num_accounts data_len =
     sbind (unchecked_read_slice_data 1 bytes num_accounts) (\<lambda>accounts.
     sbind (unchecked_read_slice_data 1 bytes data_len) (\<lambda>data.
     sreturn \<lparr>ix_program_id_index = program_id_index, ix_accounts = accounts, ix_data = data\<rparr>))"

fun InstructionsIterator_next ::
  "InstructionsIterator \<Rightarrow> SVMInstruction option tv_result \<times> InstructionsIterator" where
  "InstructionsIterator_next (ItLegacyAndV0 bytes offset num_instructions index frames) =
     (if index \<ge> num_instructions
      then (Ok None, ItLegacyAndV0 bytes offset num_instructions index frames)
      else (case (index_or_panic frames (unat index) :: LegacyAndV0InstructionFrame tv_result) of
          Ok f \<Rightarrow>
            (let (r, offset') = for_legacy_and_v0 bytes (lf_num_accounts f) (lf_num_accounts_len f)
                                  (lf_data_len f) (lf_data_len_len f) offset
             in (obind r (\<lambda>ix. Ok (Some ix)),
                 ItLegacyAndV0 bytes offset' num_instructions (index + 1) frames))
        | _ \<Rightarrow> (Panic, ItLegacyAndV0 bytes offset num_instructions index frames)))"
| "InstructionsIterator_next (ItV1 bytes index num_instructions headers_offset payloads_offset) =
     (if index \<ge> num_instructions
      then (Ok None, ItV1 bytes index num_instructions headers_offset payloads_offset)
      else (let (h, headers_offset') = read_v1_header bytes headers_offset in
        case h of
          Ok header \<Rightarrow>
            (let (r, payloads_offset') = for_v1 bytes (vh_program_id_index header)
                   (u8_to_u16 (vh_num_accounts header)) (vh_data_len header) payloads_offset
             in (obind r (\<lambda>ix. Ok (Some ix)),
                 ItV1 bytes (index + 1) num_instructions headers_offset' payloads_offset'))
        | _ \<Rightarrow> (UB, ItV1 bytes index num_instructions headers_offset' payloads_offset)))"

fun InstructionsIterator_len :: "InstructionsIterator \<Rightarrow> usize" where
  "InstructionsIterator_len (ItLegacyAndV0 bytes offset num_instructions index frames) =
     unat (num_instructions - index)"
| "InstructionsIterator_len (ItV1 bytes index num_instructions headers_offset payloads_offset) =
     unat (num_instructions - index)"

lemma unat_inc: "index < n \<Longrightarrow> unat (index + 1) = unat index + 1" for n index :: "'w::len word"
proof -
  assume "index < n"
  then have "unat index < unat n" by (simp add: word_less_nat_alt)
  moreover have "unat n < 2 ^ LENGTH('w)" by (rule unsigned_less)
  ultimately have "unat index + 1 < 2 ^ LENGTH('w)" by linarith
  then show ?thesis by (simp add: unat_word_ariths)
qed

lemma remaining_decreases: "index < n \<Longrightarrow> unat (n - (index + 1)) < unat (n - index)"
  for n index :: u16
proof -
  assume a: "index < n"
  have "index + 1 \<le> n" using a unat_inc [OF a] by (simp add: word_le_nat_alt word_less_nat_alt)
  then show ?thesis using a unat_inc [OF a]
    by (simp add: unat_sub word_less_nat_alt less_imp_le)
qed

lemma next_len_decreases:
  "InstructionsIterator_next it = (Ok (Some ix), it') \<Longrightarrow>
     InstructionsIterator_len it' < InstructionsIterator_len it"
  by (induction it rule: InstructionsIterator_next.induct)
     (auto simp: Let_def index_or_panic_def not_le dest: remaining_decreases
       split: if_splits prod.splits outcome.splits)

text \<open>
  A \<open>for\<close> loop over an instruction iterator: the body is called on each item until it returns an
  error or the iterator is exhausted. The remaining length decreases with every item.
\<close>

function iter_fold ::
  "InstructionsIterator \<Rightarrow> ('a \<Rightarrow> SVMInstruction \<Rightarrow> 'a tv_result) \<Rightarrow> 'a \<Rightarrow> 'a tv_result" where
  "iter_fold it body acc =
     (case InstructionsIterator_next it of
        (Ok None, it') \<Rightarrow> Ok acc
      | (Ok (Some ix), it') \<Rightarrow> obind (body acc ix) (\<lambda>acc'. iter_fold it' body acc')
      | (Err e, it') \<Rightarrow> Err e
      | (Panic, it') \<Rightarrow> Panic
      | (UB, it') \<Rightarrow> UB)"
  by pat_completeness auto
termination
  by (relation "measure (\<lambda>(it, body, acc). InstructionsIterator_len it)")
     (auto intro: next_len_decreases [OF sym])

declare iter_fold.simps [simp del]

fun fold_outcome :: "('a \<Rightarrow> 'b \<Rightarrow> ('e, 'a) outcome) \<Rightarrow> 'a \<Rightarrow> 'b list \<Rightarrow> ('e, 'a) outcome" where
  "fold_outcome body acc [] = Ok acc"
| "fold_outcome body acc (x # xs) = obind (body acc x) (\<lambda>acc'. fold_outcome body acc' xs)"

text \<open>Collecting the items of an instruction iterator.\<close>

definition collect_instructions :: "InstructionsIterator \<Rightarrow> SVMInstruction list tv_result" where
  "collect_instructions it = iter_fold it (\<lambda>acc ix. Ok (acc @ [ix])) []"

section \<open>The layout of a legacy/v0 instruction section\<close>

definition legacy_len :: "LegacyAndV0InstructionFrame \<Rightarrow> nat" where
  "legacy_len f = 1 + unat (lf_num_accounts_len f) + unat (lf_num_accounts f)
     + unat (lf_data_len_len f) + unat (lf_data_len f)"

definition legacy_instruction_at :: "bytes \<Rightarrow> usize \<Rightarrow> LegacyAndV0InstructionFrame \<Rightarrow> SVMInstruction" where
  "legacy_instruction_at bytes offset f =
     (let a = offset + 1 + unat (lf_num_accounts_len f);
          d = a + unat (lf_num_accounts f) + unat (lf_data_len_len f)
      in \<lparr>ix_program_id_index = bytes ! offset,
          ix_accounts = take (unat (lf_num_accounts f)) (drop a bytes),
          ix_data = take (unat (lf_data_len f)) (drop d bytes)\<rparr>)"

definition legacy_frame_at :: "bytes \<Rightarrow> usize \<Rightarrow> LegacyAndV0InstructionFrame \<Rightarrow> bool" where
  "legacy_frame_at bytes offset f \<longleftrightarrow>
     offset + legacy_len f \<le> length bytes \<and>
     unat (lf_num_accounts f) < 16384 \<and> unat (lf_data_len f) < 16384 \<and>
     unat (lf_num_accounts_len f) = length (compact_u16 (unat (lf_num_accounts f))) \<and>
     starts_at bytes (offset + 1) (compact_u16 (unat (lf_num_accounts f))) \<and>
     unat (lf_data_len_len f) = length (compact_u16 (unat (lf_data_len f))) \<and>
     starts_at bytes
       (offset + 1 + unat (lf_num_accounts_len f) + unat (lf_num_accounts f))
       (compact_u16 (unat (lf_data_len f)))"

fun legacy_layout :: "bytes \<Rightarrow> usize \<Rightarrow> LegacyAndV0InstructionFrame list \<Rightarrow> bool" where
  "legacy_layout bytes offset [] \<longleftrightarrow> offset \<le> length bytes"
| "legacy_layout bytes offset (f # fs) \<longleftrightarrow>
     legacy_frame_at bytes offset f \<and> legacy_layout bytes (offset + legacy_len f) fs"

fun legacy_end :: "usize \<Rightarrow> LegacyAndV0InstructionFrame list \<Rightarrow> usize" where
  "legacy_end offset [] = offset"
| "legacy_end offset (f # fs) = legacy_end (offset + legacy_len f) fs"

fun legacy_decode :: "bytes \<Rightarrow> usize \<Rightarrow> LegacyAndV0InstructionFrame list \<Rightarrow> SVMInstruction list" where
  "legacy_decode bytes offset [] = []"
| "legacy_decode bytes offset (f # fs) =
     legacy_instruction_at bytes offset f # legacy_decode bytes (offset + legacy_len f) fs"

definition encode_instruction :: "SVMInstruction \<Rightarrow> bytes" where
  "encode_instruction ix =
     [ix_program_id_index ix] @ compact_u16 (length (ix_accounts ix)) @ ix_accounts ix
       @ compact_u16 (length (ix_data ix)) @ ix_data ix"

lemma optimized_read_wp [wp_rules]:
  assumes "fits_slice bytes" and "offset \<le> length bytes"
    and "\<And>v. unat v < 16384 \<Longrightarrow> starts_at bytes offset (compact_u16 (unat v)) \<Longrightarrow>
           offset + length (compact_u16 (unat v)) \<le> length bytes \<Longrightarrow>
           Q v (offset + length (compact_u16 (unat v)))"
  shows "wp (optimized_read_compressed_u16 bytes) Q offset"
proof (rule wpI)
  show "defined_outcome (fst (optimized_read_compressed_u16 bytes offset))"
    by (auto simp: optimized_read_compressed_u16_def Let_def split: option.split)
  fix v offset' assume "optimized_read_compressed_u16 bytes offset = (Ok v, offset')"
  then show "Q v offset'"
    using optimized_read_sound [OF assms(1,2)] assms(3) [of v] by (auto simp: starts_at_def)
qed

lemma compact_len_mod [simp]: "length (compact_u16 v) mod 256 = length (compact_u16 v)"
  by (simp add: length_compact_u16)

lemma parse_legacy_instruction_wp [wp_rules]:
  assumes "fits_slice bytes" and "offset \<le> length bytes"
    and "\<And>f. legacy_frame_at bytes offset f \<Longrightarrow> Q f (offset + legacy_len f)"
  shows "wp (parse_legacy_instruction bytes) Q offset"
proof -
  let ?c = "\<lambda>v :: u16. length (compact_u16 (unat v))"
  let ?f = "\<lambda>na dl. \<lparr>lf_num_accounts = na, lf_data_len = dl, lf_num_accounts_len = byte_of (?c na),
      lf_data_len_len = byte_of (?c dl)\<rparr>"
  have q: "Q (?f na dl) (offset + 1 + ?c na + unat na + ?c dl + unat dl)"
    if "starts_at bytes (offset + 1) (compact_u16 (unat na))"
      "starts_at bytes (offset + 1 + ?c na + unat na) (compact_u16 (unat dl))"
      "offset + 1 + ?c na + unat na + ?c dl + unat dl \<le> length bytes"
      "unat na < 16384" "unat dl < 16384" for na dl
    using that assms(3) [of "?f na dl"]
    by (simp add: legacy_frame_at_def legacy_len_def add.assoc)
  show ?thesis
    unfolding parse_legacy_instruction_def Let_def wp_sbind wp_sget
    using assms(1,2)
    by (intro read_byte_wp optimized_read_wp advance_offset_for_array_wp)
       (auto simp: fits_slice_def usize_simps intro: q [simplified])
qed

lemma legacy_layout_append:
  "legacy_layout bytes offset (fs @ gs) \<longleftrightarrow>
     legacy_layout bytes offset fs \<and> legacy_layout bytes (legacy_end offset fs) gs"
proof (induction fs arbitrary: offset)
  case Nil
  show ?case by (cases gs) (auto simp: legacy_frame_at_def)
qed auto

lemma legacy_end_append: "legacy_end offset (fs @ gs) = legacy_end (legacy_end offset fs) gs"
  by (induction fs arbitrary: offset) auto

lemma legacy_layout_end: "legacy_layout bytes offset fs \<Longrightarrow> legacy_end offset fs \<le> length bytes"
  by (induction fs arbitrary: offset) auto

lemma parse_legacy_instructions_wp:
  assumes "fits_slice bytes" and "legacy_layout bytes start frames"
    and "offset = legacy_end start frames"
    and "\<And>fs. legacy_layout bytes start fs \<Longrightarrow> length fs = length frames + n \<Longrightarrow>
          Q fs (legacy_end start fs)"
  shows "wp (parse_legacy_instructions bytes n frames) Q offset"
  using assms(2-)
proof (induction n arbitrary: frames offset)
  case 0
  then show ?case by simp
next
  case (Suc n)
  have "wp (parse_legacy_instructions bytes n (frames @ [f])) Q (offset + legacy_len f)"
    if "legacy_frame_at bytes offset f" for f
    using that Suc.prems
    by (intro Suc.IH)
       (auto simp: legacy_layout_append legacy_end_append legacy_frame_at_def)
  then show ?case
    using Suc.prems legacy_layout_end [OF Suc.prems(1)] assms(1)
    by (auto intro!: parse_legacy_instruction_wp)
qed

section \<open>The layout of a v1 instruction section\<close>

definition v1_header_at :: "bytes \<Rightarrow> usize \<Rightarrow> V1InstructionHeader" where
  "v1_header_at bytes offset =
     \<lparr>vh_program_id_index = bytes ! offset, vh_num_accounts = bytes ! (offset + 1),
      vh_data_len = as_u16 (le_nat (take 2 (drop (offset + 2) bytes)))\<rparr>"

definition v1_payload_len :: "bytes \<Rightarrow> usize \<Rightarrow> nat" where
  "v1_payload_len bytes header_offset =
     unat (vh_num_accounts (v1_header_at bytes header_offset))
       + unat (vh_data_len (v1_header_at bytes header_offset))"

fun v1_total :: "bytes \<Rightarrow> usize \<Rightarrow> nat \<Rightarrow> nat" where
  "v1_total bytes header_offset 0 = 0"
| "v1_total bytes header_offset (Suc n) =
     v1_payload_len bytes header_offset + v1_total bytes (header_offset + 4) n"

definition v1_instruction_at :: "bytes \<Rightarrow> usize \<Rightarrow> usize \<Rightarrow> SVMInstruction" where
  "v1_instruction_at bytes header_offset payload_offset =
     (let h = v1_header_at bytes header_offset;
          a = unat (vh_num_accounts h)
      in \<lparr>ix_program_id_index = vh_program_id_index h,
          ix_accounts = take a (drop payload_offset bytes),
          ix_data = take (unat (vh_data_len h)) (drop (payload_offset + a) bytes)\<rparr>)"

fun v1_decode :: "bytes \<Rightarrow> usize \<Rightarrow> usize \<Rightarrow> nat \<Rightarrow> SVMInstruction list" where
  "v1_decode bytes h p 0 = []"
| "v1_decode bytes h p (Suc n) =
     v1_instruction_at bytes h p # v1_decode bytes (h + 4) (p + v1_payload_len bytes h) n"

definition v1_layout :: "bytes \<Rightarrow> usize \<Rightarrow> usize \<Rightarrow> nat \<Rightarrow> bool" where
  "v1_layout bytes h p n \<longleftrightarrow> h + 4 * n \<le> length bytes \<and> p + v1_total bytes h n \<le> length bytes"

lemma drop_take_drop: "drop k (take n (drop i xs)) = take (n - k) (drop (i + k) xs)"
  by (simp add: drop_take add.commute)

lemma read_v1_header_eq:
  assumes "fits_slice bytes" and "offset + 4 \<le> length bytes"
  shows "read_v1_header bytes offset = (Ok (v1_header_at bytes offset), offset + 4)"
  using assms
  by (simp add: read_v1_header_def V1_HEADER_SIZE_def unchecked_copy_value_eq v1_header_at_def
      fits_slice_def usize_simps drop_take_drop)

lemma v1_payload_len_less: "v1_payload_len bytes offset < 65792"
proof -
  have "unat (vh_num_accounts (v1_header_at bytes offset)) < 256" by simp
  moreover have "unat (vh_data_len (v1_header_at bytes offset)) < 65536"
    using unsigned_less [of "vh_data_len (v1_header_at bytes offset)", where 'a = nat] by simp
  ultimately show ?thesis unfolding v1_payload_len_def by linarith
qed

lemma total_payload_eq:
  assumes "fits_slice bytes" and "header_offset + 4 * n \<le> length bytes"
    and "acc + n * 65792 < 2 ^ 64"
  shows "total_payload bytes n acc header_offset =
           (Ok (acc + v1_total bytes header_offset n), header_offset + 4 * n)"
  using assms(2,3)
proof (induction n arbitrary: acc header_offset)
  case 0
  then show ?case by (simp add: sreturn_def)
next
  case (Suc n)
  have pl: "v1_payload_len bytes header_offset < 65792" by (rule v1_payload_len_less)
  have "total_payload bytes n (acc + v1_payload_len bytes header_offset) (header_offset + 4) =
      (Ok (acc + v1_payload_len bytes header_offset + v1_total bytes (header_offset + 4) n),
       header_offset + 4 + 4 * n)"
    using Suc.prems pl by (intro Suc.IH) simp_all
  moreover have "acc + v1_payload_len bytes header_offset < 2 ^ 64" using Suc.prems pl by simp
  ultimately show ?case
    using Suc.prems pl assms(1)
    by (simp add: sbind_def slift_def read_v1_header_eq usize_checked_add_def
        flip: v1_payload_len_def)
qed

lemma try_new_for_v1_wp [wp_rules]:
  assumes "fits_slice bytes" and "offset \<le> length bytes"
    and "v1_layout bytes offset (offset + 4 * unat n) (unat n) \<Longrightarrow>
          Q (V1Frame (u8_to_u16 n) (as_u16 offset) (as_u16 (offset + 4 * unat n)))
            (offset + 4 * unat n + v1_total bytes offset (unat n))"
  shows "wp (try_new_for_v1 bytes n) Q offset"
proof -
  have n: "unat n < 256" by simp
  then have "257 * unat n < 72057594037927936" by linarith
  then have tp: "total_payload bytes (unat n) 0 offset =
      (Ok (v1_total bytes offset (unat n)), offset + 4 * unat n)"
    if "offset + 4 * unat n \<le> length bytes"
    using total_payload_eq [OF assms(1) that, of 0] by simp
  have "unat n < 4611686018427387904" using n by linarith
  moreover have "length bytes < 2 ^ 63" using assms(1) by (simp add: fits_slice_def)
  ultimately show ?thesis
    using assms tp
    by (auto simp: try_new_for_v1_def Let_def wp_slift V1_HEADER_SIZE_def check_remaining_eq
        usize_simps v1_layout_def split: if_splits)
qed

lemma try_new_for_legacy_and_v0_wp [wp_rules]:
  assumes "fits_slice bytes" and "offset \<le> length bytes"
    and "\<And>n fs. unat n < 16384 \<Longrightarrow> starts_at bytes offset (compact_u16 (unat n)) \<Longrightarrow>
          length fs = unat n \<Longrightarrow> legacy_layout bytes (offset + length (compact_u16 (unat n))) fs \<Longrightarrow>
          Q (LegacyAndV0 n (as_u16 (offset + length (compact_u16 (unat n)))) fs)
            (legacy_end (offset + length (compact_u16 (unat n))) fs)"
  shows "wp (try_new_for_legacy_and_v0 bytes) Q offset"
proof -
  have "wp (parse_legacy_instructions bytes (unat n) [])
      (\<lambda>fs. Q (LegacyAndV0 n (as_u16 offset') fs)) offset'"
    if "offset' = offset + length (compact_u16 (unat n))" "offset' \<le> length bytes"
      "starts_at bytes offset (compact_u16 (unat n))" "unat n < 16384" for n offset'
    using that assms(1) assms(3) [of n]
    by (intro parse_legacy_instructions_wp [where start = offset']) auto
  then show ?thesis
    unfolding try_new_for_legacy_and_v0_def Let_def wp_sbind wp_sget wp_slift wp_sreturn
    using assms(1,2) by (intro optimized_read_wp) (auto simp: check_remaining_eq)
qed

section \<open>Iterating over a laid-out section\<close>

lemma for_legacy_and_v0_eq:
  assumes "fits_slice bytes" and "legacy_frame_at bytes offset f"
  shows "for_legacy_and_v0 bytes (lf_num_accounts f) (lf_num_accounts_len f) (lf_data_len f)
           (lf_data_len_len f) offset =
         (Ok (legacy_instruction_at bytes offset f), offset + legacy_len f)"
proof -
  have b: "offset + 1 + unat (lf_num_accounts_len f) + unat (lf_num_accounts f)
      + unat (lf_data_len_len f) + unat (lf_data_len f) \<le> length bytes"
    using assms(2) by (simp add: legacy_frame_at_def legacy_len_def)
  moreover have "length bytes < 2 ^ 63" using assms(1) by (simp add: fits_slice_def)
  ultimately show ?thesis
    using assms(1)
    by (simp add: for_legacy_and_v0_def sbind_def sreturn_def unchecked_read_byte_def
        get_unchecked_def unchecked_read_slice_data_u8_eq [simplified] legacy_instruction_at_def
        legacy_len_def Let_def usize_simps add.assoc)
qed

lemma for_v1_eq:
  assumes "fits_slice bytes" and "payload_offset + v1_payload_len bytes h \<le> length bytes"
  shows "for_v1 bytes (vh_program_id_index (v1_header_at bytes h))
           (u8_to_u16 (vh_num_accounts (v1_header_at bytes h))) (vh_data_len (v1_header_at bytes h))
           payload_offset =
         (Ok (v1_instruction_at bytes h payload_offset), payload_offset + v1_payload_len bytes h)"
  using assms
  by (simp add: for_v1_def sbind_def sreturn_def unchecked_read_slice_data_u8_eq [simplified]
      v1_instruction_at_def v1_payload_len_def Let_def add.assoc)

lemma legacy_next_eq:
  assumes "fits_slice bytes" and "legacy_layout bytes offset (drop (unat index) frames)"
    and "length frames = unat n" and "index < n"
  shows "InstructionsIterator_next (ItLegacyAndV0 bytes offset n index frames) =
    (Ok (Some (legacy_instruction_at bytes offset (frames ! unat index))),
     ItLegacyAndV0 bytes (offset + legacy_len (frames ! unat index)) n (index + 1) frames)"
proof -
  have i: "unat index < length frames" using assms(3,4) by (simp add: word_less_nat_alt)
  then have "legacy_frame_at bytes offset (frames ! unat index)"
    using assms(2) by (simp flip: Cons_nth_drop_Suc)
  then show ?thesis using i assms(1,4)
    by (simp add: index_or_panic_def for_legacy_and_v0_eq)
qed

lemma legacy_iter_fold:
  assumes "fits_slice bytes" and "legacy_layout bytes offset (drop (unat index) frames)"
    and "length frames = unat n" and "index \<le> n"
  shows "iter_fold (ItLegacyAndV0 bytes offset n index frames) body acc =
           fold_outcome body acc (legacy_decode bytes offset (drop (unat index) frames))"
  using assms(2,4)
proof (induction "length frames - unat index" arbitrary: offset index acc)
  case 0
  then have "index = n" using assms(3) by (simp add: word_le_nat_alt word_unat_eq_iff)
  then show ?case using assms(3) by (simp add: iter_fold.simps)
next
  case (Suc k)
  then have i: "unat index < length frames" by simp
  then have lt: "index < n" using assms(3) by (simp add: word_less_nat_alt)
  have u: "unat (index + 1) = unat index + 1" using lt by (rule unat_inc)
  have d: "drop (unat index) frames = frames ! unat index # drop (unat (index + 1)) frames"
    using i u by (simp add: Cons_nth_drop_Suc)
  have "iter_fold (ItLegacyAndV0 bytes (offset + legacy_len (frames ! unat index)) n (index + 1) frames)
      body = (\<lambda>acc'. fold_outcome body acc'
        (legacy_decode bytes (offset + legacy_len (frames ! unat index))
          (drop (unat (index + 1)) frames)))"
    using Suc.hyps(2) Suc.prems d u lt
    by (intro ext Suc.hyps(1)) (simp_all add: word_le_nat_alt word_less_nat_alt)
  then show ?case
    using legacy_next_eq [OF assms(1) Suc.prems(1) assms(3) lt] d
    by (subst iter_fold.simps) (simp del: InstructionsIterator_next.simps)
qed

lemma v1_iter_fold:
  assumes "fits_slice bytes" and "v1_layout bytes h p (unat (n - index))" and "index \<le> n"
  shows "iter_fold (ItV1 bytes index n h p) body acc =
           fold_outcome body acc (v1_decode bytes h p (unat (n - index)))"
  using assms(2,3)
proof (induction "unat (n - index)" arbitrary: h p index acc)
  case 0
  then have "index = n" by (simp add: unat_eq_zero)
  then show ?case by (simp add: iter_fold.simps)
next
  case (Suc k)
  have lt: "index < n"
    using Suc.hyps(2) Suc.prems(2) by (cases "index = n") (auto simp: order.strict_iff_order)
  have k: "unat (n - (index + 1)) = k"
    using Suc.hyps(2) lt unat_inc [OF lt] inc_le [OF lt]
    by (simp add: unat_sub less_imp_le)
  have b: "h + 4 \<le> length bytes" "p + v1_payload_len bytes h \<le> length bytes"
    using Suc.prems(1) by (simp_all add: v1_layout_def flip: Suc.hyps(2))
  have "iter_fold (ItV1 bytes (index + 1) n (h + 4) (p + v1_payload_len bytes h)) body =
      (\<lambda>acc'. fold_outcome body acc' (v1_decode bytes (h + 4) (p + v1_payload_len bytes h)
        (unat (n - (index + 1)))))"
    using Suc.prems k inc_le [OF lt]
    by (intro ext Suc.hyps(1)) (simp_all add: v1_layout_def flip: Suc.hyps(2))
  moreover have "\<not> n \<le> index" using lt by simp
  ultimately show ?case
    using b k assms(1)
    by (subst iter_fold.simps)
       (simp add: read_v1_header_eq for_v1_eq flip: Suc.hyps(2))
qed

text \<open>
  The contract between parsing and iterating: the frame describes instructions that lie in the
  slice. \<open>instructions_of\<close> is the list the frame stands for.
\<close>

fun instructions_in_bounds :: "bytes \<Rightarrow> InstructionsFrame \<Rightarrow> bool" where
  "instructions_in_bounds bytes (LegacyAndV0 n offset frames) \<longleftrightarrow>
     length frames = unat n \<and> legacy_layout bytes (unat offset) frames"
| "instructions_in_bounds bytes (V1Frame n headers_offset payloads_offset) \<longleftrightarrow>
     v1_layout bytes (unat headers_offset) (unat payloads_offset) (unat n)"

fun instructions_of :: "bytes \<Rightarrow> InstructionsFrame \<Rightarrow> SVMInstruction list" where
  "instructions_of bytes (LegacyAndV0 n offset frames) = legacy_decode bytes (unat offset) frames"
| "instructions_of bytes (V1Frame n headers_offset payloads_offset) =
     v1_decode bytes (unat headers_offset) (unat payloads_offset) (unat n)"

lemma iter_fold_frame:
  assumes "fits_slice bytes" and "instructions_in_bounds bytes f"
  shows "iter_fold (InstructionsFrame_iter f bytes) body acc =
           fold_outcome body acc (instructions_of bytes f)"
  using assms
  by (cases f) (simp_all add: legacy_iter_fold v1_iter_fold)

lemma fold_outcome_collect: "fold_outcome (\<lambda>acc x. Ok (acc @ [x])) acc xs = Ok (acc @ xs)"
  by (induction xs arbitrary: acc) auto

lemma collect_instructions_eq:
  assumes "fits_slice bytes" and "instructions_in_bounds bytes f"
  shows "collect_instructions (InstructionsFrame_iter f bytes) = Ok (instructions_of bytes f)"
  by (simp add: collect_instructions_def iter_fold_frame [OF assms] fold_outcome_collect)

lemma length_legacy_decode [simp]: "length (legacy_decode bytes offset fs) = length fs"
  by (induction fs arbitrary: offset) auto

lemma length_v1_decode [simp]: "length (v1_decode bytes h p n) = n"
  by (induction n arbitrary: h p) auto

lemma length_instructions_of:
  "instructions_in_bounds bytes f \<Longrightarrow>
     length (instructions_of bytes f) = unat (InstructionsFrame_num_instructions f)"
  by (cases f) simp_all

lemma starts_at_append [simp]:
  "starts_at bytes i (xs @ ys) \<longleftrightarrow> starts_at bytes i xs \<and> starts_at bytes (i + length xs) ys"
proof (induction xs arbitrary: i)
  case Nil
  show ?case by (auto simp: starts_at_def)
qed auto

lemma starts_at_slice: "i + n \<le> length bytes \<Longrightarrow> starts_at bytes i (take n (drop i bytes))"
  by (simp add: starts_at_def min_def)

lemma encode_instruction_at:
  assumes "legacy_frame_at bytes offset f"
  shows "starts_at bytes offset (encode_instruction (legacy_instruction_at bytes offset f))"
    and "length (encode_instruction (legacy_instruction_at bytes offset f)) = legacy_len f"
proof -
  let ?ix = "legacy_instruction_at bytes offset f"
  let ?a = "offset + 1 + unat (lf_num_accounts_len f)"
  let ?d = "?a + unat (lf_num_accounts f) + unat (lf_data_len_len f)"
  have b: "?d + unat (lf_data_len f) \<le> length bytes"
    using assms by (simp add: legacy_frame_at_def legacy_len_def)
  then have "length (ix_accounts ?ix) = unat (lf_num_accounts f)"
    "length (ix_data ?ix) = unat (lf_data_len f)"
    "starts_at bytes ?a (ix_accounts ?ix)" "starts_at bytes ?d (ix_data ?ix)"
    "ix_program_id_index ?ix = bytes ! offset"
    by (simp_all add: legacy_instruction_at_def Let_def starts_at_slice)
  then show "starts_at bytes offset (encode_instruction ?ix)"
    and "length (encode_instruction ?ix) = legacy_len f"
    using assms by (auto simp: legacy_frame_at_def legacy_len_def encode_instruction_def)
qed

text \<open>The decoded legacy/v0 instructions, encoded one after the other, are the parsed bytes.\<close>

lemma legacy_decode_encode:
  assumes "legacy_layout bytes offset fs"
  shows "starts_at bytes offset (concat (map encode_instruction (legacy_decode bytes offset fs))) \<and>
    offset + length (concat (map encode_instruction (legacy_decode bytes offset fs))) =
      legacy_end offset fs"
  using assms
proof (induction fs arbitrary: offset)
  case (Cons f fs)
  then have "legacy_frame_at bytes offset f" by simp
  from encode_instruction_at [OF this] Cons show ?case by (simp flip: add.assoc)
qed simp

section \<open>Completeness: an encoded section parses\<close>

definition valid_instruction :: "SVMInstruction \<Rightarrow> bool" where
  "valid_instruction ix \<longleftrightarrow> length (ix_accounts ix) < 16384 \<and> length (ix_data ix) < 16384"

definition frame_of :: "SVMInstruction \<Rightarrow> LegacyAndV0InstructionFrame" where
  "frame_of ix = \<lparr>lf_num_accounts = as_u16 (length (ix_accounts ix)),
     lf_data_len = as_u16 (length (ix_data ix)),
     lf_num_accounts_len = byte_of (length (compact_u16 (length (ix_accounts ix)))),
     lf_data_len_len = byte_of (length (compact_u16 (length (ix_data ix))))\<rparr>"

lemma starts_at_le: "starts_at bytes i xs \<Longrightarrow> i + length xs \<le> length bytes"
  by (simp add: starts_at_def)

lemma starts_at_take: "starts_at bytes i xs \<Longrightarrow> take (length xs) (drop i bytes) = xs"
  by (simp add: starts_at_def)

lemma optimized_read_nat:
  assumes "fits_slice bytes" and "n < 16384" and "starts_at bytes offset (compact_u16 n)"
  shows "optimized_read_compressed_u16 bytes offset = (Ok (as_u16 n), offset + length (compact_u16 n))"
  using optimized_read_complete [OF assms(1), of "as_u16 n" offset] assms(2,3) by simp

lemma legacy_len_frame_of:
  "valid_instruction ix \<Longrightarrow> legacy_len (frame_of ix) = length (encode_instruction ix)"
  by (simp add: legacy_len_def frame_of_def encode_instruction_def valid_instruction_def)

lemma frame_of_at:
  assumes "valid_instruction ix" and "starts_at bytes offset (encode_instruction ix)"
  shows "legacy_frame_at bytes offset (frame_of ix)"
    and "legacy_instruction_at bytes offset (frame_of ix) = ix"
proof -
  let ?a = "ix_accounts ix" and ?d = "ix_data ix"
  have v: "length ?a < 16384" "length ?d < 16384" using assms(1) by (auto simp: valid_instruction_def)
  then show "legacy_frame_at bytes offset (frame_of ix)"
    using starts_at_le [OF assms(2)] legacy_len_frame_of [OF assms(1)] assms(2)
    by (simp add: legacy_frame_at_def frame_of_def encode_instruction_def)
  have "starts_at bytes (offset + 1 + length (compact_u16 (length ?a))) ?a"
    "starts_at bytes (offset + 1 + length (compact_u16 (length ?a)) + length ?a
      + length (compact_u16 (length ?d))) ?d"
    using assms(2) by (simp_all add: encode_instruction_def)
  note t = this [THEN starts_at_take]
  then show "legacy_instruction_at bytes offset (frame_of ix) = ix"
    using v assms(2)
    by (simp add: legacy_instruction_at_def frame_of_def encode_instruction_def Let_def)
qed

lemma parse_legacy_instruction_complete:
  assumes "fits_slice bytes" and "valid_instruction ix"
    and "starts_at bytes offset (encode_instruction ix)"
  shows "parse_legacy_instruction bytes offset =
    (Ok (frame_of ix), offset + length (encode_instruction ix))"
proof -
  let ?a = "ix_accounts ix" and ?d = "ix_data ix"
  let ?o1 = "offset + 1"
  let ?o2 = "?o1 + length (compact_u16 (length ?a))"
  let ?o3 = "?o2 + length ?a"
  let ?o4 = "?o3 + length (compact_u16 (length ?d))"
  have v: "length ?a < 16384" "length ?d < 16384" using assms(2) by (auto simp: valid_instruction_def)
  have s: "starts_at bytes offset [ix_program_id_index ix]"
    "starts_at bytes ?o1 (compact_u16 (length ?a))" "starts_at bytes ?o2 ?a"
    "starts_at bytes ?o3 (compact_u16 (length ?d))" "starts_at bytes ?o4 ?d"
    using assms(3) by (auto simp: encode_instruction_def)
  note b = s [THEN starts_at_le]
  have "length bytes < 2 ^ 63" using assms(1) by (simp add: fits_slice_def)
  with b have "usize_wrapping_sub ?o2 ?o1 = length (compact_u16 (length ?a))"
    "usize_wrapping_sub ?o4 ?o3 = length (compact_u16 (length ?d))"
    by (simp_all add: usize_simps)
  moreover note optimized_read_nat [OF assms(1) v(1) s(2)] optimized_read_nat [OF assms(1) v(2) s(4)]
  moreover have "read_byte bytes offset = (Ok (bytes ! offset), ?o1)"
    using b(1) assms(1) by (simp add: read_byte_eq)
  moreover have "advance_offset_for_array 1 bytes (as_u16 (length ?a)) ?o2 = (Ok (), ?o3)"
    "advance_offset_for_array 1 bytes (as_u16 (length ?d)) ?o4 = (Ok (), ?o4 + length ?d)"
    using b v assms(1) by (simp_all add: advance_offset_for_array_eq)
  ultimately show ?thesis
    by (simp add: parse_legacy_instruction_def sbind_def sget_def sreturn_def frame_of_def Let_def
      encode_instruction_def)
qed

lemma parse_legacy_instructions_complete:
  assumes "fits_slice bytes" and "list_all valid_instruction ixs"
    and "starts_at bytes offset (concat (map encode_instruction ixs))"
  shows "parse_legacy_instructions bytes (length ixs) frames offset =
    (Ok (frames @ map frame_of ixs), offset + length (concat (map encode_instruction ixs)))"
  using assms(2,3)
proof (induction ixs arbitrary: frames offset)
  case (Cons ix ixs)
  then show ?case
    using parse_legacy_instruction_complete [OF assms(1), of ix offset]
    by (simp add: sbind_def add.assoc)
qed (simp add: sreturn_def)

lemma encode_instruction_min: "3 \<le> length (encode_instruction ix)"
  by (simp add: encode_instruction_def length_compact_u16)

lemma length_concat_min:
  "(\<And>x. x \<in> set xs \<Longrightarrow> k \<le> length (f x)) \<Longrightarrow> k * length xs \<le> length (concat (map f xs))"
  by (induction xs) force+

lemma try_new_for_legacy_and_v0_complete:
  assumes "fits_slice bytes" and "list_all valid_instruction ixs" and "length ixs < 16384"
    and "starts_at bytes offset (compact_u16 (length ixs) @ concat (map encode_instruction ixs))"
  shows "try_new_for_legacy_and_v0 bytes offset =
    (Ok (LegacyAndV0 (as_u16 (length ixs)) (as_u16 (offset + length (compact_u16 (length ixs))))
           (map frame_of ixs)),
     offset + length (compact_u16 (length ixs)) + length (concat (map encode_instruction ixs)))"
proof -
  let ?o = "offset + length (compact_u16 (length ixs))"
  have s: "starts_at bytes offset (compact_u16 (length ixs))"
    "starts_at bytes ?o (concat (map encode_instruction ixs))"
    using assms(4) by auto
  have "?o + 3 * length ixs \<le> length bytes"
    using length_concat_min [of ixs 3 encode_instruction] encode_instruction_min starts_at_le [OF s(2)]
    by force
  then have "check_remaining bytes ?o (3 * length ixs) = Ok ()"
    using assms(1) by (simp add: check_remaining_eq)
  then show ?thesis
    using optimized_read_nat [OF assms(1,3) s(1)] assms(3)
      parse_legacy_instructions_complete [OF assms(1,2) s(2), of "[]"]
    by (simp add: try_new_for_legacy_and_v0_def sbind_def sget_def slift_def sreturn_def Let_def
        usize_simps)
qed

lemma legacy_decode_complete:
  assumes "list_all valid_instruction ixs"
    and "starts_at bytes offset (concat (map encode_instruction ixs))"
  shows "legacy_layout bytes offset (map frame_of ixs)"
    and "legacy_decode bytes offset (map frame_of ixs) = ixs"
  using assms
  by (induction ixs arbitrary: offset) (auto simp: frame_of_at legacy_len_frame_of)

end
