(* ===== verification/Tx_Lookups.thy ===== *)
theory Tx_Lookups
  imports Tx_Instructions
begin

text \<open>
  \<open>transaction-view/src/address_table_lookup_frame.rs\<close>: parsing the address table lookups (ATLs) of
  a v0 transaction and iterating over them. The iterator re-reads the section with checked reads.
\<close>

section \<open>Definitions\<close>

definition MIN_SIZED_ATL :: usize where
  "MIN_SIZED_ATL = PUBKEY_SIZE + 1 + 1 + 1"

definition MIN_SIZED_PACKET_WITH_ATLS :: usize where
  "MIN_SIZED_PACKET_WITH_ATLS = 1 + SIGNATURE_SIZE + 1 + 3 + 1 + PUBKEY_SIZE + HASH_SIZE + 1 + 1"

definition MAX_ATLS_PER_PACKET :: u8 where
  "MAX_ATLS_PER_PACKET =
     byte_of ((PACKET_DATA_SIZE - MIN_SIZED_PACKET_WITH_ATLS) div MIN_SIZED_ATL)"

record AddressTableLookupFrame =
  al_num_address_table_lookups :: u8
  al_offset :: u16
  al_total_writable_lookup_accounts :: u16
  al_total_readonly_lookup_accounts :: u16

record SVMMessageAddressTableLookup =
  lk_account_key :: bytes
  lk_writable_indexes :: bytes
  lk_readonly_indexes :: bytes

definition u16_to_u32 :: "u16 \<Rightarrow> u32" where "u16_to_u32 v = ucast v"

text \<open>\<open>u16::try_from\<close> of a \<open>u32\<close>.\<close>

definition u16_try_from :: "u32 \<Rightarrow> u16 tv_result" where
  "u16_try_from v = (if unat v < 65536 then Ok (ucast v) else Err SanitizeError)"

text \<open>The loop over the lookups still to parse, with the two running totals.\<close>

fun parse_lookups :: "bytes \<Rightarrow> nat \<Rightarrow> u32 \<Rightarrow> u32 \<Rightarrow> (u32 \<times> u32) cursor" where
  "parse_lookups bytes 0 total_writable total_readonly = sreturn (total_writable, total_readonly)"
| "parse_lookups bytes (Suc n) total_writable total_readonly =
     sbind (advance_offset_for_type PUBKEY_SIZE bytes) (\<lambda>_.
     sbind (optimized_read_compressed_u16 bytes) (\<lambda>num_write_accounts.
     sbind (advance_offset_for_array 1 bytes num_write_accounts) (\<lambda>_.
     sbind (optimized_read_compressed_u16 bytes) (\<lambda>num_read_accounts.
     sbind (advance_offset_for_array 1 bytes num_read_accounts) (\<lambda>_.
     parse_lookups bytes n (total_writable + u16_to_u32 num_write_accounts)
       (total_readonly + u16_to_u32 num_read_accounts))))))"

definition AddressTableLookupFrame_try_new :: "bytes \<Rightarrow> AddressTableLookupFrame cursor" where
  "AddressTableLookupFrame_try_new bytes =
     sbind (read_byte bytes) (\<lambda>num_address_table_lookups.
     if num_address_table_lookups > MAX_ATLS_PER_PACKET then sfail ParseError
     else sbind sget (\<lambda>offset.
     sbind (slift (check_remaining bytes offset
              (usize_wrapping_mul MIN_SIZED_ATL (unat num_address_table_lookups)))) (\<lambda>_.
     let address_table_lookups_offset = as_u16 offset in
     sbind (parse_lookups bytes (unat num_address_table_lookups) 0 0)
       (\<lambda>(total_writable, total_readonly).
     sbind (slift (u16_try_from total_writable)) (\<lambda>total_writable_lookup_accounts.
     sbind (slift (u16_try_from total_readonly)) (\<lambda>total_readonly_lookup_accounts.
     sreturn \<lparr>al_num_address_table_lookups = num_address_table_lookups,
              al_offset = address_table_lookups_offset,
              al_total_writable_lookup_accounts = total_writable_lookup_accounts,
              al_total_readonly_lookup_accounts = total_readonly_lookup_accounts\<rparr>))))))"

record AddressTableLookupIterator =
  ai_bytes :: bytes
  ai_offset :: usize
  ai_num_address_table_lookups :: u8
  ai_index :: u8

text \<open>One lookup, read with checks at the iterator's offset.\<close>

definition read_lookup :: "bytes \<Rightarrow> SVMMessageAddressTableLookup cursor" where
  "read_lookup bytes =
     sbind (read_type PUBKEY_SIZE bytes) (\<lambda>account_key.
     sbind (optimized_read_compressed_u16 bytes) (\<lambda>num_write_accounts.
     sbind (read_slice_data 1 bytes num_write_accounts) (\<lambda>writable_indexes.
     sbind (optimized_read_compressed_u16 bytes) (\<lambda>num_read_accounts.
     sbind (read_slice_data 1 bytes num_read_accounts) (\<lambda>readonly_indexes.
     sreturn \<lparr>lk_account_key = account_key, lk_writable_indexes = writable_indexes,
              lk_readonly_indexes = readonly_indexes\<rparr>)))))"

text \<open>\<open>next\<close>: an error of a checked read becomes \<open>None\<close> through \<open>.ok()?\<close>.\<close>

definition AddressTableLookupIterator_next ::
  "AddressTableLookupIterator \<Rightarrow>
     SVMMessageAddressTableLookup option tv_result \<times> AddressTableLookupIterator" where
  "AddressTableLookupIterator_next it =
     (if ai_index it < ai_num_address_table_lookups it
      then (let it1 = it\<lparr>ai_index := ai_index it + 1\<rparr>;
                (r, offset') = read_lookup (ai_bytes it1) (ai_offset it1);
                it2 = it1\<lparr>ai_offset := offset'\<rparr>
            in (case r of Ok l \<Rightarrow> (Ok (Some l), it2) | Err e \<Rightarrow> (Ok None, it2)
                        | Panic \<Rightarrow> (Panic, it2) | UB \<Rightarrow> (UB, it2)))
      else (Ok None, it))"

definition AddressTableLookupIterator_len :: "AddressTableLookupIterator \<Rightarrow> usize" where
  "AddressTableLookupIterator_len it = unat (ai_num_address_table_lookups it - ai_index it)"

lemma lookup_next_len_decreases:
  assumes "AddressTableLookupIterator_next it = (Ok (Some l), it')"
  shows "AddressTableLookupIterator_len it' < AddressTableLookupIterator_len it"
proof -
  have "ai_index it < ai_num_address_table_lookups it"
    and "ai_index it' = ai_index it + 1"
    and "ai_num_address_table_lookups it' = ai_num_address_table_lookups it"
    using assms
    by (auto simp: AddressTableLookupIterator_next_def Let_def
        split: if_splits prod.splits outcome.splits)
  then show ?thesis
    using unat_inc [of "ai_index it" "ai_num_address_table_lookups it"]
      inc_le [of "ai_index it" "ai_num_address_table_lookups it"]
    by (simp add: AddressTableLookupIterator_len_def unat_sub word_less_nat_alt less_imp_le)
qed

text \<open>A \<open>for\<close> loop over the lookups.\<close>

function lookup_fold ::
  "AddressTableLookupIterator \<Rightarrow> ('a \<Rightarrow> SVMMessageAddressTableLookup \<Rightarrow> 'a tv_result) \<Rightarrow> 'a \<Rightarrow>
     'a tv_result" where
  "lookup_fold it body acc =
     (case AddressTableLookupIterator_next it of
        (Ok None, it') \<Rightarrow> Ok acc
      | (Ok (Some l), it') \<Rightarrow> obind (body acc l) (\<lambda>acc'. lookup_fold it' body acc')
      | (Err e, it') \<Rightarrow> Err e
      | (Panic, it') \<Rightarrow> Panic
      | (UB, it') \<Rightarrow> UB)"
  by pat_completeness auto
termination
  by (relation "measure (\<lambda>(it, body, acc). AddressTableLookupIterator_len it)")
     (auto intro: lookup_next_len_decreases [OF sym])

declare lookup_fold.simps [simp del]

definition collect_lookups ::
  "AddressTableLookupIterator \<Rightarrow> SVMMessageAddressTableLookup list tv_result" where
  "collect_lookups it = lookup_fold it (\<lambda>acc l. Ok (acc @ [l])) []"

text \<open>An iterator yields at most the number of lookups that it announces.\<close>

lemma lookup_fold_length:
  "lookup_fold it (\<lambda>acc l. Ok (acc @ [l])) acc = Ok ls \<Longrightarrow> length ls \<le> length acc + AddressTableLookupIterator_len it"
proof (induction it "\<lambda>acc l. Ok (acc @ [l]) :: SVMMessageAddressTableLookup list tv_result" acc rule: lookup_fold.induct)
  case (1 it acc)
  obtain r it' where n: "AddressTableLookupIterator_next it = (r, it')" by fastforce
  show ?case
  proof (cases "\<exists>l. r = Ok (Some l)")
    case True
    then obtain l where r: "r = Ok (Some l)" by blast
    have "lookup_fold it' (\<lambda>acc l. Ok (acc @ [l])) (acc @ [l]) = Ok ls"
      using "1.prems" by (subst (asm) lookup_fold.simps) (simp add: n r)
    then have "length ls \<le> length (acc @ [l]) + AddressTableLookupIterator_len it'"
      by (rule "1.hyps" [OF n [symmetric] r refl])
    then show ?thesis using lookup_next_len_decreases [OF n [unfolded r]] by simp
  next
    case False
    then have "ls = acc"
      using "1.prems" by (subst (asm) lookup_fold.simps) (auto simp: n split: outcome.splits option.splits)
    then show ?thesis by simp
  qed
qed

section \<open>The layout of a lookup section\<close>

definition encode_lookup :: "SVMMessageAddressTableLookup \<Rightarrow> bytes" where
  "encode_lookup l =
     lk_account_key l @ compact_u16 (length (lk_writable_indexes l)) @ lk_writable_indexes l
       @ compact_u16 (length (lk_readonly_indexes l)) @ lk_readonly_indexes l"

definition valid_lookup :: "SVMMessageAddressTableLookup \<Rightarrow> bool" where
  "valid_lookup l \<longleftrightarrow> length (lk_account_key l) = 32 \<and>
     length (lk_writable_indexes l) < 16384 \<and> length (lk_readonly_indexes l) < 16384"

definition encode_lookups :: "SVMMessageAddressTableLookup list \<Rightarrow> bytes" where
  "encode_lookups ls = concat (map encode_lookup ls)"

lemma encode_lookups_simps [simp]:
  "encode_lookups [] = []" "encode_lookups (l # ls) = encode_lookup l @ encode_lookups ls"
  by (simp_all add: encode_lookups_def)

lemma MAX_ATLS_PER_PACKET_eq: "unat MAX_ATLS_PER_PACKET = 31"
  by (simp add: MAX_ATLS_PER_PACKET_def MIN_SIZED_PACKET_WITH_ATLS_def MIN_SIZED_ATL_def size_defs)

text \<open>A lookup that stands in the slice is read back.\<close>

lemma read_lookup_complete:
  assumes "fits_slice bytes" and "valid_lookup l" and "starts_at bytes offset (encode_lookup l)"
  shows "read_lookup bytes offset = (Ok l, offset + length (encode_lookup l))"
proof -
  let ?k = "lk_account_key l" and ?w = "lk_writable_indexes l" and ?r = "lk_readonly_indexes l"
  let ?o1 = "offset + 32"
  let ?o2 = "?o1 + length (compact_u16 (length ?w))"
  let ?o3 = "?o2 + length ?w"
  let ?o4 = "?o3 + length (compact_u16 (length ?r))"
  have v: "length ?k = 32" "length ?w < 16384" "length ?r < 16384"
    using assms(2) by (auto simp: valid_lookup_def)
  have s: "starts_at bytes offset ?k" "starts_at bytes ?o1 (compact_u16 (length ?w))"
    "starts_at bytes ?o2 ?w" "starts_at bytes ?o3 (compact_u16 (length ?r))" "starts_at bytes ?o4 ?r"
    using assms(3) v(1) by (auto simp: encode_lookup_def)
  note b = s [THEN starts_at_le]
  have "read_type 32 bytes offset = (Ok ?k, ?o1)"
    using b v starts_at_take [OF s(1)] assms(1) by (simp add: read_type_eq)
  moreover have "read_slice_data 1 bytes (as_u16 (length ?w)) ?o2 = (Ok ?w, ?o3)"
    using b v starts_at_take [OF s(3)] assms(1) by (simp add: read_slice_data_eq)
  moreover have "read_slice_data 1 bytes (as_u16 (length ?r)) ?o4 = (Ok ?r, ?o4 + length ?r)"
    using b v starts_at_take [OF s(5)] assms(1) by (simp add: read_slice_data_eq)
  ultimately show ?thesis
    using v optimized_read_nat [OF assms(1) v(2) s(2)] optimized_read_nat [OF assms(1) v(3) s(4)]
    by (simp add: read_lookup_def PUBKEY_SIZE_def sbind_def sreturn_def encode_lookup_def add.assoc)
qed

lemma lookup_fold_list:
  assumes "fits_slice bytes" and "list_all valid_lookup ls"
    and "starts_at bytes (ai_offset it) (encode_lookups ls)" and "ai_bytes it = bytes"
    and "length ls = unat (ai_num_address_table_lookups it - ai_index it)"
    and "ai_index it \<le> ai_num_address_table_lookups it"
  shows "lookup_fold it body acc = fold_outcome body acc ls"
  using assms(2-)
proof (induction ls arbitrary: it acc)
  case Nil
  then have "ai_index it = ai_num_address_table_lookups it" by (simp add: unat_eq_zero)
  then show ?case
    by (subst lookup_fold.simps) (simp add: AddressTableLookupIterator_next_def)
next
  case (Cons l ls)
  let ?n = "ai_num_address_table_lookups it"
  have lt: "ai_index it < ?n"
    using Cons.prems(4,5) by (cases "ai_index it = ?n") (auto simp: order.strict_iff_order)
  have r: "read_lookup bytes (ai_offset it) = (Ok l, ai_offset it + length (encode_lookup l))"
    using Cons.prems by (intro read_lookup_complete [OF assms(1)]) auto
  let ?it = "it\<lparr>ai_index := ai_index it + 1, ai_offset := ai_offset it + length (encode_lookup l)\<rparr>"
  have "unat (?n - (ai_index it + 1)) = length ls"
    using Cons.prems(4) lt unat_inc [OF lt] inc_le [OF lt]
    by (simp add: unat_sub less_imp_le)
  then have "lookup_fold ?it body = (\<lambda>acc. fold_outcome body acc ls)"
    using Cons.prems inc_le [OF lt] by (intro ext Cons.IH) auto
  moreover have "AddressTableLookupIterator_next it = (Ok (Some l), ?it)"
    using lt r Cons.prems(3) by (simp add: AddressTableLookupIterator_next_def)
  ultimately show ?case by (subst lookup_fold.simps) simp
qed

text \<open>The totals that parsing accumulates.\<close>

definition num_writable :: "SVMMessageAddressTableLookup list \<Rightarrow> nat" where
  "num_writable ls = sum_list (map (\<lambda>l. length (lk_writable_indexes l)) ls)"

definition num_readonly :: "SVMMessageAddressTableLookup list \<Rightarrow> nat" where
  "num_readonly ls = sum_list (map (\<lambda>l. length (lk_readonly_indexes l)) ls)"

lemma u16_to_u32_eq: "u16_to_u32 v = word_of_nat (unat v)"
  by (simp add: u16_to_u32_def)

lemma parse_lookups_wp:
  assumes "fits_slice bytes" and "offset \<le> length bytes"
    and "\<And>ls. length ls = n \<Longrightarrow> list_all valid_lookup ls \<Longrightarrow>
          starts_at bytes offset (encode_lookups ls) \<Longrightarrow>
          Q (tw + word_of_nat (num_writable ls), tr + word_of_nat (num_readonly ls))
            (offset + length (encode_lookups ls))"
  shows "wp (parse_lookups bytes n tw tr) Q offset"
  using assms(2,3)
proof (induction n arbitrary: offset tw tr)
  case 0
  then show ?case using "0.prems"(2) [of "[]"] by (simp add: num_writable_def num_readonly_def)
next
  case (Suc n)
  let ?c = "\<lambda>v :: u16. length (compact_u16 (unat v))"
  have step: "wp (parse_lookups bytes n (tw + u16_to_u32 nw) (tr + u16_to_u32 nr)) Q
      (offset + 32 + ?c nw + unat nw + ?c nr + unat nr)"
    if "unat nw < 16384" "starts_at bytes (offset + 32) (compact_u16 (unat nw))"
      "unat nr < 16384"
      "starts_at bytes (offset + 32 + ?c nw + unat nw) (compact_u16 (unat nr))"
      "offset + 32 + ?c nw + unat nw + ?c nr + unat nr \<le> length bytes" for nw nr
  proof (rule Suc.IH)
    show "offset + 32 + ?c nw + unat nw + ?c nr + unat nr \<le> length bytes" by fact
    fix ls assume ls: "length ls = n" "list_all valid_lookup ls"
      "starts_at bytes (offset + 32 + ?c nw + unat nw + ?c nr + unat nr) (encode_lookups ls)"
    let ?l = "\<lparr>lk_account_key = take 32 (drop offset bytes),
        lk_writable_indexes = take (unat nw) (drop (offset + 32 + ?c nw) bytes),
        lk_readonly_indexes = take (unat nr) (drop (offset + 32 + ?c nw + unat nw + ?c nr) bytes)\<rparr>"
    have len: "length (lk_account_key ?l) = 32" "length (lk_writable_indexes ?l) = unat nw"
      "length (lk_readonly_indexes ?l) = unat nr"
      using that by simp_all
    have sl: "starts_at bytes offset (lk_account_key ?l)"
      "starts_at bytes (offset + 32 + ?c nw) (lk_writable_indexes ?l)"
      "starts_at bytes (offset + 32 + ?c nw + unat nw + ?c nr) (lk_readonly_indexes ?l)"
      using that by (auto intro!: starts_at_slice)
    have e: "starts_at bytes offset (encode_lookup ?l)"
      "offset + length (encode_lookup ?l) = offset + 32 + ?c nw + unat nw + ?c nr + unat nr"
      using sl that len unfolding encode_lookup_def
      by (simp_all only: starts_at_append length_append add.assoc)
    have "valid_lookup ?l" using that(1,3) len by (simp add: valid_lookup_def)
    then show "Q (tw + u16_to_u32 nw + word_of_nat (num_writable ls),
        tr + u16_to_u32 nr + word_of_nat (num_readonly ls))
        (offset + 32 + ?c nw + unat nw + ?c nr + unat nr + length (encode_lookups ls))"
      using Suc.prems(2) [of "?l # ls"] e ls len
      by (simp add: num_writable_def num_readonly_def u16_to_u32_eq add.assoc)
  qed
  show ?case
    unfolding parse_lookups.simps wp_sbind PUBKEY_SIZE_def
    using assms(1) Suc.prems(1) step
    by (intro advance_offset_for_type_wp optimized_read_wp advance_offset_for_array_wp)
       (auto simp: add.assoc)
qed

lemma sum_list_less:
  fixes f :: "'a \<Rightarrow> nat"
  assumes "\<And>x. x \<in> set xs \<Longrightarrow> f x < k"
  shows "sum_list (map f xs) \<le> length xs * k"
  using assms
proof (induction xs)
  case (Cons x xs)
  have "f x < k" using Cons.prems by simp
  moreover have "sum_list (map f xs) \<le> length xs * k" using Cons by simp
  ultimately show ?case by simp
qed simp

lemma totals_bound:
  assumes "list_all valid_lookup ls" and "length ls \<le> 31"
  shows "num_writable ls < 2 ^ 32" and "num_readonly ls < 2 ^ 32"
proof -
  have "num_writable ls \<le> length ls * 16384" "num_readonly ls \<le> length ls * 16384"
    using assms(1)
    by (auto simp: num_writable_def num_readonly_def list_all_iff valid_lookup_def
        intro!: sum_list_less)
  with assms(2) show "num_writable ls < 2 ^ 32" "num_readonly ls < 2 ^ 32" by simp_all
qed

lemma u16_try_from_eq:
  "n < 2 ^ 32 \<Longrightarrow> u16_try_from (word_of_nat n) = (if n < 65536 then Ok (as_u16 n) else Err SanitizeError)"
proof -
  assume n: "n < 2 ^ 32"
  have "(ucast (word_of_nat n :: u32) :: u16) = as_u16 n" if "n < 65536"
    using that n by (intro u16_eqI) (simp add: unsigned_ucast_eq unat_of_nat take_bit_nat_eq_self)
  then show ?thesis using n by (simp add: u16_try_from_def unat_of_nat)
qed

lemma AddressTableLookupFrame_try_new_wp [wp_rules]:
  assumes "fits_slice bytes" and "offset \<le> length bytes"
    and "\<And>ls. length ls \<le> 31 \<Longrightarrow> list_all valid_lookup ls \<Longrightarrow> num_writable ls < 65536 \<Longrightarrow>
          num_readonly ls < 65536 \<Longrightarrow> starts_at bytes offset (byte_of (length ls) # encode_lookups ls) \<Longrightarrow>
          offset + 1 + 35 * length ls \<le> length bytes \<Longrightarrow>
          Q \<lparr>al_num_address_table_lookups = byte_of (length ls), al_offset = as_u16 (offset + 1),
             al_total_writable_lookup_accounts = as_u16 (num_writable ls),
             al_total_readonly_lookup_accounts = as_u16 (num_readonly ls)\<rparr>
            (offset + 1 + length (encode_lookups ls))"
  shows "wp (AddressTableLookupFrame_try_new bytes) Q offset"
proof -
  have main: "wp (parse_lookups bytes (unat (bytes ! offset)) 0 0)
      (\<lambda>(tw, tr). wp (slift (u16_try_from tw)) (\<lambda>a. wp (slift (u16_try_from tr)) (\<lambda>b.
        Q \<lparr>al_num_address_table_lookups = bytes ! offset, al_offset = as_u16 (offset + 1),
           al_total_writable_lookup_accounts = a, al_total_readonly_lookup_accounts = b\<rparr>)))
      (offset + 1)"
    if a: "offset < length bytes" "unat (bytes ! offset) \<le> 31"
      "offset + 1 + 35 * unat (bytes ! offset) \<le> length bytes"
  proof (rule parse_lookups_wp [OF assms(1)])
    show "offset + 1 \<le> length bytes" using a by simp
    fix ls assume ls: "length ls = unat (bytes ! offset)" "list_all valid_lookup ls"
      "starts_at bytes (offset + 1) (encode_lookups ls)"
    then have "num_writable ls < 2 ^ 32" "num_readonly ls < 2 ^ 32"
      using totals_bound a by auto
    moreover have "byte_of (length ls) = bytes ! offset" using ls(1) by simp
    ultimately show "(case (0 + word_of_nat (num_writable ls), 0 + word_of_nat (num_readonly ls)) of
        (tw, tr) \<Rightarrow> wp (slift (u16_try_from tw)) (\<lambda>a. wp (slift (u16_try_from tr)) (\<lambda>b.
          Q \<lparr>al_num_address_table_lookups = bytes ! offset, al_offset = as_u16 (offset + 1),
             al_total_writable_lookup_accounts = a, al_total_readonly_lookup_accounts = b\<rparr>)))
        (offset + 1 + length (encode_lookups ls))"
      using assms(3) [of ls] ls a by (auto simp: wp_slift u16_try_from_eq)
  qed
  have "wp (parse_lookups bytes (unat (bytes ! offset)) 0 0)
      (\<lambda>(tw, tr). wp (sbind (slift (u16_try_from tw)) (\<lambda>a. sbind (slift (u16_try_from tr)) (\<lambda>b.
        sreturn \<lparr>al_num_address_table_lookups = bytes ! offset, al_offset = as_u16 (offset + 1),
           al_total_writable_lookup_accounts = a, al_total_readonly_lookup_accounts = b\<rparr>))) Q)
      (offset + 1)"
    if "offset < length bytes" "unat (bytes ! offset) \<le> 31"
      "offset + 1 + 35 * unat (bytes ! offset) \<le> length bytes"
    using main [OF that] by (rule wp_mono) (auto simp: wp_slift)
  then show ?thesis
    using assms(1,2)
    by (auto simp: AddressTableLookupFrame_try_new_def Let_def word_less_nat_alt not_less
        MAX_ATLS_PER_PACKET_eq wp_slift check_remaining_eq split_def MIN_SIZED_ATL_def size_defs
        usize_simps
        intro!: read_byte_wp split: if_splits)
qed


section \<open>Completeness: an encoded lookup section parses\<close>

lemma u16_to_u32_as_u16: "n < 16384 \<Longrightarrow> u16_to_u32 (as_u16 n) = word_of_nat n"
  unfolding u16_to_u32_eq unat_as_u16 by simp

lemma parse_lookups_complete:
  assumes "fits_slice bytes" and "list_all valid_lookup ls"
    and "starts_at bytes offset (encode_lookups ls)"
  shows "parse_lookups bytes (length ls) tw tr offset =
    (Ok (tw + word_of_nat (num_writable ls), tr + word_of_nat (num_readonly ls)),
     offset + length (encode_lookups ls))"
  using assms(2,3)
proof (induction ls arbitrary: offset tw tr)
  case Nil
  then show ?case by (simp add: sreturn_def num_writable_def num_readonly_def)
next
  case (Cons l ls)
  let ?k = "lk_account_key l" and ?w = "lk_writable_indexes l" and ?r = "lk_readonly_indexes l"
  let ?o1 = "offset + 32"
  let ?o2 = "?o1 + length (compact_u16 (length ?w))"
  let ?o3 = "?o2 + length ?w"
  let ?o4 = "?o3 + length (compact_u16 (length ?r))"
  have v: "length ?k = 32" "length ?w < 16384" "length ?r < 16384"
    using Cons.prems(1) by (auto simp: valid_lookup_def)
  have s: "starts_at bytes offset ?k" "starts_at bytes ?o1 (compact_u16 (length ?w))"
    "starts_at bytes ?o2 ?w" "starts_at bytes ?o3 (compact_u16 (length ?r))" "starts_at bytes ?o4 ?r"
    "starts_at bytes (?o4 + length ?r) (encode_lookups ls)"
    using Cons.prems(2) v(1) by (auto simp: encode_lookup_def add.assoc)
  note b = s [THEN starts_at_le]
  have "advance_offset_for_type 32 bytes offset = (Ok (), ?o1)"
    using b v assms(1) by (simp add: advance_offset_for_type_eq)
  moreover have "advance_offset_for_array 1 bytes (as_u16 (length ?w)) ?o2 = (Ok (), ?o3)"
    "advance_offset_for_array 1 bytes (as_u16 (length ?r)) ?o4 = (Ok (), ?o4 + length ?r)"
    using b v assms(1) by (simp_all add: advance_offset_for_array_eq)
  moreover note optimized_read_nat [OF assms(1) v(2) s(2)] optimized_read_nat [OF assms(1) v(3) s(4)]
  moreover have "list_all valid_lookup ls" using Cons.prems(1) by simp
  moreover note Cons.IH [OF this s(6)]
  ultimately show ?case
    using v(2,3)
    by (simp add: sbind_def size_defs u16_to_u32_as_u16 num_writable_def num_readonly_def encode_lookup_def
        add.assoc v(1))
qed

lemma AddressTableLookupFrame_complete:
  assumes "fits_slice bytes" and "list_all valid_lookup ls" and "length ls \<le> 31"
    and "num_writable ls < 65536" and "num_readonly ls < 65536"
    and "offset + 1 + 35 * length ls \<le> length bytes"
    and "starts_at bytes offset (byte_of (length ls) # encode_lookups ls)"
  shows "AddressTableLookupFrame_try_new bytes offset =
    (Ok \<lparr>al_num_address_table_lookups = byte_of (length ls), al_offset = as_u16 (offset + 1),
         al_total_writable_lookup_accounts = as_u16 (num_writable ls),
         al_total_readonly_lookup_accounts = as_u16 (num_readonly ls)\<rparr>,
     offset + 1 + length (encode_lookups ls))"
proof -
  have s: "starts_at bytes (offset + 1) (encode_lookups ls)" "offset < length bytes"
    "bytes ! offset = byte_of (length ls)"
    using assms(7) by auto
  have "check_remaining bytes (offset + 1) (35 * length ls) = Ok ()"
    using assms(1,6) by (simp add: check_remaining_eq)
  moreover have "read_byte bytes offset = (Ok (byte_of (length ls)), offset + 1)"
    using s assms(1) by (simp add: read_byte_eq)
  moreover note parse_lookups_complete [OF assms(1,2) s(1), of 0 0] totals_bound [OF assms(2,3)]
  ultimately show ?thesis
    using assms(3-5)
    by (simp add: AddressTableLookupFrame_try_new_def sbind_def sget_def slift_def sreturn_def Let_def
        usize_simps word_less_nat_alt MAX_ATLS_PER_PACKET_eq MIN_SIZED_ATL_def size_defs u16_try_from_eq)
qed

end
