(* ===== verification/Tx_Frame.thy ===== *)
theory Tx_Frame
  imports Tx_Lookups
begin

text \<open>
  \<open>transaction-view/src/transaction_frame.rs\<close>: parsing a whole serialized transaction (legacy, v0 or
  v1) into a frame, and the unchecked accessors of the frame. The main lemma,
  \<open>try_new_in_bounds\<close>, gives the invariant \<open>frame_in_bounds\<close> of every frame that parsing returns; the
  accessors rely on nothing else.
\<close>

section \<open>Definitions\<close>

record TransactionFrame =
  tf_signature :: SignatureFrame
  tf_message_header :: MessageHeaderFrame
  tf_static_account_keys :: StaticAccountKeysFrame
  tf_recent_blockhash_offset :: u16
  tf_instructions :: InstructionsFrame
  tf_address_table_lookup :: AddressTableLookupFrame
  tf_transaction_config_frame :: TransactionConfigFrame
  tf_data_len :: u16

definition no_lookups :: AddressTableLookupFrame where
  "no_lookups = \<lparr>al_num_address_table_lookups = 0, al_offset = 0,
     al_total_writable_lookup_accounts = 0, al_total_readonly_lookup_accounts = 0\<rparr>"

definition parse_legacy_or_v0 :: "bytes \<Rightarrow> TransactionFrame cursor" where
  "parse_legacy_or_v0 bytes =
     sbind (SignatureFrame_try_new bytes) (\<lambda>signature.
     sbind (MessageHeaderFrame_try_new bytes) (\<lambda>message_header.
     sbind (StaticAccountKeysFrame_try_new bytes) (\<lambda>static_account_keys.
     sbind sget (\<lambda>offset.
     let recent_blockhash_offset = as_u16 offset in
     sbind (advance_offset_for_type HASH_SIZE bytes) (\<lambda>_.
     sbind (try_new_for_legacy_and_v0 bytes) (\<lambda>instructions.
     sbind (case mh_version message_header of
              Legacy \<Rightarrow> sreturn no_lookups
            | V0 \<Rightarrow> AddressTableLookupFrame_try_new bytes
            | V1 \<Rightarrow> slift Panic) (\<lambda>address_table_lookup.
     sbind sget (\<lambda>offset.
     if offset \<noteq> length bytes then sfail ParseError
     else sreturn \<lparr>tf_signature = signature, tf_message_header = message_header,
            tf_static_account_keys = static_account_keys,
            tf_recent_blockhash_offset = recent_blockhash_offset, tf_instructions = instructions,
            tf_address_table_lookup = address_table_lookup,
            tf_transaction_config_frame = not_applicable, tf_data_len = as_u16 offset\<rparr>))))))))"

definition try_new_as_legacy_or_v0 :: "bytes \<Rightarrow> TransactionFrame tv_result" where
  "try_new_as_legacy_or_v0 bytes = fst (parse_legacy_or_v0 bytes 0)"

definition FIXED_V1_PREFIX_LEN :: usize where
  "FIXED_V1_PREFIX_LEN = 1 + 3 + 4 + HASH_SIZE + 1 + 1"

definition parse_v1 :: "bytes \<Rightarrow> TransactionFrame cursor" where
  "parse_v1 bytes =
     sbind sget (\<lambda>offset.
     sbind (slift (check_remaining bytes offset FIXED_V1_PREFIX_LEN)) (\<lambda>_.
     let message_offset = as_u16 offset in
     sbind (unchecked_read_byte bytes) (\<lambda>version.
     sbind (if version AND NOT MESSAGE_VERSION_PREFIX = 1 then sreturn V1 else sfail ParseError)
       (\<lambda>version.
     sbind (unchecked_read_byte bytes) (\<lambda>num_required_signatures.
     sbind (unchecked_read_byte bytes) (\<lambda>num_readonly_signed_accounts.
     sbind (unchecked_read_byte bytes) (\<lambda>num_readonly_unsigned_accounts.
     sbind sget (\<lambda>transaction_config_mask_offset.
     sbind (slift (unchecked_copy_value 4 bytes transaction_config_mask_offset)) (\<lambda>mask_bytes.
     let transaction_config_mask = (word_of_nat (le_nat mask_bytes) :: u32) in
     sbind (\<lambda>offset. (Ok (), usize_wrapping_add offset 4)) (\<lambda>_.
     sbind sget (\<lambda>offset.
     let recent_blockhash_offset = as_u16 offset in
     sbind (\<lambda>offset. (Ok (), usize_wrapping_add offset HASH_SIZE)) (\<lambda>_.
     sbind (unchecked_read_byte bytes) (\<lambda>num_instructions.
     sbind (unchecked_read_byte bytes) (\<lambda>num_addresses.
     sbind sget (\<lambda>offset.
     let addresses_offset = as_u16 offset in
     sbind (advance_offset_for_array PUBKEY_SIZE bytes (u8_to_u16 num_addresses)) (\<lambda>_.
     sbind (TransactionConfigFrame_try_new bytes transaction_config_mask_offset
              transaction_config_mask) (\<lambda>transaction_config_frame.
     sbind (try_new_for_v1 bytes num_instructions) (\<lambda>instructions.
     sbind sget (\<lambda>offset.
     let signatures_offset = as_u16 offset in
     sbind (advance_offset_for_array SIGNATURE_SIZE bytes (u8_to_u16 num_required_signatures)) (\<lambda>_.
     sbind sget (\<lambda>offset.
     if offset \<noteq> length bytes then sfail ParseError
     else sreturn
       \<lparr>tf_signature = \<lparr>sf_num_signatures = num_required_signatures, sf_offset = signatures_offset\<rparr>,
        tf_message_header = \<lparr>mh_offset = message_offset, mh_version = version,
          mh_num_required_signatures = num_required_signatures,
          mh_num_readonly_signed_accounts = num_readonly_signed_accounts,
          mh_num_readonly_unsigned_accounts = num_readonly_unsigned_accounts\<rparr>,
        tf_static_account_keys = \<lparr>sk_num_static_accounts = num_addresses,
          sk_offset = addresses_offset\<rparr>,
        tf_recent_blockhash_offset = recent_blockhash_offset,
        tf_instructions = instructions,
        tf_address_table_lookup = no_lookups,
        tf_transaction_config_frame = transaction_config_frame,
        tf_data_len = as_u16 offset\<rparr>)))))))))))))))))))))"

definition try_new_as_v1 :: "bytes \<Rightarrow> TransactionFrame tv_result" where
  "try_new_as_v1 bytes = fst (parse_v1 bytes 0)"

definition is_legacy_or_v0 :: "bytes \<Rightarrow> bool tv_result" where
  "is_legacy_or_v0 bytes =
     obind (ok_or ParseError (slice_get bytes 0)) (\<lambda>first_byte.
       Ok (first_byte AND MESSAGE_VERSION_PREFIX = 0))"

definition TransactionFrame_try_new :: "bytes \<Rightarrow> TransactionFrame tv_result" where
  "TransactionFrame_try_new bytes =
     obind (is_legacy_or_v0 bytes) (\<lambda>b.
       if b then try_new_as_legacy_or_v0 bytes else try_new_as_v1 bytes)"

definition frame_version :: "TransactionFrame \<Rightarrow> TransactionVersion" where
  "frame_version f = mh_version (tf_message_header f)"

definition message_range :: "TransactionFrame \<Rightarrow> u16 \<times> u16" where
  "message_range f =
     (mh_offset (tf_message_header f),
      case frame_version f of V1 \<Rightarrow> sf_offset (tf_signature f) | _ \<Rightarrow> tf_data_len f)"

text \<open>\<open>from_raw_parts\<close> over elements of \<open>sz\<close> bytes, as the list of the elements' bytes.\<close>

definition raw_elements :: "usize \<Rightarrow> bytes \<Rightarrow> usize \<Rightarrow> nat \<Rightarrow> bytes list tv_result" where
  "raw_elements sz bytes offset n =
     obind (ptr_add bytes offset) (\<lambda>p.
     obind (raw_slice bytes p (n * sz)) (\<lambda>region.
       Ok (map (\<lambda>i. take sz (drop (i * sz) region)) [0..<n])))"

definition frame_signatures :: "TransactionFrame \<Rightarrow> bytes \<Rightarrow> bytes list tv_result" where
  "frame_signatures f bytes =
     raw_elements SIGNATURE_SIZE bytes (unat (sf_offset (tf_signature f)))
       (unat (sf_num_signatures (tf_signature f)))"

definition frame_static_account_keys :: "TransactionFrame \<Rightarrow> bytes \<Rightarrow> bytes list tv_result" where
  "frame_static_account_keys f bytes =
     raw_elements PUBKEY_SIZE bytes (unat (sk_offset (tf_static_account_keys f)))
       (unat (sk_num_static_accounts (tf_static_account_keys f)))"

definition frame_recent_blockhash :: "TransactionFrame \<Rightarrow> bytes \<Rightarrow> bytes tv_result" where
  "frame_recent_blockhash f bytes =
     obind (ptr_add bytes (unat (tf_recent_blockhash_offset f))) (\<lambda>p. raw_slice bytes p HASH_SIZE)"

definition frame_instructions_iter :: "TransactionFrame \<Rightarrow> bytes \<Rightarrow> InstructionsIterator" where
  "frame_instructions_iter f bytes = InstructionsFrame_iter (tf_instructions f) bytes"

definition frame_address_table_lookup_iter ::
  "TransactionFrame \<Rightarrow> bytes \<Rightarrow> AddressTableLookupIterator" where
  "frame_address_table_lookup_iter f bytes =
     \<lparr>ai_bytes = bytes, ai_offset = unat (al_offset (tf_address_table_lookup f)),
      ai_num_address_table_lookups = al_num_address_table_lookups (tf_address_table_lookup f),
      ai_index = 0\<rparr>"

section \<open>The invariant of a parsed frame\<close>

definition frame_in_bounds :: "bytes \<Rightarrow> TransactionFrame \<Rightarrow> bool" where
  "frame_in_bounds bytes f \<longleftrightarrow>
     unat (sf_offset (tf_signature f)) + unat (sf_num_signatures (tf_signature f)) * 64
       \<le> length bytes \<and>
     unat (sk_offset (tf_static_account_keys f))
       + unat (sk_num_static_accounts (tf_static_account_keys f)) * 32 \<le> length bytes \<and>
     unat (tf_recent_blockhash_offset f) + 32 \<le> length bytes \<and>
     instructions_in_bounds bytes (tf_instructions f) \<and>
     unat (al_offset (tf_address_table_lookup f)) \<le> length bytes \<and>
     config_in_bounds bytes (tf_transaction_config_frame f)"


text \<open>Where each part of a legacy or v0 frame lies, the offsets still exact natural numbers.\<close>

definition header_at :: "TransactionFrame \<Rightarrow> nat" where
  "header_at f = 1 + unat (sf_num_signatures (tf_signature f)) * 64"

definition keys_at :: "TransactionFrame \<Rightarrow> nat" where
  "keys_at f = header_at f + length (header_bytes (tf_message_header f))"

definition blockhash_at :: "TransactionFrame \<Rightarrow> nat" where
  "blockhash_at f =
     keys_at f + 1 + unat (sk_num_static_accounts (tf_static_account_keys f)) * 32"

definition instructions_at :: "TransactionFrame \<Rightarrow> nat" where
  "instructions_at f = blockhash_at f + 32
     + length (compact_u16 (unat (InstructionsFrame_num_instructions (tf_instructions f))))"

lemmas at_defs = header_at_def keys_at_def blockhash_at_def instructions_at_def

definition lookups_layout :: "bytes \<Rightarrow> nat \<Rightarrow> AddressTableLookupFrame \<Rightarrow> SVMMessageAddressTableLookup list \<Rightarrow> bool" where
  "lookups_layout bytes offset f ls \<longleftrightarrow>
     length ls \<le> 31 \<and> list_all valid_lookup ls \<and>
     num_writable ls < 65536 \<and> num_readonly ls < 65536 \<and>
     starts_at bytes offset (byte_of (length ls) # encode_lookups ls) \<and>
     35 * length ls \<le> length (encode_lookups ls) \<and>
     offset + 1 + length (encode_lookups ls) = length bytes \<and>
     f = \<lparr>al_num_address_table_lookups = byte_of (length ls), al_offset = as_u16 (offset + 1),
          al_total_writable_lookup_accounts = as_u16 (num_writable ls),
          al_total_readonly_lookup_accounts = as_u16 (num_readonly ls)\<rparr>"

definition legacy_v0_layout :: "bytes \<Rightarrow> TransactionFrame \<Rightarrow> bool" where
  "legacy_v0_layout bytes f \<longleftrightarrow>
     (let n = sf_num_signatures (tf_signature f); h = tf_message_header f;
          k = sk_num_static_accounts (tf_static_account_keys f) in
      n \<noteq> 0 \<and> n \<le> 12 \<and> header_at f \<le> length bytes \<and> bytes ! 0 = n \<and>
      sf_offset (tf_signature f) = as_u16 1 \<and>
      mh_offset h = as_u16 (header_at f) \<and> starts_at bytes (header_at f) (header_bytes h) \<and>
      mh_version h \<noteq> V1 \<and>
      (mh_version h = Legacy \<longrightarrow> mh_num_required_signatures h AND 0x80 = 0) \<and>
      k \<noteq> 0 \<and> k \<le> 38 \<and> bytes ! keys_at f = k \<and>
      sk_offset (tf_static_account_keys f) = as_u16 (keys_at f + 1) \<and>
      tf_recent_blockhash_offset f = as_u16 (blockhash_at f) \<and>
      blockhash_at f + 32 \<le> length bytes \<and>
      (\<exists>c fs. tf_instructions f = LegacyAndV0 c (as_u16 (instructions_at f)) fs \<and>
        starts_at bytes (blockhash_at f + 32) (compact_u16 (unat c)) \<and>
        unat c < 16384 \<and> length fs = unat c \<and> legacy_layout bytes (instructions_at f) fs \<and>
        (if mh_version h = V0
         then \<exists>ls. lookups_layout bytes (legacy_end (instructions_at f) fs)
                 (tf_address_table_lookup f) ls
         else tf_address_table_lookup f = no_lookups \<and>
              legacy_end (instructions_at f) fs = length bytes)) \<and>
      tf_transaction_config_frame f = not_applicable \<and> tf_data_len f = as_u16 (length bytes))"

lemma length_header_bytes: "length (header_bytes h) = (if mh_version h = V0 then 4 else 3)"
  by (simp add: header_bytes_def)

lemma lookups_layoutI:
  assumes "length ls \<le> 31" and "list_all valid_lookup ls"
    and "num_writable ls < 65536" and "num_readonly ls < 65536"
    and "starts_at bytes (Suc offset) (encode_lookups ls)"
    and "offset < length bytes" and "bytes ! offset = byte_of (length ls)"
    and "Suc (offset + 35 * length ls) \<le> length bytes"
    and "Suc (offset + length (encode_lookups ls)) = length bytes"
  shows "Ex (lookups_layout bytes offset
    \<lparr>al_num_address_table_lookups = byte_of (length ls), al_offset = as_u16 (Suc offset),
     al_total_writable_lookup_accounts = as_u16 (num_writable ls),
     al_total_readonly_lookup_accounts = as_u16 (num_readonly ls)\<rparr>)"
  using assms by (intro exI [of _ ls]) (simp add: lookups_layout_def)

lemma parse_legacy_or_v0_layout:
  assumes "fits_slice bytes"
  shows "wp (parse_legacy_or_v0 bytes) (\<lambda>f _. legacy_v0_layout bytes f) 0"
  unfolding parse_legacy_or_v0_def Let_def wp_sbind wp_sget HASH_SIZE_def
  apply (rule SignatureFrame_try_new_wp [OF assms])
   apply simp
  apply (rule MessageHeaderFrame_try_new_wp [OF assms])
   apply simp
  apply (rule StaticAccountKeysFrame_try_new_wp [OF assms])
   apply (drule starts_at_le, simp)
  apply (rule advance_offset_for_type_wp [OF assms])
   apply simp
  apply (rule try_new_for_legacy_and_v0_wp [OF assms])
   apply simp
  subgoal for n h k c fs
    by (cases "mh_version h")
      (auto simp: legacy_v0_layout_def at_defs legacy_layout_end
        intro!: AddressTableLookupFrame_try_new_wp [OF assms] lookups_layoutI)
  done

text \<open>The same for v1: the prefix has fixed offsets and only the signatures' offset can be cut to 16 bits.\<close>

definition v1_config_at :: "TransactionFrame \<Rightarrow> nat" where
  "v1_config_at f = 42 + unat (sk_num_static_accounts (tf_static_account_keys f)) * 32"

definition v1_headers_at :: "TransactionFrame \<Rightarrow> nat" where
  "v1_headers_at f =
     v1_config_at f + 4 * count_ones (cf_mask (tf_transaction_config_frame f))"

definition v1_payloads_at :: "TransactionFrame \<Rightarrow> nat" where
  "v1_payloads_at f =
     v1_headers_at f + 4 * unat (InstructionsFrame_num_instructions (tf_instructions f))"

definition v1_signatures_at :: "bytes \<Rightarrow> TransactionFrame \<Rightarrow> nat" where
  "v1_signatures_at bytes f = v1_payloads_at f
     + v1_total bytes (v1_headers_at f) (unat (InstructionsFrame_num_instructions (tf_instructions f)))"

lemmas v1_at_defs = v1_config_at_def v1_headers_at_def v1_payloads_at_def v1_signatures_at_def

definition v1_frame_layout :: "bytes \<Rightarrow> TransactionFrame \<Rightarrow> bool" where
  "v1_frame_layout bytes f \<longleftrightarrow>
     42 \<le> length bytes \<and> bytes ! 0 AND NOT MESSAGE_VERSION_PREFIX = 1 \<and>
     tf_signature f = \<lparr>sf_num_signatures = bytes ! 1, sf_offset = as_u16 (v1_signatures_at bytes f)\<rparr> \<and>
     tf_message_header f = \<lparr>mh_offset = 0, mh_version = V1,
       mh_num_required_signatures = bytes ! 1, mh_num_readonly_signed_accounts = bytes ! 2,
       mh_num_readonly_unsigned_accounts = bytes ! 3\<rparr> \<and>
     tf_static_account_keys f = \<lparr>sk_num_static_accounts = bytes ! 41, sk_offset = as_u16 42\<rparr> \<and>
     tf_recent_blockhash_offset f = as_u16 8 \<and>
     tf_instructions f = V1Frame (u8_to_u16 (bytes ! 40)) (as_u16 (v1_headers_at f))
       (as_u16 (v1_payloads_at f)) \<and>
     tf_address_table_lookup f = no_lookups \<and> tf_data_len f = as_u16 (length bytes) \<and>
     cf_mask (tf_transaction_config_frame f) = word_of_nat (le_nat (take 4 (drop 4 bytes))) \<and>
     config_in_bounds bytes (tf_transaction_config_frame f) \<and>
     v1_headers_at f \<le> length bytes \<and>
     v1_layout bytes (v1_headers_at f) (v1_payloads_at f) (unat (bytes ! 40)) \<and>
     v1_signatures_at bytes f + unat (bytes ! 1) * 64 = length bytes"

lemma wp_if_sfail:
  "(P \<Longrightarrow> wp m Q s) \<Longrightarrow> wp (if P then m else sfail e) Q s"
  by simp

lemma wp_slift_copy:
  assumes "offset + sz \<le> length bytes" and "Q (take sz (drop offset bytes)) offset"
  shows "wp (slift (unchecked_copy_value sz bytes offset)) Q offset"
  using assms by (simp add: wp_slift unchecked_copy_value_eq)

lemma wp_slift_check:
  assumes "fits_slice bytes" and "offset \<le> length bytes"
    and "offset + n \<le> length bytes \<Longrightarrow> Q () offset"
  shows "wp (slift (check_remaining bytes offset n)) Q offset"
  using assms by (simp add: wp_slift check_remaining_eq)

lemma usize_add_le: "fits_slice bytes \<Longrightarrow> a + b \<le> length bytes \<Longrightarrow> usize_wrapping_add a b = a + b"
  by (simp add: fits_slice_def usize_simps)

lemma as_u16_0 [simp]: "as_u16 0 = 0"
  by (simp add: as_u16_def)

lemma FIXED_V1_PREFIX_LEN_eq: "FIXED_V1_PREFIX_LEN = 42"
  by (simp add: FIXED_V1_PREFIX_LEN_def HASH_SIZE_def)

lemma Suc_numerals: "Suc (Suc 0) = 2" "Suc (Suc (Suc 0)) = 3" "Suc (Suc (Suc (Suc 0))) = 4"
  by simp_all

lemma parse_v1_layout:
  assumes "fits_slice bytes"
  shows "wp (parse_v1 bytes) (\<lambda>f _. v1_frame_layout bytes f) 0"
  unfolding parse_v1_def Let_def wp_sbind wp_sget size_defs FIXED_V1_PREFIX_LEN_eq
  apply (rule wp_slift_check [OF assms])
   apply simp
  apply (rule unchecked_read_byte_wp [OF assms])
   apply linarith
  apply (rule wp_if_sfail)
  apply (simp only: wp_sreturn)
  apply (rule unchecked_read_byte_wp [OF assms], linarith)+
  apply (rule wp_slift_copy)
   apply simp
  apply (simp add: usize_add_le [OF assms] Suc_numerals)
  apply (rule unchecked_read_byte_wp [OF assms], linarith)+
  apply (rule advance_offset_for_array_wp [OF assms])
    apply simp
   apply simp
  apply (rule TransactionConfigFrame_try_new_wp [OF assms])
    apply simp
   apply simp
  apply (rule try_new_for_v1_wp [OF assms])
   apply simp
  apply (rule advance_offset_for_array_wp [OF assms])
  apply (simp add: v1_layout_def)
  apply simp
  apply (auto simp: v1_frame_layout_def v1_at_defs Suc_numerals)

  done


section \<open>The layouts give the invariant\<close>

lemma le_unat_u8: "n \<le> word_of_nat k \<Longrightarrow> k < 256 \<Longrightarrow> unat n \<le> k" for n :: u8
  by (simp add: word_le_nat_alt unat_of_nat)

lemma legacy_v0_offsets:
  assumes "legacy_v0_layout bytes f"
  shows "keys_at f + 1 < 65536" "blockhash_at f < 65536" "instructions_at f < 65536"
proof -
  have "unat (sf_num_signatures (tf_signature f)) \<le> 12"
    "unat (sk_num_static_accounts (tf_static_account_keys f)) \<le> 38"
    using assms le_unat_u8 [of _ 12] le_unat_u8 [of _ 38]
    by (auto simp: legacy_v0_layout_def Let_def)
  then show "keys_at f + 1 < 65536" "blockhash_at f < 65536" "instructions_at f < 65536"
    by (simp_all add: at_defs length_header_bytes length_compact_u16)
qed

lemma legacy_v0_in_bounds:
  assumes "legacy_v0_layout bytes f"
  shows "frame_in_bounds bytes f"
proof -
  have "unat (al_offset (tf_address_table_lookup f)) \<le> length bytes"
    using assms
    by (auto simp: legacy_v0_layout_def Let_def lookups_layout_def no_lookups_def
        intro: order_trans [OF mod_less_eq_dividend] split: if_splits)
  moreover have "header_at f = 1 + unat (sf_num_signatures (tf_signature f)) * 64"
    "keys_at f + 1 + unat (sk_num_static_accounts (tf_static_account_keys f)) * 32 = blockhash_at f"
    by (simp_all add: header_at_def blockhash_at_def)
  ultimately show ?thesis
    using legacy_v0_offsets [OF assms] assms
    by (auto simp: frame_in_bounds_def legacy_v0_layout_def Let_def)
qed

lemma v1_offsets:
  assumes "v1_frame_layout bytes f"
  shows "v1_headers_at f < 65536" "v1_payloads_at f < 65536"
proof -
  have "count_ones (cf_mask (tf_transaction_config_frame f)) \<le> 32"
    using count_ones_le [of "cf_mask (tf_transaction_config_frame f)"] by simp
  moreover have "unat (bytes ! 40) < 256" "unat (bytes ! 41) < 256" by (rule byte_less_256)+
  moreover have "unat (sk_num_static_accounts (tf_static_account_keys f)) = unat (bytes ! 41)"
    "unat (InstructionsFrame_num_instructions (tf_instructions f)) = unat (bytes ! 40)"
    using assms by (simp_all add: v1_frame_layout_def)
  ultimately show "v1_headers_at f < 65536" "v1_payloads_at f < 65536"
    unfolding v1_at_defs by linarith+
qed

lemma v1_in_bounds:
  assumes "v1_frame_layout bytes f"
  shows "frame_in_bounds bytes f"
proof -
  have "unat (as_u16 (v1_signatures_at bytes f)) + unat (bytes ! 1) * 64 \<le> length bytes"
    using assms mod_less_eq_dividend [of "v1_signatures_at bytes f" 65536]
    unfolding v1_frame_layout_def unat_as_u16 by linarith
  moreover have "42 + unat (bytes ! 41) * 32 \<le> v1_headers_at f"
    using assms by (simp add: v1_at_defs v1_frame_layout_def)
  ultimately show ?thesis
    using v1_offsets [OF assms] assms
    by (auto simp: frame_in_bounds_def v1_frame_layout_def no_lookups_def)
qed

lemma is_legacy_or_v0_eq:
  "is_legacy_or_v0 bytes = (if bytes = [] then Err ParseError else Ok (hd bytes AND 0x80 = 0))"
  by (cases bytes)
    (simp_all add: is_legacy_or_v0_def slice_get_def ok_or_def MESSAGE_VERSION_PREFIX_def)

lemma try_new_defined:
  assumes "fits_slice bytes"
  shows "defined_outcome (TransactionFrame_try_new bytes)"
  using wp_defined [OF parse_legacy_or_v0_layout [OF assms]] wp_defined [OF parse_v1_layout [OF assms]]
  by (simp add: TransactionFrame_try_new_def is_legacy_or_v0_eq try_new_as_legacy_or_v0_def
      try_new_as_v1_def)

lemma try_new_layout:
  assumes "fits_slice bytes" and "TransactionFrame_try_new bytes = Ok f"
  shows "bytes \<noteq> [] \<and>
    (if hd bytes AND 0x80 = 0 then legacy_v0_layout bytes f else v1_frame_layout bytes f)"
  using assms(2) wp_fst_Ok [OF parse_legacy_or_v0_layout [OF assms(1)], of f]
    wp_fst_Ok [OF parse_v1_layout [OF assms(1)], of f]
  by (auto simp: TransactionFrame_try_new_def is_legacy_or_v0_eq try_new_as_legacy_or_v0_def
      try_new_as_v1_def split: if_splits)

lemma try_new_in_bounds:
  assumes "fits_slice bytes" and "TransactionFrame_try_new bytes = Ok f"
  shows "frame_in_bounds bytes f"
  using try_new_layout [OF assms] legacy_v0_in_bounds v1_in_bounds by (auto split: if_splits)

end
