(* ===== verification/Tx_Wire.thy ===== *)
theory Tx_Wire
  imports Tx_Frame
begin

text \<open>
  The wire format of legacy and v0 transactions as a specification: \<open>wire_transaction\<close> is the
  transaction as data, \<open>encode_wire\<close> its serialization, and \<open>frame_view\<close> what the accessors of a parsed
  \<^typ>\<open>TransactionFrame\<close> return. The theorems say that the parser of
  \<open>transaction-view/src/transaction_frame.rs\<close> is memory safe on every input, that the unchecked
  accessors are, and that parsing is exactly the inverse of \<open>encode_wire\<close>.
\<close>

section \<open>The specification\<close>

record wire_transaction =
  wt_signatures :: "bytes list"
  wt_version :: TransactionVersion
  wt_num_required_signatures :: u8
  wt_num_readonly_signed :: u8
  wt_num_readonly_unsigned :: u8
  wt_account_keys :: "bytes list"
  wt_recent_blockhash :: bytes
  wt_instructions :: "SVMInstruction list"
  wt_lookups :: "SVMMessageAddressTableLookup list"

definition wire_header :: "wire_transaction \<Rightarrow> bytes" where
  "wire_header t = (if wt_version t = V0 then [0x80] else []) @
     [wt_num_required_signatures t, wt_num_readonly_signed t, wt_num_readonly_unsigned t]"

definition wire_lookups :: "wire_transaction \<Rightarrow> bytes" where
  "wire_lookups t =
     (if wt_version t = V0 then byte_of (length (wt_lookups t)) # encode_lookups (wt_lookups t)
      else [])"

definition encode_wire :: "wire_transaction \<Rightarrow> bytes" where
  "encode_wire t =
     byte_of (length (wt_signatures t)) # concat (wt_signatures t)
       @ wire_header t
       @ byte_of (length (wt_account_keys t)) # concat (wt_account_keys t)
       @ wt_recent_blockhash t
       @ compact_u16 (length (wt_instructions t))
       @ concat (map encode_instruction (wt_instructions t))
       @ wire_lookups t"

definition wf_lookups :: "SVMMessageAddressTableLookup list \<Rightarrow> bool" where
  "wf_lookups ls \<longleftrightarrow>
     length ls \<le> 31 \<and> list_all valid_lookup ls \<and> num_writable ls < 65536 \<and>
     num_readonly ls < 65536 \<and> 35 * length ls \<le> length (encode_lookups ls)"

definition wf_wire :: "wire_transaction \<Rightarrow> bool" where
  "wf_wire t \<longleftrightarrow>
     1 \<le> length (wt_signatures t) \<and> length (wt_signatures t) \<le> 12 \<and>
     (\<forall>s \<in> set (wt_signatures t). length s = 64) \<and>
     wt_version t \<noteq> V1 \<and>
     (wt_version t = Legacy \<longrightarrow> wt_num_required_signatures t AND 0x80 = 0) \<and>
     1 \<le> length (wt_account_keys t) \<and> length (wt_account_keys t) \<le> 38 \<and>
     (\<forall>k \<in> set (wt_account_keys t). length k = 32) \<and>
     length (wt_recent_blockhash t) = 32 \<and>
     length (wt_instructions t) < 16384 \<and> list_all valid_instruction (wt_instructions t) \<and>
     wf_lookups (wt_lookups t) \<and> (wt_version t = Legacy \<longrightarrow> wt_lookups t = [])"

definition frame_view :: "TransactionFrame \<Rightarrow> bytes \<Rightarrow> wire_transaction tv_result" where
  "frame_view f bytes =
     obind (frame_signatures f bytes) (\<lambda>signatures.
     obind (frame_static_account_keys f bytes) (\<lambda>keys.
     obind (frame_recent_blockhash f bytes) (\<lambda>blockhash.
     obind (collect_instructions (frame_instructions_iter f bytes)) (\<lambda>instructions.
     obind (collect_lookups (frame_address_table_lookup_iter f bytes)) (\<lambda>lookups.
     Ok \<lparr>wt_signatures = signatures, wt_version = frame_version f,
         wt_num_required_signatures = mh_num_required_signatures (tf_message_header f),
         wt_num_readonly_signed = mh_num_readonly_signed_accounts (tf_message_header f),
         wt_num_readonly_unsigned = mh_num_readonly_unsigned_accounts (tf_message_header f),
         wt_account_keys = keys, wt_recent_blockhash = blockhash,
         wt_instructions = instructions, wt_lookups = lookups\<rparr>)))))"

section \<open>Slices of fixed-size elements\<close>

lemma concat_nth_slice:
  assumes "\<forall>x \<in> set xs. length x = sz" and "i < length xs"
  shows "take sz (drop (i * sz) (concat xs)) = xs ! i"
  using assms
proof (induction xs arbitrary: i)
  case (Cons x xs)
  then show ?case by (cases i) auto
qed simp

lemma length_concat_const: "\<forall>x \<in> set xs. length x = sz \<Longrightarrow> length (concat xs) = length xs * sz"
  by (induction xs) auto

lemma concat_slices:
  "length bs = n * sz \<Longrightarrow> concat (map (\<lambda>i. take sz (drop (i * sz) bs)) [0..<n]) = bs"
proof (induction n arbitrary: bs)
  case (Suc n)
  have "map (\<lambda>i. take sz (drop (i * sz) bs)) [0..<Suc n] =
      take sz bs # map (\<lambda>i. take sz (drop (i * sz) (drop sz bs))) [0..<n]"
    by (simp add: upt_conv_Cons map_Suc_upt [symmetric] add.commute del: upt_Suc)
  moreover have "length (drop sz bs) = n * sz" using Suc.prems by simp
  ultimately show ?case using Suc.IH [of "drop sz bs"] by (simp del: upt_Suc drop_drop)
qed simp

lemma raw_elements_read:
  assumes "starts_at bytes offset (concat xs)" and "\<forall>x \<in> set xs. length x = sz"
  shows "raw_elements sz bytes offset (length xs) = Ok xs"
proof -
  note l = length_concat_const [OF assms(2)]
  have "take (length xs * sz) (drop offset bytes) = concat xs"
    using starts_at_take [OF assms(1)] by (simp add: l)
  moreover have "map (\<lambda>i. take sz (drop (i * sz) (concat xs))) [0..<length xs] = xs"
    by (rule nth_equalityI) (use assms(2) in \<open>auto simp: concat_nth_slice\<close>)
  ultimately show ?thesis
    using starts_at_le [OF assms(1)] by (simp add: raw_elements_def ptr_add_def raw_slice_def l)
qed

lemma raw_elements_exist:
  assumes "offset + n * sz \<le> length bytes"
  obtains xs where "raw_elements sz bytes offset n = Ok xs" and "length xs = n"
    and "\<forall>x \<in> set xs. length x = sz" and "starts_at bytes offset (concat xs)"
proof
  let ?r = "take (n * sz) (drop offset bytes)"
  let ?xs = "map (\<lambda>i. take sz (drop (i * sz) ?r)) [0..<n]"
  have r: "length ?r = n * sz" using assms by simp
  show "raw_elements sz bytes offset n = Ok ?xs"
    using assms by (simp add: raw_elements_def ptr_add_def raw_slice_def)
  show "length ?xs = n" by simp
  have "sz \<le> length (drop (i * sz) ?r)" if "i < n" for i
    using that mult_le_mono1 [of "Suc i" n sz] unfolding length_drop r by simp
  then show "\<forall>x \<in> set ?xs. length x = sz" by (auto simp del: length_drop)
  show "starts_at bytes offset (concat ?xs)"
    using assms by (simp add: concat_slices [OF r] starts_at_slice)
qed

section \<open>The accessors of a parsed frame\<close>

lemma collect_no_lookups:
  "tf_address_table_lookup f = no_lookups \<Longrightarrow>
     collect_lookups (frame_address_table_lookup_iter f bytes) = Ok []"
  by (simp add: collect_lookups_def frame_address_table_lookup_iter_def no_lookups_def
      lookup_fold.simps AddressTableLookupIterator_next_def)

lemma collect_encoded_lookups:
  assumes "fits_slice bytes" and "list_all valid_lookup ls" and "length ls \<le> 31"
    and "starts_at bytes offset (encode_lookups ls)" and "offset < 65536"
    and "al_offset (tf_address_table_lookup f) = as_u16 offset"
    and "al_num_address_table_lookups (tf_address_table_lookup f) = byte_of (length ls)"
  shows "collect_lookups (frame_address_table_lookup_iter f bytes) = Ok ls"
  unfolding collect_lookups_def fold_outcome_collect [of "[]" ls, simplified, symmetric]
  using assms
  by (intro lookup_fold_list [where bytes = bytes]) (simp_all add: frame_address_table_lookup_iter_def)

lemma frame_signatures_exist:
  assumes "frame_in_bounds bytes f"
  obtains sigs where "frame_signatures f bytes = Ok sigs"
    and "length sigs = unat (sf_num_signatures (tf_signature f))"
    and "\<forall>s \<in> set sigs. length s = 64"
    and "starts_at bytes (unat (sf_offset (tf_signature f))) (concat sigs)"
  using assms unfolding frame_signatures_def SIGNATURE_SIZE_def frame_in_bounds_def
  by (metis raw_elements_exist)

lemma frame_keys_exist:
  assumes "frame_in_bounds bytes f"
  obtains ks where "frame_static_account_keys f bytes = Ok ks"
    and "length ks = unat (sk_num_static_accounts (tf_static_account_keys f))"
    and "\<forall>k \<in> set ks. length k = 32"
    and "starts_at bytes (unat (sk_offset (tf_static_account_keys f))) (concat ks)"
  using assms unfolding frame_static_account_keys_def PUBKEY_SIZE_def frame_in_bounds_def
  by (metis raw_elements_exist)

lemma frame_blockhash_eq:
  "frame_in_bounds bytes f \<Longrightarrow>
     frame_recent_blockhash f bytes = Ok (take 32 (drop (unat (tf_recent_blockhash_offset f)) bytes))"
  by (simp add: frame_recent_blockhash_def frame_in_bounds_def ptr_add_def raw_slice_def HASH_SIZE_def)

lemma frame_instructions_eq:
  "fits_slice bytes \<Longrightarrow> frame_in_bounds bytes f \<Longrightarrow>
     collect_instructions (frame_instructions_iter f bytes) = Ok (instructions_of bytes (tf_instructions f))"
  by (simp add: frame_instructions_iter_def frame_in_bounds_def collect_instructions_eq)

text \<open>Iterating the lookups of any in-bounds frame is defined, even where the 16-bit offset was cut.\<close>

lemma read_type_wp:
  assumes "fits_slice bytes" and "offset \<le> length bytes"
    and "offset + sz \<le> length bytes \<Longrightarrow> Q (take sz (drop offset bytes)) (offset + sz)"
  shows "wp (read_type sz bytes) Q offset"
  using assms by (auto simp: wp_def read_type_eq)

lemma read_slice_u8_wp:
  assumes "fits_slice bytes" and "offset \<le> length bytes"
    and "offset + unat n \<le> length bytes \<Longrightarrow> Q (take (unat n) (drop offset bytes)) (offset + unat n)"
  shows "wp (read_slice_data 1 bytes n) Q offset"
  using assms by (auto simp: wp_def read_slice_data_eq)

lemma read_lookup_wp:
  assumes "fits_slice bytes" and "offset \<le> length bytes"
  shows "wp (read_lookup bytes) (\<lambda>_ offset'. offset' \<le> length bytes) offset"
  unfolding read_lookup_def wp_sbind wp_sreturn
  by (intro read_type_wp optimized_read_wp read_slice_u8_wp assms)

lemma lookup_next_safe:
  assumes "fits_slice bytes" and "ai_bytes it = bytes" and "ai_offset it \<le> length bytes"
    and "AddressTableLookupIterator_next it = (r, it')"
  shows "\<exists>a. r = Ok a \<and> (a \<noteq> None \<longrightarrow> ai_bytes it' = bytes \<and> ai_offset it' \<le> length bytes)"
  using read_lookup_wp [OF assms(1,3)] assms(2-4)
  by (auto simp: AddressTableLookupIterator_next_def wp_def Let_def
      split: if_splits prod.splits outcome.splits)

lemma lookup_fold_ok:
  assumes "fits_slice bytes" and "\<And>acc l. \<exists>acc'. body acc l = Ok acc'"
    and "ai_bytes it = bytes" and "ai_offset it \<le> length bytes"
  shows "\<exists>r. lookup_fold it body acc = Ok r"
  using assms(2-4)
proof (induction it body acc rule: lookup_fold.induct)
  case (1 it body acc)
  obtain a it' where n: "AddressTableLookupIterator_next it = (Ok a, it')"
    and a: "a \<noteq> None \<longrightarrow> ai_bytes it' = bytes \<and> ai_offset it' \<le> length bytes"
    using lookup_next_safe [OF assms(1) 1(3,4)]
    by (cases "AddressTableLookupIterator_next it") auto
  show ?case
  proof (cases a)
    case None
    with n show ?thesis by (subst lookup_fold.simps) simp
  next
    case (Some l)
    then have "\<exists>r. lookup_fold it' body acc' = Ok r" for acc'
      using 1(1) [OF n [symmetric] refl Some] 1(2) a n by simp
    moreover obtain acc' where "body acc l = Ok acc'" using 1(2) by blast
    ultimately show ?thesis using n Some by (subst lookup_fold.simps) simp
  qed
qed

section \<open>Parsing inverts the encoding\<close>

lemma starts_at_whole: "starts_at bytes 0 xs \<Longrightarrow> length xs = length bytes \<Longrightarrow> bytes = xs"
  by (simp add: starts_at_def)

lemma legacy_decode_valid:
  assumes "legacy_layout bytes offset fs"
  shows "list_all valid_instruction (legacy_decode bytes offset fs)"
  using assms
proof (induction fs arbitrary: offset)
  case (Cons f fs)
  then show ?case
    by (simp add: legacy_frame_at_def valid_instruction_def legacy_instruction_at_def Let_def
        min_less_iff_disj)
qed simp

lemma lookups_view:
  assumes "fits_slice bytes" and "length bytes < 65536" and "e \<le> length bytes"
    and "if v = V0 then \<exists>ls. lookups_layout bytes e (tf_address_table_lookup f) ls
         else tf_address_table_lookup f = no_lookups \<and> e = length bytes"
  obtains ls where "collect_lookups (frame_address_table_lookup_iter f bytes) = Ok ls"
    and "wf_lookups ls" and "v \<noteq> V0 \<Longrightarrow> ls = []"
    and "starts_at bytes e (if v = V0 then byte_of (length ls) # encode_lookups ls else [])"
    and "e + length (if v = V0 then byte_of (length ls) # encode_lookups ls else []) = length bytes"
proof (cases "v = V0")
  case True
  then obtain ls where ls: "lookups_layout bytes e (tf_address_table_lookup f) ls"
    using assms(4) by auto
  then have "collect_lookups (frame_address_table_lookup_iter f bytes) = Ok ls"
    using assms(1,2) by (intro collect_encoded_lookups [of _ _ "e + 1"]) (auto simp: lookups_layout_def)
  then show thesis using True ls that [of ls] by (auto simp: lookups_layout_def wf_lookups_def)
next
  case False
  then show thesis
    using assms(3,4) that [of "[]"]
    by (simp add: collect_no_lookups wf_lookups_def num_writable_def num_readonly_def)
qed

lemma legacy_v0_view:
  assumes "fits_slice bytes" and "length bytes < 65536" and "legacy_v0_layout bytes f"
  shows "\<exists>t. frame_view f bytes = Ok t \<and> wf_wire t \<and> bytes = encode_wire t"
proof -
  note o = legacy_v0_offsets [OF assms(3)] and ib = legacy_v0_in_bounds [OF assms(3)]
  let ?h = "tf_message_header f"
  obtain sigs where sigs: "frame_signatures f bytes = Ok sigs"
    "length sigs = unat (sf_num_signatures (tf_signature f))" "\<forall>s \<in> set sigs. length s = 64"
    "starts_at bytes (unat (sf_offset (tf_signature f))) (concat sigs)"
    using frame_signatures_exist [OF ib] by blast
  obtain ks where ks: "frame_static_account_keys f bytes = Ok ks"
    "length ks = unat (sk_num_static_accounts (tf_static_account_keys f))"
    "\<forall>k \<in> set ks. length k = 32"
    "starts_at bytes (unat (sk_offset (tf_static_account_keys f))) (concat ks)"
    using frame_keys_exist [OF ib] by blast
  obtain c fs where ix: "tf_instructions f = LegacyAndV0 c (as_u16 (instructions_at f)) fs"
    "starts_at bytes (blockhash_at f + 32) (compact_u16 (unat c))" "unat c < 16384"
    "length fs = unat c" "legacy_layout bytes (instructions_at f) fs"
    and al: "if mh_version ?h = V0
      then \<exists>ls. lookups_layout bytes (legacy_end (instructions_at f) fs) (tf_address_table_lookup f) ls
      else tf_address_table_lookup f = no_lookups \<and> legacy_end (instructions_at f) fs = length bytes"
    using assms(3) by (auto simp: legacy_v0_layout_def Let_def)
  let ?ixs = "legacy_decode bytes (instructions_at f) fs"
  let ?bh = "take 32 (drop (blockhash_at f) bytes)"
  have ixs: "instructions_of bytes (tf_instructions f) = ?ixs" using ix(1) o(3) by simp
  have e: "legacy_end (instructions_at f) fs \<le> length bytes" using ix(5) by (rule legacy_layout_end)
  obtain ls where ls: "collect_lookups (frame_address_table_lookup_iter f bytes) = Ok ls"
    "wf_lookups ls" "mh_version ?h \<noteq> V0 \<Longrightarrow> ls = []"
    "starts_at bytes (legacy_end (instructions_at f) fs)
      (if mh_version ?h = V0 then byte_of (length ls) # encode_lookups ls else [])"
    "legacy_end (instructions_at f) fs
      + length (if mh_version ?h = V0 then byte_of (length ls) # encode_lookups ls else []) = length bytes"
    using lookups_view [OF assms(1,2) e al] by blast
  let ?t = "\<lparr>wt_signatures = sigs, wt_version = mh_version ?h,
    wt_num_required_signatures = mh_num_required_signatures ?h,
    wt_num_readonly_signed = mh_num_readonly_signed_accounts ?h,
    wt_num_readonly_unsigned = mh_num_readonly_unsigned_accounts ?h,
    wt_account_keys = ks, wt_recent_blockhash = ?bh, wt_instructions = ?ixs, wt_lookups = ls\<rparr>"
  have rest: "sf_offset (tf_signature f) = as_u16 1" "header_at f \<le> length bytes"
    "bytes ! 0 = sf_num_signatures (tf_signature f)"
    "starts_at bytes (header_at f) (header_bytes ?h)" "mh_version ?h \<noteq> V1"
    "mh_version ?h = Legacy \<longrightarrow> mh_num_required_signatures ?h AND 0x80 = 0"
    "bytes ! keys_at f = sk_num_static_accounts (tf_static_account_keys f)"
    "sk_offset (tf_static_account_keys f) = as_u16 (keys_at f + 1)"
    "tf_recent_blockhash_offset f = as_u16 (blockhash_at f)" "blockhash_at f + 32 \<le> length bytes"
    "sf_num_signatures (tf_signature f) \<noteq> 0" "sf_num_signatures (tf_signature f) \<le> 12"
    "sk_num_static_accounts (tf_static_account_keys f) \<noteq> 0"
    "sk_num_static_accounts (tf_static_account_keys f) \<le> 38"
    using assms(3) by (auto simp: legacy_v0_layout_def Let_def)
  have "frame_view f bytes = Ok ?t"
    using sigs(1) ks(1) ls(1) o(2) rest(9) frame_blockhash_eq [OF ib]
      frame_instructions_eq [OF assms(1) ib]
    by (simp add: frame_view_def ixs frame_version_def)
  moreover have "wf_wire ?t"
    using sigs ks ls(2,3) ix rest legacy_decode_valid [OF ix(5)]
      le_unat_u8 [of "sf_num_signatures (tf_signature f)" 12]
      le_unat_u8 [of "sk_num_static_accounts (tf_static_account_keys f)" 38]
    by (auto simp: wf_wire_def Suc_le_eq unat_gt_0)
  moreover have "bytes = encode_wire ?t"
  proof (rule starts_at_whole)
    have wh: "wire_header ?t = header_bytes ?h" by (simp add: wire_header_def header_bytes_def)
    have l: "Suc (length (concat sigs)) = header_at f"
      "header_at f + length (wire_header ?t) = keys_at f"
      "Suc (keys_at f + length (concat ks)) = blockhash_at f"
      using sigs(2) ks(2) unfolding wh length_concat_const [OF sigs(3)] length_concat_const [OF ks(3)]
      by (simp_all add: header_at_def keys_at_def blockhash_at_def)
    have "InstructionsFrame_num_instructions (tf_instructions f) = c" by (simp add: ix(1))
    then have ia: "instructions_at f = blockhash_at f + 32 + length (compact_u16 (unat c))"
      by (simp only: instructions_at_def)
    have l': "length ?bh = 32"
      "blockhash_at f + 32 + length (compact_u16 (length ?ixs)) = instructions_at f"
      "instructions_at f + length (concat (map encode_instruction ?ixs)) =
        legacy_end (instructions_at f) fs"
      using rest(10) ix(4) legacy_decode_encode [OF ix(5)] ia [symmetric] by simp_all
    have "bytes \<noteq> []" "keys_at f < length bytes" using rest(10) l(3) by auto
    then have s: "starts_at bytes 0 [byte_of (length sigs)]" "starts_at bytes 1 (concat sigs)"
      "starts_at bytes (header_at f) (wire_header ?t)"
      "starts_at bytes (keys_at f) [byte_of (length ks)]"
      "starts_at bytes (Suc (keys_at f)) (concat ks)"
      "starts_at bytes (blockhash_at f) ?bh"
      "starts_at bytes (blockhash_at f + 32) (compact_u16 (length ?ixs))"
      "starts_at bytes (instructions_at f) (concat (map encode_instruction ?ixs))"
      using sigs ks rest ix o l(1-3) legacy_decode_encode [OF ix(5)]
      by (simp_all add: wh starts_at_slice)
    have "starts_at bytes (legacy_end (instructions_at f) fs) (wire_lookups ?t)"
      using ls(4) by (simp add: wire_lookups_def split: if_splits)
    with s l l' show "starts_at bytes 0 (encode_wire ?t)"
      by (simp add: encode_wire_def)
    have "legacy_end (instructions_at f) fs + length (wire_lookups ?t) = length bytes"
      using ls(5) by (simp add: wire_lookups_def split: if_splits)
    with l l' show "length (encode_wire ?t) = length bytes" by (simp add: encode_wire_def)
  qed
  ultimately show ?thesis by blast
qed

text \<open>The frame of an encoded transaction, with the offsets of its parts.\<close>

definition w_header_at :: "wire_transaction \<Rightarrow> nat" where
  "w_header_at t = 1 + length (wt_signatures t) * 64"

definition w_keys_at :: "wire_transaction \<Rightarrow> nat" where
  "w_keys_at t = w_header_at t + length (wire_header t)"

definition w_blockhash_at :: "wire_transaction \<Rightarrow> nat" where
  "w_blockhash_at t = w_keys_at t + 1 + length (wt_account_keys t) * 32"

definition w_instructions_at :: "wire_transaction \<Rightarrow> nat" where
  "w_instructions_at t = w_blockhash_at t + 32 + length (compact_u16 (length (wt_instructions t)))"

definition w_lookups_at :: "wire_transaction \<Rightarrow> nat" where
  "w_lookups_at t =
     w_instructions_at t + length (concat (map encode_instruction (wt_instructions t)))"

definition frame_of_wire :: "wire_transaction \<Rightarrow> TransactionFrame" where
  "frame_of_wire t =
      \<lparr>tf_signature = \<lparr>sf_num_signatures = byte_of (length (wt_signatures t)), sf_offset = as_u16 1\<rparr>,
       tf_message_header = \<lparr>mh_offset = as_u16 (w_header_at t), mh_version = wt_version t,
         mh_num_required_signatures = wt_num_required_signatures t,
         mh_num_readonly_signed_accounts = wt_num_readonly_signed t,
         mh_num_readonly_unsigned_accounts = wt_num_readonly_unsigned t\<rparr>,
       tf_static_account_keys = \<lparr>sk_num_static_accounts = byte_of (length (wt_account_keys t)),
         sk_offset = as_u16 (w_keys_at t + 1)\<rparr>,
       tf_recent_blockhash_offset = as_u16 (w_blockhash_at t),
       tf_instructions = LegacyAndV0 (as_u16 (length (wt_instructions t))) (as_u16 (w_instructions_at t))
         (map frame_of (wt_instructions t)),
       tf_address_table_lookup =
         (if wt_version t = V0
          then \<lparr>al_num_address_table_lookups = byte_of (length (wt_lookups t)),
                al_offset = as_u16 (w_lookups_at t + 1),
                al_total_writable_lookup_accounts = as_u16 (num_writable (wt_lookups t)),
                al_total_readonly_lookup_accounts = as_u16 (num_readonly (wt_lookups t))\<rparr>
          else no_lookups),
       tf_transaction_config_frame = not_applicable,
       tf_data_len = as_u16 (w_lookups_at t + length (wire_lookups t))\<rparr>"

lemma byte_of_nonzero: "0 < n \<Longrightarrow> n < 256 \<Longrightarrow> byte_of n \<noteq> 0"
proof
  assume n: "0 < n" "n < 256" and "byte_of n = 0"
  then have "unat (byte_of n) = 0" by simp
  with n show False by simp
qed

lemma SignatureFrame_complete:
  assumes "fits_slice bytes" and "offset + 1 + n * 64 \<le> length bytes"
    and "bytes ! offset = byte_of n" and "1 \<le> n" and "n \<le> 12"
  shows "SignatureFrame_try_new bytes offset =
    (Ok \<lparr>sf_num_signatures = byte_of n, sf_offset = as_u16 (offset + 1)\<rparr>, offset + 1 + n * 64)"
  using assms
  by (simp add: SignatureFrame_try_new_def sbind_def sget_def sreturn_def read_byte_eq
    advance_offset_for_array_eq size_defs MAX_SIGNATURES_PER_PACKET_eq Let_def word_less_nat_alt
    byte_of_nonzero)

lemma StaticAccountKeysFrame_complete:
  assumes "fits_slice bytes" and "offset + 1 + n * 32 \<le> length bytes"
    and "bytes ! offset = byte_of n" and "1 \<le> n" and "n \<le> 38"
  shows "StaticAccountKeysFrame_try_new bytes offset =
    (Ok \<lparr>sk_num_static_accounts = byte_of n, sk_offset = as_u16 (offset + 1)\<rparr>, offset + 1 + n * 32)"
  using assms
  by (simp add: StaticAccountKeysFrame_try_new_def sbind_def sget_def sreturn_def read_byte_eq
    advance_offset_for_array_eq size_defs MAX_STATIC_ACCOUNTS_eq Let_def word_less_nat_alt
    byte_of_nonzero)

lemma version_prefix_bits:
  "(0x80 :: u8) AND MESSAGE_VERSION_PREFIX \<noteq> 0" "(0x80 :: u8) AND NOT MESSAGE_VERSION_PREFIX = 0"
  by code_simp+

lemma MessageHeaderFrame_complete:
  assumes "fits_slice bytes" and "starts_at bytes offset (header_bytes h)"
    and "mh_version h \<noteq> V1" and "mh_offset h = as_u16 offset"
    and "mh_version h = Legacy \<longrightarrow> mh_num_required_signatures h AND MESSAGE_VERSION_PREFIX = 0"
  shows "MessageHeaderFrame_try_new bytes offset = (Ok h, offset + length (header_bytes h))"
proof (cases h)
  case (fields off v n s u)
  show ?thesis
    using assms unfolding fields
    by (cases v) (simp_all add: MessageHeaderFrame_try_new_def sbind_def sget_def sreturn_def
        read_byte_eq header_bytes_def version_prefix_bits Let_def)
qed

text \<open>The whole parser on an encoded transaction.\<close>

lemma wire_parts:
  assumes "wf_wire t" and "starts_at b 0 (encode_wire t)"
  shows "starts_at b 0 [byte_of (length (wt_signatures t))]"
    "starts_at b 1 (concat (wt_signatures t))"
    "starts_at b (w_header_at t) (wire_header t)"
    "starts_at b (w_keys_at t) [byte_of (length (wt_account_keys t))]"
    "starts_at b (w_keys_at t + 1) (concat (wt_account_keys t))"
    "starts_at b (w_blockhash_at t) (wt_recent_blockhash t)"
    "starts_at b (w_blockhash_at t + 32)
       (compact_u16 (length (wt_instructions t)) @ concat (map encode_instruction (wt_instructions t)))"
    "starts_at b (w_instructions_at t) (concat (map encode_instruction (wt_instructions t)))"
    "starts_at b (w_lookups_at t) (wire_lookups t)"
    "length (encode_wire t) = w_lookups_at t + length (wire_lookups t)"
proof -
  have l: "length (concat (wt_signatures t)) = length (wt_signatures t) * 64"
    "length (concat (wt_account_keys t)) = length (wt_account_keys t) * 32"
    "length (wt_recent_blockhash t) = 32"
    using assms by (auto simp: wf_wire_def intro!: length_concat_const)
  have w: "Suc (length (wt_signatures t) * 64) = w_header_at t"
    "w_header_at t + length (wire_header t) = w_keys_at t"
    "Suc (w_keys_at t + length (wt_account_keys t) * 32) = w_blockhash_at t"
    "w_blockhash_at t + 32 + length (compact_u16 (length (wt_instructions t))) = w_instructions_at t"
    "w_instructions_at t + length (concat (map encode_instruction (wt_instructions t))) =
       w_lookups_at t"
    by (simp_all add: w_header_at_def w_keys_at_def w_blockhash_at_def w_instructions_at_def
        w_lookups_at_def)
  show "starts_at b 0 [byte_of (length (wt_signatures t))]"
    "starts_at b 1 (concat (wt_signatures t))"
    "starts_at b (w_header_at t) (wire_header t)"
    "starts_at b (w_keys_at t) [byte_of (length (wt_account_keys t))]"
    "starts_at b (w_keys_at t + 1) (concat (wt_account_keys t))"
    "starts_at b (w_blockhash_at t) (wt_recent_blockhash t)"
    "starts_at b (w_blockhash_at t + 32)
       (compact_u16 (length (wt_instructions t)) @ concat (map encode_instruction (wt_instructions t)))"
    "starts_at b (w_instructions_at t) (concat (map encode_instruction (wt_instructions t)))"
    "starts_at b (w_lookups_at t) (wire_lookups t)"
    using assms(2) by (simp_all add: encode_wire_def l w)
  show "length (encode_wire t) = w_lookups_at t + length (wire_lookups t)"
    using l w by (simp add: encode_wire_def)
qed

lemma parse_encoded:
  assumes "wf_wire t" and "fits_slice (encode_wire t)"
  shows "parse_legacy_or_v0 (encode_wire t) 0 = (Ok (frame_of_wire t), length (encode_wire t))"
proof -
  define b where "b = encode_wire t"
  have "starts_at b 0 (encode_wire t)" by (simp add: b_def starts_at_def)
  note p = wire_parts [OF assms(1) this] and fit = assms(2) [folded b_def]
  note le = p(1-9) [THEN starts_at_le]
  let ?h = "tf_message_header (frame_of_wire t)"
  have wf: "1 \<le> length (wt_signatures t)" "length (wt_signatures t) \<le> 12"
    "1 \<le> length (wt_account_keys t)" "length (wt_account_keys t) \<le> 38"
    "list_all valid_instruction (wt_instructions t)" "length (wt_instructions t) < 16384"
    using assms(1) by (auto simp: wf_wire_def)
  have lens: "length (concat (wt_signatures t)) = length (wt_signatures t) * 64"
    "length (concat (wt_account_keys t)) = length (wt_account_keys t) * 32"
    "length (wt_recent_blockhash t) = 32"
    using assms(1) by (auto simp: wf_wire_def intro!: length_concat_const)
  have "SignatureFrame_try_new b 0 = (Ok (tf_signature (frame_of_wire t)), w_header_at t)"
    using SignatureFrame_complete [OF fit, of 0 "length (wt_signatures t)"] p(1) le(2) lens(1) wf(1,2)
    by (simp add: frame_of_wire_def w_header_at_def)
  moreover have "wire_header t = header_bytes ?h"
    by (simp add: wire_header_def header_bytes_def frame_of_wire_def)
  then have "MessageHeaderFrame_try_new b (w_header_at t) = (Ok ?h, w_keys_at t)"
    using MessageHeaderFrame_complete [OF fit, of "w_header_at t" ?h] p(3) assms(1)
    by (simp add: w_keys_at_def)
       (simp add: frame_of_wire_def wf_wire_def MESSAGE_VERSION_PREFIX_def)
  moreover have "StaticAccountKeysFrame_try_new b (w_keys_at t) =
      (Ok (tf_static_account_keys (frame_of_wire t)), w_blockhash_at t)"
    using StaticAccountKeysFrame_complete [OF fit, of "w_keys_at t" "length (wt_account_keys t)"]
      p(4) le(5) lens(2) wf(3,4)
    by (simp add: frame_of_wire_def w_blockhash_at_def)
  moreover have "advance_offset_for_type 32 b (w_blockhash_at t) = (Ok (), w_blockhash_at t + 32)"
    using le(6) lens(3) fit by (simp add: advance_offset_for_type_eq)
  moreover have "try_new_for_legacy_and_v0 b (w_blockhash_at t + 32) =
      (Ok (tf_instructions (frame_of_wire t)), w_lookups_at t)"
    using try_new_for_legacy_and_v0_complete [OF fit wf(5,6) p(7)]
    by (simp add: frame_of_wire_def w_instructions_at_def w_lookups_at_def)
  moreover have "(case mh_version ?h of
              Legacy \<Rightarrow> sreturn no_lookups
            | V0 \<Rightarrow> AddressTableLookupFrame_try_new b
            | V1 \<Rightarrow> slift Panic) (w_lookups_at t) =
      (Ok (tf_address_table_lookup (frame_of_wire t)), length b)"
    using p(9,10) assms(1) AddressTableLookupFrame_complete [OF fit, of "wt_lookups t" "w_lookups_at t"]
    by (cases "wt_version t")
       (simp_all add: b_def wire_lookups_def sreturn_def frame_of_wire_def wf_wire_def wf_lookups_def)
  moreover have "frame_of_wire t =
      \<lparr>tf_signature = tf_signature (frame_of_wire t), tf_message_header = ?h,
       tf_static_account_keys = tf_static_account_keys (frame_of_wire t),
       tf_recent_blockhash_offset = as_u16 (w_blockhash_at t),
       tf_instructions = tf_instructions (frame_of_wire t),
       tf_address_table_lookup = tf_address_table_lookup (frame_of_wire t),
       tf_transaction_config_frame = not_applicable, tf_data_len = as_u16 (length b)\<rparr>"
    using p(10) by (simp add: frame_of_wire_def b_def)
  ultimately have "parse_legacy_or_v0 b 0 = (Ok (frame_of_wire t), length b)"
    by (simp add: parse_legacy_or_v0_def sbind_def sget_def sreturn_def HASH_SIZE_def)
  then show ?thesis by (simp add: b_def)
qed

lemma view_encoded:
  assumes "wf_wire t" and "length (encode_wire t) < 65536"
  shows "frame_view (frame_of_wire t) (encode_wire t) = Ok t"
proof -
  define b where "b = encode_wire t"
  have "starts_at b 0 (encode_wire t)" by (simp add: b_def starts_at_def)
  note p = wire_parts [OF assms(1) this]
  note le = p(1-9) [THEN starts_at_le]
  have fit: "fits_slice b" and len: "length b < 65536" using assms(2) by (simp_all add: b_def fits_slice_def)
  have wf: "\<forall>s \<in> set (wt_signatures t). length s = 64" "\<forall>k \<in> set (wt_account_keys t). length k = 32"
    "length (wt_recent_blockhash t) = 32" "list_all valid_instruction (wt_instructions t)"
    "length (wt_signatures t) \<le> 12" "length (wt_account_keys t) \<le> 38"
    "length (wt_instructions t) < 16384"
    using assms(1) by (auto simp: wf_wire_def)
  have "frame_signatures (frame_of_wire t) b = Ok (wt_signatures t)"
    using raw_elements_read [OF p(2) wf(1)] wf(5)
    by (simp add: frame_signatures_def frame_of_wire_def size_defs)
  moreover have "frame_static_account_keys (frame_of_wire t) b = Ok (wt_account_keys t)"
    using raw_elements_read [OF p(5) wf(2)] wf(6) le(5) len
    by (simp add: frame_static_account_keys_def frame_of_wire_def size_defs)
  moreover have "frame_recent_blockhash (frame_of_wire t) b = Ok (wt_recent_blockhash t)"
    using starts_at_take [OF p(6)] wf(3) le(6) len
    by (simp add: frame_recent_blockhash_def frame_of_wire_def size_defs ptr_add_def raw_slice_def)
  moreover have "collect_instructions (frame_instructions_iter (frame_of_wire t) b) =
      Ok (wt_instructions t)"
    using collect_instructions_eq [OF fit, of "tf_instructions (frame_of_wire t)"] wf(7) le(8) len
      legacy_decode_complete [OF wf(4) p(8)]
    by (simp add: frame_instructions_iter_def frame_of_wire_def)
  moreover have "collect_lookups (frame_address_table_lookup_iter (frame_of_wire t) b) =
      Ok (wt_lookups t)"
  proof (cases "wt_version t")
    case V0
    then show ?thesis
      using p(9) le(9) len assms(1)
      by (intro collect_encoded_lookups [OF fit, of _ "w_lookups_at t + 1"])
         (simp_all add: wire_lookups_def frame_of_wire_def wf_wire_def wf_lookups_def)
  qed (use assms(1) in \<open>simp_all add: collect_no_lookups frame_of_wire_def wf_wire_def\<close>)
  ultimately have "frame_view (frame_of_wire t) b = Ok t"
    by (simp add: frame_view_def frame_version_def frame_of_wire_def)
  then show ?thesis by (simp add: b_def)
qed

lemma frame_view_exists:
  assumes "fits_slice bytes" and "frame_in_bounds bytes f"
  shows "\<exists>t. frame_view f bytes = Ok t \<and>
    length (wt_signatures t) = unat (sf_num_signatures (tf_signature f)) \<and>
    length (wt_account_keys t) = unat (sk_num_static_accounts (tf_static_account_keys f)) \<and>
    length (wt_recent_blockhash t) = 32 \<and>
    length (wt_instructions t) = unat (InstructionsFrame_num_instructions (tf_instructions f))"
proof -
  obtain sigs where sigs: "frame_signatures f bytes = Ok sigs"
    "length sigs = unat (sf_num_signatures (tf_signature f))"
    using frame_signatures_exist [OF assms(2)] by blast
  obtain ks where ks: "frame_static_account_keys f bytes = Ok ks"
    "length ks = unat (sk_num_static_accounts (tf_static_account_keys f))"
    using frame_keys_exist [OF assms(2)] by blast
  obtain ls where "collect_lookups (frame_address_table_lookup_iter f bytes) = Ok ls"
    unfolding collect_lookups_def using assms
      lookup_fold_ok [of bytes "\<lambda>acc l. Ok (acc @ [l])" "frame_address_table_lookup_iter f bytes" "[]"]
    by (auto simp: frame_address_table_lookup_iter_def frame_in_bounds_def)
  moreover have "32 \<le> length bytes - unat (tf_recent_blockhash_offset f)"
    using assms(2) unfolding frame_in_bounds_def by linarith
  ultimately show ?thesis
    using assms sigs ks frame_blockhash_eq [OF assms(2)] frame_instructions_eq [OF assms]
    by (simp add: frame_view_def frame_in_bounds_def length_instructions_of min_absorb2)
qed

section \<open>The properties of the parser\<close>

text \<open>
  C3: parsing is memory safe and never panics, for every input slice (the length bound is the one
  Rust guarantees for any slice): neither the unchecked reads nor the \<open>unreachable!\<close> arm are reached.
\<close>

theorem try_new_never_panics:
  "fits_slice bytes \<Longrightarrow> defined_outcome (TransactionFrame_try_new bytes)"
  by (rule try_new_defined)

theorem try_new_never_panics_witness:
  "fits_slice [0x81, 1, 0, 0] \<and> defined_outcome (TransactionFrame_try_new [0x81, 1, 0, 0])"
  using try_new_never_panics [of "[0x81, 1, 0, 0]"] by (simp add: fits_slice_def)

definition sample_wire :: wire_transaction where
  "sample_wire = \<lparr>wt_signatures = [replicate 64 7], wt_version = V0, wt_num_required_signatures = 1,
     wt_num_readonly_signed = 0, wt_num_readonly_unsigned = 1,
     wt_account_keys = [replicate 32 1, replicate 32 2], wt_recent_blockhash = replicate 32 9,
     wt_instructions = [\<lparr>ix_program_id_index = 1, ix_accounts = [0, 2], ix_data = [5]\<rparr>],
     wt_lookups = [\<lparr>lk_account_key = replicate 32 4, lk_writable_indexes = [3],
                    lk_readonly_indexes = []\<rparr>]\<rparr>"

lemma sample_wire_wf: "wf_wire sample_wire" and sample_wire_length: "length (encode_wire sample_wire) < 65536"
  by (simp_all add: sample_wire_def wf_wire_def wf_lookups_def valid_instruction_def valid_lookup_def
      num_writable_def num_readonly_def encode_lookup_def encode_wire_def wire_header_def
      wire_lookups_def encode_instruction_def length_compact_u16)

lemma encode_wire_first:
  assumes "wf_wire t"
  shows "encode_wire t \<noteq> [] \<and> hd (encode_wire t) AND 0x80 = 0"
proof -
  have "byte_of n AND 0x80 = 0" if "n \<le> 12" for n
  proof -
    from that have "n \<in> set [0..<13]" by simp
    then show ?thesis by (auto simp: upt_rec byte_of_def simp del: set_upt)
  qed
  with assms show ?thesis by (simp add: encode_wire_def wf_wire_def)
qed

lemma try_new_encoded:
  assumes "wf_wire t" and "length (encode_wire t) < 65536"
  shows "TransactionFrame_try_new (encode_wire t) = Ok (frame_of_wire t)"
    and "frame_view (frame_of_wire t) (encode_wire t) = Ok t"
proof -
  have "fits_slice (encode_wire t)" using assms(2) by (simp add: fits_slice_def)
  then show "TransactionFrame_try_new (encode_wire t) = Ok (frame_of_wire t)"
    using parse_encoded [OF assms(1)] encode_wire_first [OF assms(1)]
    by (simp add: TransactionFrame_try_new_def is_legacy_or_v0_eq try_new_as_legacy_or_v0_def)
qed (rule view_encoded [OF assms])

text \<open>The lookups that the iterator of a parsed frame yields.\<close>

lemma frame_view_lookups:
  assumes fit: "fits_slice bytes" and f: "TransactionFrame_try_new bytes = Ok f" and t: "frame_view f bytes = Ok t"
  shows "length (wt_lookups t) \<le> unat (al_num_address_table_lookups (tf_address_table_lookup f))"
    and "length bytes < 65536 \<Longrightarrow> length (wt_lookups t) = unat (al_num_address_table_lookups (tf_address_table_lookup f))"
proof -
  have "collect_lookups (frame_address_table_lookup_iter f bytes) = Ok (wt_lookups t)"
    using t by (auto simp: frame_view_def obind_eq_Ok)
  then show le: "length (wt_lookups t) \<le> unat (al_num_address_table_lookups (tf_address_table_lookup f))"
    unfolding collect_lookups_def
    by (auto dest!: lookup_fold_length simp: AddressTableLookupIterator_len_def frame_address_table_lookup_iter_def)
  assume short: "length bytes < 65536"
  consider "legacy_v0_layout bytes f" | "v1_frame_layout bytes f"
    using try_new_layout [OF fit f] by (auto split: if_splits)
  then show "length (wt_lookups t) = unat (al_num_address_table_lookups (tf_address_table_lookup f))"
  proof cases
    case 1
    then have wf: "wf_wire t" "bytes = encode_wire t" using legacy_v0_view [OF fit short, of f] t by auto
    then have "f = frame_of_wire t" using try_new_encoded(1) [OF wf(1)] short f by simp
    moreover have "wt_version t \<noteq> V0 \<Longrightarrow> wt_lookups t = []" using wf(1) by (cases "wt_version t") (auto simp: wf_wire_def)
    ultimately show ?thesis using wf(1) by (auto simp: frame_of_wire_def no_lookups_def wf_wire_def wf_lookups_def)
  next
    case 2
    then show ?thesis using le by (simp add: v1_frame_layout_def no_lookups_def)
  qed
qed

text \<open>
  C2: on a frame that parsing returned, every unchecked accessor stays inside the slice, also when the slice has
  more bytes than the 16-bit offsets can address, and the four configuration getters are safe. The iterators over
  signatures, account keys and instructions yield exactly the numbers of elements of the frame. The iterator over
  the address table lookups, whose reads are checked, never yields more than the frame announces, and exactly that
  many for every slice of less than 65536 bytes.
\<close>

theorem try_new_accessors_safe:
  assumes "fits_slice bytes" and "TransactionFrame_try_new bytes = Ok f"
  shows "(\<exists>t. frame_view f bytes = Ok t \<and>
      length (wt_signatures t) = unat (sf_num_signatures (tf_signature f)) \<and>
      length (wt_account_keys t) = unat (sk_num_static_accounts (tf_static_account_keys f)) \<and>
      length (wt_recent_blockhash t) = 32 \<and>
      length (wt_instructions t) = unat (InstructionsFrame_num_instructions (tf_instructions f)) \<and>
      length (wt_lookups t) \<le> unat (al_num_address_table_lookups (tf_address_table_lookup f)) \<and>
      (length bytes < 65536 \<longrightarrow>
        length (wt_lookups t) = unat (al_num_address_table_lookups (tf_address_table_lookup f)))) \<and>
    defined_outcome (priority_fee_lamports (tf_transaction_config_frame f) bytes) \<and>
    defined_outcome (compute_unit_limit (tf_transaction_config_frame f) bytes) \<and>
    defined_outcome (loaded_accounts_data_size_limit (tf_transaction_config_frame f) bytes) \<and>
    defined_outcome (requested_heap_size (tf_transaction_config_frame f) bytes)"
proof -
  note ib = try_new_in_bounds [OF assms]
  then have "config_in_bounds bytes (tf_transaction_config_frame f)" by (simp add: frame_in_bounds_def)
  then show ?thesis
    using frame_view_exists [OF assms(1) ib] frame_view_lookups [OF assms]
    by (auto simp: priority_fee_defined config_value_defined compute_unit_limit_def loaded_accounts_data_size_limit_def
        requested_heap_size_def)
qed

theorem try_new_accessors_safe_witness:
  "\<exists>f t. TransactionFrame_try_new (encode_wire sample_wire) = Ok f \<and>
     frame_view f (encode_wire sample_wire) = Ok t \<and> length (wt_instructions t) = 1 \<and> length (wt_lookups t) = 1"
proof -
  note p = try_new_encoded [OF sample_wire_wf sample_wire_length]
  have "fits_slice (encode_wire sample_wire)" using sample_wire_length by (simp add: fits_slice_def)
  from try_new_accessors_safe [OF this p(1)] p show ?thesis
    by (auto simp: frame_of_wire_def sample_wire_def)
qed

text \<open>
  C1: for every slice of less than 65536 bytes, parsing accepts exactly the serializations of
  well-formed legacy and v0 transactions, and the accessors of the resulting frame return the
  transaction that was serialized (parse and print are inverse to each other).
\<close>

theorem try_new_inverts_encoding:
  assumes "length bytes < 65536"
  shows "(\<exists>f. TransactionFrame_try_new bytes = Ok f \<and> frame_version f \<noteq> V1 \<and> frame_view f bytes = Ok t)
    \<longleftrightarrow> wf_wire t \<and> bytes = encode_wire t"
proof
  have fit: "fits_slice bytes" using assms by (simp add: fits_slice_def)
  assume "\<exists>f. TransactionFrame_try_new bytes = Ok f \<and> frame_version f \<noteq> V1 \<and> frame_view f bytes = Ok t"
  then obtain f where f: "TransactionFrame_try_new bytes = Ok f" "frame_version f \<noteq> V1"
    "frame_view f bytes = Ok t" by blast
  then have "legacy_v0_layout bytes f"
    using try_new_layout [OF fit f(1)]
    by (auto simp: v1_frame_layout_def frame_version_def split: if_splits)
  then show "wf_wire t \<and> bytes = encode_wire t"
    using legacy_v0_view [OF fit assms, of f] f(3) by auto
next
  assume "wf_wire t \<and> bytes = encode_wire t"
  with assms show "\<exists>f. TransactionFrame_try_new bytes = Ok f \<and> frame_version f \<noteq> V1 \<and>
      frame_view f bytes = Ok t"
    using try_new_encoded [of t]
    by (intro exI [of _ "frame_of_wire t"]) (auto simp: frame_of_wire_def frame_version_def wf_wire_def)
qed

theorem try_new_inverts_encoding_witness:
  "\<exists>f. TransactionFrame_try_new (encode_wire sample_wire) = Ok f \<and> frame_version f \<noteq> V1 \<and>
     frame_view f (encode_wire sample_wire) = Ok sample_wire"
  using try_new_inverts_encoding [OF sample_wire_length, of sample_wire] sample_wire_wf by blast

end
