(* ===== verification/Tx_View.thy ===== *)
theory Tx_View
  imports Tx_Wire
begin

text \<open>
  \<open>transaction-view/src/sanitize.rs\<close> and \<open>transaction-view/src/transaction_view.rs\<close>: the view of a
  serialized transaction, its sanitization checks, and the accessors that rely on them. The
  sanitized view of the sources is the same record as the unsanitized one; what distinguishes it is
  that \<open>sanitize\<close> returned \<open>Ok\<close> for it. Constants of crates outside the repository are fields of
  \<open>sanitize_params\<close>.
\<close>

section \<open>Definitions\<close>

record TransactionView =
  tv_data :: bytes
  tv_frame :: TransactionFrame

record sanitize_params =
  v1_MAX_TRANSACTION_SIZE :: usize
  MIN_HEAP_FRAME_BYTES :: u32

definition MAX_HEAP_FRAME_BYTES :: u32 where "MAX_HEAP_FRAME_BYTES = 256 * 1024"

definition MAX_INSTRUCTION_TRACE_LENGTH :: usize where "MAX_INSTRUCTION_TRACE_LENGTH = 64"

definition MAX_ACCOUNTS_PER_INSTRUCTION :: usize where "MAX_ACCOUNTS_PER_INSTRUCTION = 255"

definition num_signatures :: "TransactionView \<Rightarrow> u8" where
  "num_signatures v = sf_num_signatures (tf_signature (tv_frame v))"

definition view_version :: "TransactionView \<Rightarrow> TransactionVersion" where
  "view_version v = frame_version (tv_frame v)"

definition num_required_signatures :: "TransactionView \<Rightarrow> u8" where
  "num_required_signatures v = mh_num_required_signatures (tf_message_header (tv_frame v))"

definition num_readonly_signed_static_accounts :: "TransactionView \<Rightarrow> u8" where
  "num_readonly_signed_static_accounts v =
     mh_num_readonly_signed_accounts (tf_message_header (tv_frame v))"

definition num_readonly_unsigned_static_accounts :: "TransactionView \<Rightarrow> u8" where
  "num_readonly_unsigned_static_accounts v =
     mh_num_readonly_unsigned_accounts (tf_message_header (tv_frame v))"

definition num_static_account_keys :: "TransactionView \<Rightarrow> u8" where
  "num_static_account_keys v = sk_num_static_accounts (tf_static_account_keys (tv_frame v))"

definition num_instructions :: "TransactionView \<Rightarrow> u16" where
  "num_instructions v = InstructionsFrame_num_instructions (tf_instructions (tv_frame v))"

definition num_address_table_lookups :: "TransactionView \<Rightarrow> u8" where
  "num_address_table_lookups v =
     al_num_address_table_lookups (tf_address_table_lookup (tv_frame v))"

definition total_writable_lookup_accounts :: "TransactionView \<Rightarrow> u16" where
  "total_writable_lookup_accounts v =
     al_total_writable_lookup_accounts (tf_address_table_lookup (tv_frame v))"

definition total_readonly_lookup_accounts :: "TransactionView \<Rightarrow> u16" where
  "total_readonly_lookup_accounts v =
     al_total_readonly_lookup_accounts (tf_address_table_lookup (tv_frame v))"

definition view_signatures :: "TransactionView \<Rightarrow> bytes list tv_result" where
  "view_signatures v = frame_signatures (tv_frame v) (tv_data v)"

definition static_account_keys :: "TransactionView \<Rightarrow> bytes list tv_result" where
  "static_account_keys v = frame_static_account_keys (tv_frame v) (tv_data v)"

definition recent_blockhash :: "TransactionView \<Rightarrow> bytes tv_result" where
  "recent_blockhash v = frame_recent_blockhash (tv_frame v) (tv_data v)"

definition instructions_iter :: "TransactionView \<Rightarrow> InstructionsIterator" where
  "instructions_iter v = frame_instructions_iter (tv_frame v) (tv_data v)"

definition address_table_lookup_iter :: "TransactionView \<Rightarrow> AddressTableLookupIterator" where
  "address_table_lookup_iter v = frame_address_table_lookup_iter (tv_frame v) (tv_data v)"

definition transaction_config :: "TransactionView \<Rightarrow> (TransactionConfigFrame \<times> bytes) option" where
  "transaction_config v =
     (if is_present (tf_transaction_config_frame (tv_frame v))
      then Some (tf_transaction_config_frame (tv_frame v), tv_data v) else None)"

text \<open>The slice index \<open>[start..end]\<close> panics when \<open>start > end\<close> or \<open>end > len\<close>.\<close>

definition message_data :: "TransactionView \<Rightarrow> bytes tv_result" where
  "message_data v =
     (let (start, end) = message_range (tv_frame v) in
      if unat start \<le> unat end \<and> unat end \<le> length (tv_data v)
      then Ok (take (unat end - unat start) (drop (unat start) (tv_data v))) else Panic)"

subsection \<open>Sanitization\<close>

definition sanitize_transaction_size :: "sanitize_params \<Rightarrow> TransactionView \<Rightarrow> unit tv_result" where
  "sanitize_transaction_size p v =
     (let max_transaction_size =
        (case view_version v of V1 \<Rightarrow> v1_MAX_TRANSACTION_SIZE p | _ \<Rightarrow> PACKET_DATA_SIZE) in
      if length (tv_data v) > max_transaction_size then Err SanitizeError else Ok ())"

definition sanitize_message_header :: "TransactionView \<Rightarrow> unit tv_result" where
  "sanitize_message_header v =
     (if num_required_signatures v < 1 then Err SanitizeError
      else if num_readonly_signed_static_accounts v \<ge> num_required_signatures v
      then Err SanitizeError
      else if num_readonly_unsigned_static_accounts v
                > num_static_account_keys v - num_required_signatures v
      then Err SanitizeError
      else Ok ())"

definition sanitize_config :: "sanitize_params \<Rightarrow> TransactionView \<Rightarrow> unit tv_result" where
  "sanitize_config p v =
     (case transaction_config v of
        None \<Rightarrow> Ok ()
      | Some (config, bytes) \<Rightarrow> obind (requested_heap_size config bytes) (\<lambda>r.
          case r of
            None \<Rightarrow> Ok ()
          | Some requested_heap_bytes \<Rightarrow>
              if \<not> (MIN_HEAP_FRAME_BYTES p \<le> requested_heap_bytes \<and>
                    requested_heap_bytes \<le> MAX_HEAP_FRAME_BYTES)
                 \<or> unat requested_heap_bytes mod 1024 \<noteq> 0
              then Err SanitizeError else Ok ()))"

definition sanitize_signatures :: "TransactionView \<Rightarrow> unit tv_result" where
  "sanitize_signatures v =
     (if num_signatures v \<noteq> num_required_signatures v then Err SanitizeError
      else if num_signatures v > MAX_SIGNATURES_PER_PACKET then Err SanitizeError
      else if num_static_account_keys v < num_signatures v then Err SanitizeError
      else Ok ())"

definition total_number_of_accounts :: "TransactionView \<Rightarrow> u16" where
  "total_number_of_accounts v =
     sat_add (sat_add (u8_to_u16 (num_static_account_keys v)) (total_writable_lookup_accounts v))
       (total_readonly_lookup_accounts v)"

definition sanitize_account_access :: "TransactionView \<Rightarrow> unit tv_result" where
  "sanitize_account_access v =
     (let addresses_limit = (case view_version v of V1 \<Rightarrow> 64 | _ \<Rightarrow> 256) in
      if total_number_of_accounts v > addresses_limit then Err SanitizeError else Ok ())"

definition sanitize_instructions :: "TransactionView \<Rightarrow> bool \<Rightarrow> unit tv_result" where
  "sanitize_instructions v enable_instruction_accounts_limit =
     (if unat (num_instructions v) > MAX_INSTRUCTION_TRACE_LENGTH then Err SanitizeError
      else (let max_program_id_index = num_static_account_keys v - 1;
                max_account_index = byte_of (unat (total_number_of_accounts v - 1)) in
        iter_fold (instructions_iter v) (\<lambda>_ instruction.
          if ix_program_id_index instruction > max_program_id_index then Err SanitizeError
          else if ix_program_id_index instruction = 0 then Err SanitizeError
          else if list_ex (\<lambda>account_index. account_index > max_account_index) (ix_accounts instruction)
          then Err SanitizeError
          else if enable_instruction_accounts_limit \<and>
                  length (ix_accounts instruction) > MAX_ACCOUNTS_PER_INSTRUCTION
          then Err SanitizeError
          else Ok ()) ()))"

definition sanitize_address_table_lookups :: "TransactionView \<Rightarrow> unit tv_result" where
  "sanitize_address_table_lookups v =
     lookup_fold (address_table_lookup_iter v) (\<lambda>_ lookup.
       if lk_writable_indexes lookup = [] \<and> lk_readonly_indexes lookup = []
       then Err SanitizeError else Ok ()) ()"

definition sanitize :: "sanitize_params \<Rightarrow> TransactionView \<Rightarrow> bool \<Rightarrow> unit tv_result" where
  "sanitize p v enable_instruction_accounts_limit =
     obind (sanitize_transaction_size p v) (\<lambda>_.
     obind (sanitize_message_header v) (\<lambda>_.
     obind (sanitize_config p v) (\<lambda>_.
     obind (sanitize_signatures v) (\<lambda>_.
     obind (sanitize_account_access v) (\<lambda>_.
     obind (sanitize_instructions v enable_instruction_accounts_limit) (\<lambda>_.
     sanitize_address_table_lookups v))))))"

definition try_new_unsanitized :: "bytes \<Rightarrow> TransactionView tv_result" where
  "try_new_unsanitized data =
     obind (TransactionFrame_try_new data) (\<lambda>frame. Ok \<lparr>tv_data = data, tv_frame = frame\<rparr>)"

definition view_sanitize :: "sanitize_params \<Rightarrow> TransactionView \<Rightarrow> bool \<Rightarrow> TransactionView tv_result" where
  "view_sanitize p v enable_instruction_accounts_limit =
     obind (sanitize p v enable_instruction_accounts_limit) (\<lambda>_. Ok v)"

definition try_new_sanitized :: "sanitize_params \<Rightarrow> bytes \<Rightarrow> bool \<Rightarrow> TransactionView tv_result" where
  "try_new_sanitized p data enable_instruction_accounts_limit =
     obind (try_new_unsanitized data) (\<lambda>unsanitized_view.
       view_sanitize p unsanitized_view enable_instruction_accounts_limit)"

subsection \<open>Accessors of a sanitized view\<close>

definition program_instruction :: "TransactionView \<Rightarrow> SVMInstruction \<Rightarrow> (bytes \<times> SVMInstruction) tv_result" where
  "program_instruction v ix =
     obind (static_account_keys v) (\<lambda>keys.
     obind (index_or_panic keys (unat (ix_program_id_index ix))) (\<lambda>program_id.
       Ok (program_id, ix)))"

definition program_instructions_iter :: "TransactionView \<Rightarrow> (bytes \<times> SVMInstruction) list tv_result" where
  "program_instructions_iter v =
     iter_fold (instructions_iter v)
       (\<lambda>acc ix. obind (program_instruction v ix) (\<lambda>pi. Ok (acc @ [pi]))) []"

definition num_static_unsigned_static_accounts :: "TransactionView \<Rightarrow> u8" where
  "num_static_unsigned_static_accounts v = num_static_account_keys v - num_required_signatures v"

definition num_writable_unsigned_static_accounts :: "TransactionView \<Rightarrow> u8" where
  "num_writable_unsigned_static_accounts v =
     num_static_unsigned_static_accounts v - num_readonly_unsigned_static_accounts v"

definition num_writable_signed_static_accounts :: "TransactionView \<Rightarrow> u8" where
  "num_writable_signed_static_accounts v =
     num_required_signatures v - num_readonly_signed_static_accounts v"

definition total_num_accounts :: "TransactionView \<Rightarrow> u16" where
  "total_num_accounts v =
     u8_to_u16 (num_static_account_keys v) + total_writable_lookup_accounts v
       + total_readonly_lookup_accounts v"

definition num_requested_write_locks :: "TransactionView \<Rightarrow> u64" where
  "num_requested_write_locks v =
     ucast (u8_to_u16 (num_static_account_keys v - num_readonly_signed_static_accounts v
                       - num_readonly_unsigned_static_accounts v)
            + total_writable_lookup_accounts v)"

definition fee_payer :: "TransactionView \<Rightarrow> bytes tv_result" where
  "fee_payer v = obind (static_account_keys v) (\<lambda>keys. index_or_panic keys 0)"

section \<open>Loops over the iterators of a parsed view\<close>

definition lookup_items :: "AddressTableLookupIterator \<Rightarrow> SVMMessageAddressTableLookup list" where
  "lookup_items it = (case collect_lookups it of Ok ls \<Rightarrow> ls | _ \<Rightarrow> [])"

lemma lookup_fold_append:
  "lookup_fold it (\<lambda>acc l. Ok (acc @ [l])) pre =
     obind (collect_lookups it) (\<lambda>ls. Ok (pre @ ls))"
  unfolding collect_lookups_def
proof (induction "AddressTableLookupIterator_len it" arbitrary: it pre rule: less_induct)
  case less
  show ?case
  proof (cases "AddressTableLookupIterator_next it")
    case (Pair r it')
    show ?thesis
    proof (cases r)
      case (Ok a)
      show ?thesis
      proof (cases a)
        case (Some l)
        then have "AddressTableLookupIterator_len it' < AddressTableLookupIterator_len it"
          using Pair Ok by (intro lookup_next_len_decreases) simp
        note ih = less [OF this]
        show ?thesis
          using Pair Ok Some ih [of "pre @ [l]"] ih [of "[l]"]
          by (subst (1 2) lookup_fold.simps)
             (cases "lookup_fold it' (\<lambda>acc l. Ok (acc @ [l])) []"; simp)
      qed (use Pair Ok in \<open>subst (1 2) lookup_fold.simps; simp\<close>)
    qed (use Pair in \<open>subst (1 2) lookup_fold.simps; simp\<close>)+
  qed
qed

lemma lookup_fold_items:
  assumes "fits_slice bytes" and "ai_bytes it = bytes" and "ai_offset it \<le> length bytes"
  shows "lookup_fold it body acc = fold_outcome body acc (lookup_items it)"
  using assms(2,3)
proof (induction "AddressTableLookupIterator_len it" arbitrary: it acc rule: less_induct)
  case less
  obtain a it' where n: "AddressTableLookupIterator_next it = (Ok a, it')"
    and a: "a \<noteq> None \<longrightarrow> ai_bytes it' = bytes \<and> ai_offset it' \<le> length bytes"
    using lookup_next_safe [OF assms(1) less.prems]
    by (cases "AddressTableLookupIterator_next it") auto
  show ?case
  proof (cases a)
    case None
    with n show ?thesis
      by (subst lookup_fold.simps) (simp add: lookup_items_def collect_lookups_def lookup_fold.simps)
  next
    case (Some l)
    then have "AddressTableLookupIterator_len it' < AddressTableLookupIterator_len it"
      using n by (intro lookup_next_len_decreases) simp
    then have ih: "lookup_fold it' body = (\<lambda>acc. fold_outcome body acc (lookup_items it'))"
      using less.hyps a Some by (intro ext) simp
    obtain ls where ls: "collect_lookups it' = Ok ls"
      using lookup_fold_ok [OF assms(1), of "\<lambda>acc l. Ok (acc @ [l])" it' "[]"] a Some
      by (auto simp: collect_lookups_def)
    have "collect_lookups it = Ok (l # ls)"
      unfolding collect_lookups_def
      using n Some ls by (subst lookup_fold.simps) (simp add: lookup_fold_append)
    with ls have "lookup_items it = l # lookup_items it'" by (simp add: lookup_items_def)
    with ih n Some show ?thesis by (subst lookup_fold.simps) simp
  qed
qed

abbreviation view_instructions :: "TransactionView \<Rightarrow> SVMInstruction list" where
  "view_instructions v \<equiv> instructions_of (tv_data v) (tf_instructions (tv_frame v))"

abbreviation view_lookups :: "TransactionView \<Rightarrow> SVMMessageAddressTableLookup list" where
  "view_lookups v \<equiv> lookup_items (address_table_lookup_iter v)"

text \<open>A view as \<open>try_new_unsanitized\<close> returns it.\<close>

definition parsed_view :: "TransactionView \<Rightarrow> bool" where
  "parsed_view v \<longleftrightarrow> fits_slice (tv_data v) \<and> TransactionFrame_try_new (tv_data v) = Ok (tv_frame v)"

lemma try_new_unsanitized_parsed:
  "fits_slice data \<Longrightarrow> try_new_unsanitized data = Ok v \<longleftrightarrow> tv_data v = data \<and> parsed_view v"
  by (cases v) (auto simp: try_new_unsanitized_def parsed_view_def)

lemma parsed_in_bounds: "parsed_view v \<Longrightarrow> frame_in_bounds (tv_data v) (tv_frame v)"
  by (auto simp: parsed_view_def intro: try_new_in_bounds)

lemma view_iter_fold:
  "parsed_view v \<Longrightarrow> iter_fold (instructions_iter v) body acc = fold_outcome body acc (view_instructions v)"
  using parsed_in_bounds [of v]
  by (simp add: instructions_iter_def frame_instructions_iter_def iter_fold_frame parsed_view_def
      frame_in_bounds_def)

lemma view_lookup_fold:
  "parsed_view v \<Longrightarrow>
     lookup_fold (address_table_lookup_iter v) body acc = fold_outcome body acc (view_lookups v)"
  using parsed_in_bounds [of v]
  by (intro lookup_fold_items [where bytes = "tv_data v"])
     (simp_all add: address_table_lookup_iter_def frame_address_table_lookup_iter_def parsed_view_def
       frame_in_bounds_def)

lemma fold_outcome_check:
  "fold_outcome (\<lambda>_ x. if bad x then Err e else Ok ()) () xs =
     (if list_ex bad xs then Err e else Ok ())"
  by (induction xs) auto

section \<open>What sanitization checks\<close>

definition num_accounts :: "TransactionView \<Rightarrow> nat" where
  "num_accounts v = unat (num_static_account_keys v) + unat (total_writable_lookup_accounts v)
     + unat (total_readonly_lookup_accounts v)"

definition heap_request_ok :: "sanitize_params \<Rightarrow> TransactionView \<Rightarrow> bool" where
  "heap_request_ok p v \<longleftrightarrow>
     (\<forall>h. requested_heap_size (tf_transaction_config_frame (tv_frame v)) (tv_data v) = Ok (Some h) \<longrightarrow>
        MIN_HEAP_FRAME_BYTES p \<le> h \<and> h \<le> 262144 \<and> 1024 dvd unat h)"

definition instruction_ok :: "TransactionView \<Rightarrow> bool \<Rightarrow> SVMInstruction \<Rightarrow> bool" where
  "instruction_ok v limit ix \<longleftrightarrow>
     0 < unat (ix_program_id_index ix) \<and>
     unat (ix_program_id_index ix) < unat (num_static_account_keys v) \<and>
     (\<forall>a \<in> set (ix_accounts ix). unat a < num_accounts v) \<and>
     (limit \<longrightarrow> length (ix_accounts ix) \<le> 255)"

definition header_ok :: "TransactionView \<Rightarrow> bool" where
  "header_ok v \<longleftrightarrow>
     num_signatures v = num_required_signatures v \<and>
     1 \<le> unat (num_required_signatures v) \<and> unat (num_required_signatures v) \<le> 12 \<and>
     unat (num_readonly_signed_static_accounts v) < unat (num_required_signatures v) \<and>
     unat (num_required_signatures v) + unat (num_readonly_unsigned_static_accounts v)
       \<le> unat (num_static_account_keys v)"

definition sanitized_constraints :: "sanitize_params \<Rightarrow> bool \<Rightarrow> TransactionView \<Rightarrow> bool" where
  "sanitized_constraints p limit v \<longleftrightarrow>
     length (tv_data v) \<le> (if view_version v = V1 then v1_MAX_TRANSACTION_SIZE p else 1232) \<and>
     header_ok v \<and> heap_request_ok p v \<and>
     num_accounts v \<le> (if view_version v = V1 then 64 else 256) \<and>
     length (view_instructions v) \<le> 64 \<and>
     (\<forall>ix \<in> set (view_instructions v). instruction_ok v limit ix) \<and>
     (\<forall>l \<in> set (view_lookups v). lk_writable_indexes l \<noteq> [] \<or> lk_readonly_indexes l \<noteq> [])"

lemma requested_heap_size_ok:
  assumes "parsed_view v"
  shows "\<exists>h. requested_heap_size (tf_transaction_config_frame (tv_frame v)) (tv_data v) = Ok h"
proof -
  let ?f = "tf_transaction_config_frame (tv_frame v)"
  have "config_in_bounds (tv_data v) ?f"
    using parsed_in_bounds [OF assms] by (simp add: frame_in_bounds_def)
  then show ?thesis
    using word_offset_in_bounds [of "tv_data v" ?f 4 _ "{}"]
    by (auto simp: requested_heap_size_def config_value_def unchecked_copy_value_eq split: option.split)
qed

lemma config_absent:
  "\<not> is_present f \<Longrightarrow> requested_heap_size f bytes = Ok None"
  by (simp add: requested_heap_size_def config_value_def word_offset_def word_index_for_bit_def)

lemma sanitize_config_eq:
  assumes "parsed_view v"
  shows "sanitize_config p v = (if heap_request_ok p v then Ok () else Err SanitizeError)"
proof -
  obtain h where h: "requested_heap_size (tf_transaction_config_frame (tv_frame v)) (tv_data v) = Ok h"
    using requested_heap_size_ok [OF assms] by blast
  then show ?thesis
    using config_absent [of "tf_transaction_config_frame (tv_frame v)" "tv_data v"]
    by (cases h) (auto simp: sanitize_config_def transaction_config_def heap_request_ok_def
        MAX_HEAP_FRAME_BYTES_def dvd_eq_mod_eq_0)
qed

lemma unat_total_number_of_accounts: "unat (total_number_of_accounts v) = min (num_accounts v) 65535"
  by (simp add: total_number_of_accounts_def unat_sat_add num_accounts_def)

lemma sanitize_account_access_eq:
  "sanitize_account_access v =
     (if num_accounts v \<le> (if view_version v = V1 then 64 else 256) then Ok () else Err SanitizeError)"
  by (cases "view_version v")
     (auto simp: sanitize_account_access_def word_less_nat_alt unat_total_number_of_accounts)

lemma header_ok_iff:
  "header_ok v \<longleftrightarrow> sanitize_message_header v = Ok () \<and> sanitize_signatures v = Ok ()"
proof (cases "num_required_signatures v \<le> num_static_account_keys v")
  case True
  then show ?thesis
    by (auto simp: header_ok_def sanitize_message_header_def sanitize_signatures_def
        MAX_SIGNATURES_PER_PACKET_eq word_less_nat_alt word_le_nat_alt unat_sub not_less not_le)
next
  case False
  then show ?thesis
    by (auto simp: header_ok_def sanitize_signatures_def word_less_nat_alt word_le_nat_alt not_less)
qed

lemma header_checks_cases:
  "sanitize_message_header v = Ok () \<or> sanitize_message_header v = Err SanitizeError"
  "sanitize_signatures v = Ok () \<or> sanitize_signatures v = Err SanitizeError"
  by (auto simp: sanitize_message_header_def sanitize_signatures_def)

lemma instruction_ok_iff:
  assumes "header_ok v" and "num_accounts v \<le> 256"
  shows "instruction_ok v limit ix \<longleftrightarrow>
    \<not> (ix_program_id_index ix > num_static_account_keys v - 1 \<or> ix_program_id_index ix = 0 \<or>
       list_ex (\<lambda>a. a > byte_of (unat (total_number_of_accounts v - 1))) (ix_accounts ix) \<or>
       limit \<and> length (ix_accounts ix) > 255)"
proof -
  have k: "1 \<le> unat (num_static_account_keys v)" using assms(1) by (simp add: header_ok_def)
  then have m: "unat (num_static_account_keys v - 1) = unat (num_static_account_keys v) - 1"
    by (simp add: unat_sub word_le_nat_alt)
  have t: "unat (total_number_of_accounts v) = num_accounts v" "1 \<le> num_accounts v"
    using assms(2) k by (simp_all add: unat_total_number_of_accounts num_accounts_def)
  then have "unat (total_number_of_accounts v - 1) = num_accounts v - 1"
    by (simp add: unat_sub word_le_nat_alt)
  then have "unat (byte_of (unat (total_number_of_accounts v - 1))) = num_accounts v - 1"
    using assms(2) by simp
  with t(2) have a: "a > byte_of (unat (total_number_of_accounts v - 1)) \<longleftrightarrow> num_accounts v \<le> unat a" for a
    by (auto simp: word_less_nat_alt)
  have z: "0 < unat (ix_program_id_index ix) \<longleftrightarrow> ix_program_id_index ix \<noteq> 0"
    by (simp add: unat_gt_0)
  show ?thesis
    unfolding instruction_ok_def a z using k
    by (auto simp: word_less_nat_alt m list_ex_iff not_le not_less)
qed

lemma sanitize_instructions_eq:
  assumes "parsed_view v" and "header_ok v" and "num_accounts v \<le> 256"
  shows "sanitize_instructions v limit =
    (if length (view_instructions v) \<le> 64 \<and> (\<forall>ix \<in> set (view_instructions v). instruction_ok v limit ix)
     then Ok () else Err SanitizeError)"
proof -
  let ?bad = "\<lambda>ix. \<not> instruction_ok v limit ix"
  have "unat (num_instructions v) = length (view_instructions v)"
    using parsed_in_bounds [OF assms(1)]
    by (simp add: num_instructions_def length_instructions_of frame_in_bounds_def)
  moreover have "(\<lambda>(_ :: unit) instruction.
          if ix_program_id_index instruction > num_static_account_keys v - 1 then Err SanitizeError
          else if ix_program_id_index instruction = 0 then Err SanitizeError
          else if list_ex (\<lambda>a. a > byte_of (unat (total_number_of_accounts v - 1)))
            (ix_accounts instruction)
          then Err SanitizeError
          else if limit \<and> length (ix_accounts instruction) > 255 then Err SanitizeError
          else Ok ()) = (\<lambda>_ x. if ?bad x then Err SanitizeError else Ok ())"
    by (intro ext) (simp add: instruction_ok_iff [OF assms(2,3)])
  ultimately show ?thesis
    unfolding sanitize_instructions_def view_iter_fold [OF assms(1)] Let_def
      MAX_INSTRUCTION_TRACE_LENGTH_def MAX_ACCOUNTS_PER_INSTRUCTION_def
    by (simp add: fold_outcome_check list_ex_iff not_less)
qed

lemma sanitize_lookups_eq:
  assumes "parsed_view v"
  shows "sanitize_address_table_lookups v =
    (if \<forall>l \<in> set (view_lookups v). lk_writable_indexes l \<noteq> [] \<or> lk_readonly_indexes l \<noteq> []
     then Ok () else Err SanitizeError)"
  by (auto simp: sanitize_address_table_lookups_def view_lookup_fold [OF assms] fold_outcome_check
      list_ex_iff)

lemma sanitize_size_eq:
  "sanitize_transaction_size p v =
     (if length (tv_data v) \<le> (if view_version v = V1 then v1_MAX_TRANSACTION_SIZE p else 1232)
      then Ok () else Err SanitizeError)"
  by (cases "view_version v") (auto simp: sanitize_transaction_size_def size_defs)

lemma sanitize_eq:
  assumes "parsed_view v"
  shows "sanitize p v limit =
    (if sanitized_constraints p limit v then Ok () else Err SanitizeError)"
proof (cases "header_ok v \<and> num_accounts v \<le> (if view_version v = V1 then 64 else 256)")
  case True
  then have "num_accounts v \<le> 256" by (auto split: if_splits)
  with True show ?thesis
    using sanitize_instructions_eq [OF assms, of limit]
    by (simp add: sanitize_def sanitized_constraints_def header_ok_iff sanitize_size_eq
        sanitize_account_access_eq sanitize_config_eq [OF assms] sanitize_lookups_eq [OF assms])
next
  case False
  then show ?thesis
    using header_checks_cases [of v]
    by (auto simp: sanitize_def sanitized_constraints_def header_ok_iff sanitize_size_eq
        sanitize_account_access_eq sanitize_config_eq [OF assms])
qed

section \<open>The properties of sanitized views\<close>

text \<open>
  C6: sanitization neither panics nor reads out of bounds, and it succeeds exactly for the parsed
  transactions that satisfy the listed constraints, stated on natural numbers: the wrap-around of the
  \<open>wrapping_sub\<close> calls and the saturation of \<open>total_number_of_accounts\<close> never change the decision.
\<close>

theorem try_new_sanitized_iff:
  assumes "fits_slice data"
  shows "defined_outcome (try_new_sanitized p data limit) \<and>
    (try_new_sanitized p data limit = Ok v \<longleftrightarrow>
       try_new_unsanitized data = Ok v \<and> sanitized_constraints p limit v)"
proof -
  have "defined_outcome (try_new_unsanitized data)"
    using try_new_defined [OF assms] by (auto simp: try_new_unsanitized_def intro: defined_obind)
  moreover have "view_sanitize p w limit =
      (if sanitized_constraints p limit w then Ok w else Err SanitizeError)"
    if "try_new_unsanitized data = Ok w" for w
    using that by (simp add: view_sanitize_def try_new_unsanitized_parsed [OF assms] sanitize_eq)
  ultimately show ?thesis
    by (auto simp: try_new_sanitized_def intro!: defined_obind split: if_splits)
qed

definition sample_params :: sanitize_params where
  "sample_params = \<lparr>v1_MAX_TRANSACTION_SIZE = 4096, MIN_HEAP_FRAME_BYTES = 32768\<rparr>"

definition sample_view :: TransactionView where
  "sample_view = \<lparr>tv_data = encode_wire sample_wire, tv_frame = frame_of_wire sample_wire\<rparr>"

lemma sample_view_parsed: "try_new_unsanitized (tv_data sample_view) = Ok sample_view"
  using try_new_encoded(1) [OF sample_wire_wf sample_wire_length]
  by (simp add: try_new_unsanitized_def sample_view_def)

lemma sample_view_fits: "fits_slice (tv_data sample_view)"
  using sample_wire_length by (simp add: sample_view_def fits_slice_def)

lemma view_of_parsed:
  assumes "parsed_view v" and "frame_view (tv_frame v) (tv_data v) = Ok t"
  shows "view_instructions v = wt_instructions t" and "view_lookups v = wt_lookups t"
    and "static_account_keys v = Ok (wt_account_keys t)" and "view_signatures v = Ok (wt_signatures t)"
proof -
  have "collect_instructions (frame_instructions_iter (tv_frame v) (tv_data v)) = Ok (view_instructions v)"
    using assms(1) parsed_in_bounds [OF assms(1)]
    by (intro frame_instructions_eq) (simp_all add: parsed_view_def)
  then show "view_instructions v = wt_instructions t" "view_lookups v = wt_lookups t"
    "static_account_keys v = Ok (wt_account_keys t)" "view_signatures v = Ok (wt_signatures t)"
    using assms(2)
    by (auto simp: frame_view_def static_account_keys_def view_signatures_def lookup_items_def
        address_table_lookup_iter_def)
qed

lemma sample_view_parsed': "parsed_view sample_view"
  using sample_view_parsed sample_view_fits by (simp add: try_new_unsanitized_parsed)

lemma sample_view_contents:
  "view_instructions sample_view = wt_instructions sample_wire"
  "view_lookups sample_view = wt_lookups sample_wire"
  using view_of_parsed [OF sample_view_parsed', of sample_wire]
    try_new_encoded(2) [OF sample_wire_wf sample_wire_length]
  by (simp_all add: sample_view_def)

lemma sample_view_constraints: "sanitized_constraints sample_params True sample_view"
proof -
  have "length (tv_data sample_view) \<le> 1232"
    by (simp add: sample_view_def sample_wire_def encode_lookup_def encode_wire_def wire_header_def
        wire_lookups_def encode_instruction_def length_compact_u16)
  then show ?thesis
    unfolding sanitized_constraints_def sample_view_contents
    by (auto simp: sample_wire_def sample_view_def view_version_def frame_version_def frame_of_wire_def
        header_ok_def num_signatures_def num_required_signatures_def
        num_readonly_signed_static_accounts_def num_readonly_unsigned_static_accounts_def
        num_static_account_keys_def heap_request_ok_def config_absent is_present_def not_applicable_def
        num_accounts_def total_writable_lookup_accounts_def total_readonly_lookup_accounts_def
        num_writable_def num_readonly_def instruction_ok_def byte_of_def)
qed

theorem try_new_sanitized_iff_witness:
  "try_new_sanitized sample_params (tv_data sample_view) True = Ok sample_view"
  using try_new_sanitized_iff [OF sample_view_fits, of sample_params True sample_view]
    sample_view_parsed sample_view_constraints by simp

lemma starts_at_split:
  assumes "starts_at bytes i xs"
  shows "bytes = take i bytes @ xs @ drop (i + length xs) bytes"
proof -
  have "drop i bytes = xs @ drop (i + length xs) bytes"
    using starts_at_take [OF assms] append_take_drop_id [of "length xs" "drop i bytes"]
    by (simp add: add.commute)
  then show ?thesis using append_take_drop_id [of i bytes] by simp
qed

lemma message_data_split:
  assumes "parsed_view v" and "length (tv_data v) < 65536"
  shows "\<exists>sigs msg. view_signatures v = Ok sigs \<and> message_data v = Ok msg \<and>
    tv_data v = (if view_version v = V1 then msg @ concat sigs
                 else byte_of (length sigs) # concat sigs @ msg)"
proof -
  have fit: "fits_slice (tv_data v)" and ok: "TransactionFrame_try_new (tv_data v) = Ok (tv_frame v)"
    using assms(1) by (simp_all add: parsed_view_def)
  obtain sigs where sigs: "frame_signatures (tv_frame v) (tv_data v) = Ok sigs"
    "length sigs = unat (sf_num_signatures (tf_signature (tv_frame v)))"
    "\<forall>s \<in> set sigs. length s = 64"
    "starts_at (tv_data v) (unat (sf_offset (tf_signature (tv_frame v)))) (concat sigs)"
    using frame_signatures_exist [OF parsed_in_bounds [OF assms(1)]] by blast
  note l = length_concat_const [OF sigs(3)] and sp = starts_at_split [OF sigs(4)]
  show ?thesis
  proof (cases "hd (tv_data v) AND 0x80 = 0")
    case True
    with try_new_layout [OF fit ok] have lay: "legacy_v0_layout (tv_data v) (tv_frame v)"
      and ne: "tv_data v \<noteq> []" by auto
    let ?h = "header_at (tv_frame v)"
    have h: "?h = 1 + length (concat sigs)" using sigs(2) by (simp add: header_at_def l)
    have f: "sf_offset (tf_signature (tv_frame v)) = as_u16 1" "?h \<le> length (tv_data v)"
      "tv_data v ! 0 = sf_num_signatures (tf_signature (tv_frame v))"
      "mh_offset (tf_message_header (tv_frame v)) = as_u16 ?h"
      "mh_version (tf_message_header (tv_frame v)) \<noteq> V1"
      "tf_data_len (tv_frame v) = as_u16 (length (tv_data v))"
      using lay by (auto simp: legacy_v0_layout_def Let_def)
    have r: "message_range (tv_frame v) = (as_u16 ?h, as_u16 (length (tv_data v)))"
      using f(4-6) by (cases "mh_version (tf_message_header (tv_frame v))")
        (simp_all add: message_range_def frame_version_def)
    have "message_data v = Ok (drop ?h (tv_data v))"
      using f(2) assms(2) by (simp add: message_data_def r)
    moreover have "take 1 (tv_data v) = [byte_of (length sigs)]"
      using ne f(3) sigs(2) by (cases "tv_data v") simp_all
    then have "tv_data v = byte_of (length sigs) # concat sigs @ drop ?h (tv_data v)"
      using sp f(1) h by (simp add: hd_conv_nth)
    ultimately show ?thesis
      using sigs(1) f(5) by (auto simp: view_signatures_def view_version_def frame_version_def)
  next
    case False
    with try_new_layout [OF fit ok] have lay: "v1_frame_layout (tv_data v) (tv_frame v)" by auto
    let ?s = "v1_signatures_at (tv_data v) (tv_frame v)"
    have f: "sf_offset (tf_signature (tv_frame v)) = as_u16 ?s"
      "?s + length (concat sigs) = length (tv_data v)"
      "mh_offset (tf_message_header (tv_frame v)) = 0"
      "mh_version (tf_message_header (tv_frame v)) = V1"
      using lay sigs(2) by (simp_all add: v1_frame_layout_def l)
    have "message_data v = Ok (take ?s (tv_data v))"
      using f assms(2) by (simp add: message_data_def message_range_def frame_version_def)
    moreover have "tv_data v = take ?s (tv_data v) @ concat sigs"
      using sp f(1,2) assms(2) by simp
    ultimately show ?thesis
      using sigs(1) f(4) by (auto simp: view_signatures_def view_version_def frame_version_def)
  qed
qed

lemma sanitized_parsed:
  assumes "fits_slice data" and "try_new_sanitized p data limit = Ok v"
  shows "tv_data v = data" and "parsed_view v" and "sanitized_constraints p limit v"
proof -
  obtain w where w: "try_new_unsanitized data = Ok w" "view_sanitize p w limit = Ok v"
    using assms(2) by (auto simp: try_new_sanitized_def)
  then have "parsed_view w" "tv_data w = data" using assms(1) by (simp_all add: try_new_unsanitized_parsed)
  with w(2) show "tv_data v = data" "parsed_view v" "sanitized_constraints p limit v"
    by (auto simp: view_sanitize_def sanitize_eq split: if_splits)
qed

lemma fold_outcome_map:
  assumes "\<And>x. x \<in> set xs \<Longrightarrow> f x = Ok (g x)"
  shows "fold_outcome (\<lambda>acc x. obind (f x) (\<lambda>y. Ok (acc @ [y]))) acc xs = Ok (acc @ map g xs)"
  using assms by (induction xs arbitrary: acc) simp_all

lemma sanitized_program_instructions:
  assumes "parsed_view v" and "sanitized_constraints p limit v"
  obtains keys where "static_account_keys v = Ok keys" "length keys = unat (num_static_account_keys v)"
    "program_instructions_iter v =
       Ok (map (\<lambda>ix. (keys ! unat (ix_program_id_index ix), ix)) (view_instructions v))"
proof -
  obtain keys where k: "static_account_keys v = Ok keys" "length keys = unat (num_static_account_keys v)"
    using frame_keys_exist [OF parsed_in_bounds [OF assms(1)]]
    by (metis static_account_keys_def num_static_account_keys_def)
  have "program_instruction v ix = Ok (keys ! unat (ix_program_id_index ix), ix)"
    if "ix \<in> set (view_instructions v)" for ix
  proof -
    have "unat (ix_program_id_index ix) < length keys"
      using assms(2) that by (simp add: k(2) sanitized_constraints_def instruction_ok_def)
    then show ?thesis by (simp add: program_instruction_def k(1) index_or_panic_def)
  qed
  then have "program_instructions_iter v =
      Ok (map (\<lambda>ix. (keys ! unat (ix_program_id_index ix), ix)) (view_instructions v))"
    unfolding program_instructions_iter_def view_iter_fold [OF assms(1)]
    by (subst fold_outcome_map [where g = "\<lambda>ix. (keys ! unat (ix_program_id_index ix), ix)"]) simp_all
  with k show thesis by (rule that)
qed

text \<open>
  C8: on a sanitized view the accessors that index without a check do not panic: every instruction is
  paired with the static key its program index names, the fee payer is the first static key, and the
  serialized data splits into the signatures and the message returned by \<open>message_data\<close>.
\<close>

theorem sanitized_accessors:
  assumes "fits_slice data" and "v1_MAX_TRANSACTION_SIZE p < 65536"
    and "try_new_sanitized p data limit = Ok v"
  shows "\<exists>keys sigs msg.
    static_account_keys v = Ok keys \<and> length keys = unat (num_static_account_keys v) \<and>
    program_instructions_iter v =
      Ok (map (\<lambda>ix. (keys ! unat (ix_program_id_index ix), ix)) (view_instructions v)) \<and>
    fee_payer v = Ok (hd keys) \<and>
    view_signatures v = Ok sigs \<and> message_data v = Ok msg \<and>
    data = (if view_version v = V1 then msg @ concat sigs
            else byte_of (length sigs) # concat sigs @ msg)"
proof -
  note s = sanitized_parsed [OF assms(1,3)]
  obtain keys where k: "static_account_keys v = Ok keys" "length keys = unat (num_static_account_keys v)"
    and "program_instructions_iter v =
      Ok (map (\<lambda>ix. (keys ! unat (ix_program_id_index ix), ix)) (view_instructions v))"
    using sanitized_program_instructions [OF s(2,3)] by blast
  moreover have len: "length (tv_data v) < 65536"
    using s(3) assms(2) by (auto simp: sanitized_constraints_def split: if_splits)
  moreover have "keys \<noteq> []" using s(3) k(2) by (auto simp: sanitized_constraints_def header_ok_def)
  then have "fee_payer v = Ok (hd keys)" by (simp add: fee_payer_def k(1) index_or_panic_def hd_conv_nth)
  ultimately show ?thesis using k message_data_split [OF s(2) len] s(1) by blast
qed

lemma sample_sanitized: "try_new_sanitized sample_params (tv_data sample_view) True = Ok sample_view"
  using sample_view_parsed sample_view_constraints
  by (simp add: try_new_sanitized_def view_sanitize_def sanitize_eq [OF sample_view_parsed'])

theorem sanitized_accessors_witness:
  "\<exists>keys. static_account_keys sample_view = Ok keys \<and> fee_payer sample_view = Ok (hd keys)"
  using sanitized_accessors [OF sample_view_fits _ sample_sanitized] by (auto simp: sample_params_def)

lemma counts_exact:
  assumes "sanitized_constraints p limit v"
  shows "unat (total_num_accounts v) = num_accounts v"
    and "unat (num_writable_signed_static_accounts v) + unat (num_readonly_signed_static_accounts v)
      = unat (num_required_signatures v)"
    and "unat (num_required_signatures v) + unat (num_writable_unsigned_static_accounts v)
      + unat (num_readonly_unsigned_static_accounts v) = unat (num_static_account_keys v)"
    and "unat (num_requested_write_locks v) + unat (num_readonly_signed_static_accounts v)
      + unat (num_readonly_unsigned_static_accounts v) + unat (total_readonly_lookup_accounts v)
      = num_accounts v"
proof -
  let ?n = "num_static_account_keys v" and ?r = "num_required_signatures v"
  let ?rs = "num_readonly_signed_static_accounts v" and ?ru = "num_readonly_unsigned_static_accounts v"
  let ?wl = "total_writable_lookup_accounts v" and ?rl = "total_readonly_lookup_accounts v"
  have h: "unat ?rs < unat ?r" "unat ?r + unat ?ru \<le> unat ?n" "num_accounts v \<le> 256"
    using assms by (auto simp: sanitized_constraints_def header_ok_def split: if_splits)
  then have "unat (?r - ?rs) = unat ?r - unat ?rs" "unat (?n - ?r) = unat ?n - unat ?r"
    "unat (?n - ?rs) = unat ?n - unat ?rs"
    by (auto intro!: unat_sub simp: word_le_nat_alt)
  moreover from this h have "unat (?n - ?r - ?ru) = unat ?n - unat ?r - unat ?ru"
    "unat (?n - ?rs - ?ru) = unat ?n - unat ?rs - unat ?ru"
    by (auto simp: unat_sub word_le_nat_alt)
  moreover have "unat (total_num_accounts v) = num_accounts v"
    using h(3) by (simp add: total_num_accounts_def num_accounts_def unat_word_ariths)
  moreover have "unat (num_requested_write_locks v) = unat (?n - ?rs - ?ru) + unat ?wl"
  proof -
    have "unat (?n - ?rs - ?ru) + unat ?wl < 65536"
      using h(3) \<open>unat (?n - ?rs - ?ru) = unat ?n - unat ?rs - unat ?ru\<close> by (simp add: num_accounts_def)
    then show ?thesis
      by (simp add: num_requested_write_locks_def unsigned_ucast_eq take_bit_nat_eq_self unat_word_ariths)
  qed
  ultimately show "unat (total_num_accounts v) = num_accounts v"
    "unat (num_writable_signed_static_accounts v) + unat ?rs = unat ?r"
    "unat ?r + unat (num_writable_unsigned_static_accounts v) + unat ?ru = unat ?n"
    "unat (num_requested_write_locks v) + unat ?rs + unat ?ru + unat ?rl = num_accounts v"
    using h
    by (simp_all add: num_writable_signed_static_accounts_def num_writable_unsigned_static_accounts_def
        num_static_unsigned_static_accounts_def num_accounts_def)
qed

text \<open>
  C9: on a sanitized view the account counters computed with wrapping arithmetic are the exact
  numbers: the total number of accounts, the writable signed and unsigned static accounts, and the
  requested write locks, which are all accounts except the three read-only groups.
\<close>

theorem sanitized_counts:
  assumes "fits_slice data" and "try_new_sanitized p data limit = Ok v"
  shows "unat (total_num_accounts v) = num_accounts v \<and>
    unat (num_writable_signed_static_accounts v) + unat (num_readonly_signed_static_accounts v)
      = unat (num_required_signatures v) \<and>
    unat (num_required_signatures v) + unat (num_writable_unsigned_static_accounts v)
      + unat (num_readonly_unsigned_static_accounts v) = unat (num_static_account_keys v) \<and>
    unat (num_requested_write_locks v) + unat (num_readonly_signed_static_accounts v)
      + unat (num_readonly_unsigned_static_accounts v) + unat (total_readonly_lookup_accounts v)
      = num_accounts v"
  using counts_exact [OF sanitized_parsed(3) [OF assms]] by simp

lemma sample_counts:
  "num_accounts sample_view = 3" "unat (num_readonly_signed_static_accounts sample_view) = 0"
  "unat (num_readonly_unsigned_static_accounts sample_view) = 1"
  "unat (total_readonly_lookup_accounts sample_view) = 0"
  by (simp_all add: sample_view_def sample_wire_def frame_of_wire_def num_accounts_def
      num_static_account_keys_def total_writable_lookup_accounts_def num_writable_def num_readonly_def
      total_readonly_lookup_accounts_def num_readonly_signed_static_accounts_def
      num_readonly_unsigned_static_accounts_def)

theorem sanitized_counts_witness:
  "unat (total_num_accounts sample_view) = 3 \<and> unat (num_requested_write_locks sample_view) = 2"
  using sanitized_counts [OF sample_view_fits sample_sanitized] sample_counts by simp

end
