(* ===== verification/Builtin_Costs.thy ===== *)
theory Builtin_Costs
  imports Tx_View
begin

text \<open>
  The table of builtin programs (\<open>builtins-default-costs/src/lib.rs\<close>) and the filters that remember
  the kind of each program of a transaction (\<open>compute-budget-instruction\<close>: \<open>builtin_programs_filter.rs\<close>
  and \<open>compute_budget_program_id_filter.rs\<close>). The program and feature identifiers come from crates
  outside the repository and are the fields of \<open>program_ids\<close>. The lemmas show that the prefilter on
  the first byte and the memo of the filters never change an answer.
\<close>

section \<open>Definitions\<close>

type_synonym Pubkey = bytes

record program_ids =
  vote_id :: Pubkey
  system_program_id :: Pubkey
  compute_budget_id :: Pubkey
  bpf_loader_upgradeable_id :: Pubkey
  bpf_loader_deprecated_id :: Pubkey
  bpf_loader_id :: Pubkey
  loader_v4_id :: Pubkey
  secp256k1_program_id :: Pubkey
  ed25519_program_id :: Pubkey
  secp256r1_program_id :: Pubkey
  bls_pubkey_management_in_vote_account_id :: Pubkey

record MigratingBuiltinCost =
  mb_core_bpf_migration_feature :: Pubkey
  mb_position :: usize

datatype BuiltinCost = Migrating MigratingBuiltinCost | NotMigrating

definition core_bpf_migration_feature :: "BuiltinCost \<Rightarrow> Pubkey option" where
  "core_bpf_migration_feature c =
     (case c of Migrating m \<Rightarrow> Some (mb_core_bpf_migration_feature m) | NotMigrating \<Rightarrow> None)"

definition builtin_position :: "BuiltinCost \<Rightarrow> usize option" where
  "builtin_position c = (case c of Migrating m \<Rightarrow> Some (mb_position m) | NotMigrating \<Rightarrow> None)"

definition MIGRATING_BUILTINS_COSTS :: "program_ids \<Rightarrow> (Pubkey \<times> BuiltinCost) list" where
  "MIGRATING_BUILTINS_COSTS p =
     [(vote_id p, Migrating \<lparr>mb_core_bpf_migration_feature = bls_pubkey_management_in_vote_account_id p,
                             mb_position = 0\<rparr>)]"

definition NON_MIGRATING_BUILTINS_COSTS :: "program_ids \<Rightarrow> (Pubkey \<times> BuiltinCost) list" where
  "NON_MIGRATING_BUILTINS_COSTS p =
     [(system_program_id p, NotMigrating), (compute_budget_id p, NotMigrating),
      (bpf_loader_upgradeable_id p, NotMigrating), (bpf_loader_deprecated_id p, NotMigrating),
      (bpf_loader_id p, NotMigrating), (loader_v4_id p, NotMigrating),
      (secp256k1_program_id p, NotMigrating), (ed25519_program_id p, NotMigrating)]"

text \<open>Collecting an iterator into a hash map inserts the entries in turn.\<close>

definition BUILTIN_INSTRUCTION_COSTS :: "program_ids \<Rightarrow> Pubkey \<rightharpoonup> BuiltinCost" where
  "BUILTIN_INSTRUCTION_COSTS p =
     foldl (\<lambda>m (k, c). m(k \<mapsto> c)) Map.empty (MIGRATING_BUILTINS_COSTS p @ NON_MIGRATING_BUILTINS_COSTS p)"

text \<open>The sources run over the keys of the map, in its order; every order sets the same entries.\<close>

definition MAYBE_BUILTIN_KEY :: "program_ids \<Rightarrow> bool list" where
  "MAYBE_BUILTIN_KEY p =
     foldl (\<lambda>temp_table key. temp_table[unat (key ! 0) := True]) (replicate 256 False)
       (map fst (MIGRATING_BUILTINS_COSTS p @ NON_MIGRATING_BUILTINS_COSTS p))"

datatype BuiltinMigrationFeatureIndex =
  NotBuiltinIndex | BuiltinNoMigrationFeature | BuiltinWithMigrationFeature usize

definition get_builtin_migration_feature_index :: "program_ids \<Rightarrow> Pubkey \<Rightarrow> BuiltinMigrationFeatureIndex" where
  "get_builtin_migration_feature_index p program_id =
     (case BUILTIN_INSTRUCTION_COSTS p program_id of
        None \<Rightarrow> NotBuiltinIndex
      | Some builtin_cost \<Rightarrow>
          (case builtin_position builtin_cost of
             None \<Rightarrow> BuiltinNoMigrationFeature
           | Some i \<Rightarrow> BuiltinWithMigrationFeature i))"

fun validate_position :: "usize \<Rightarrow> (Pubkey \<times> BuiltinCost) list \<Rightarrow> ('e, unit) outcome" where
  "validate_position index [] = Ok ()"
| "validate_position index ((_, c) # rest) =
     obind (case c of Migrating m \<Rightarrow> assert_or_panic (mb_position m = index) | NotMigrating \<Rightarrow> Panic)
       (\<lambda>_. validate_position (index + 1) rest)"

definition get_migration_feature_id :: "program_ids \<Rightarrow> usize \<Rightarrow> ('e, Pubkey) outcome" where
  "get_migration_feature_id p index =
     obind (index_or_panic (MIGRATING_BUILTINS_COSTS p) index) (\<lambda>(_, c).
       case core_bpf_migration_feature c of Some f \<Rightarrow> Ok f | None \<Rightarrow> Panic)"

subsection \<open>Filters\<close>

definition FILTER_SIZE :: usize where "FILTER_SIZE = 256"

datatype ProgramKind = NotBuiltin | Builtin | MigratingBuiltin usize

text \<open>\<open>get_mut(index).expect(..).get_or_insert_with(check)\<close> on a table of remembered answers.\<close>

definition get_or_insert_with :: "(Pubkey \<Rightarrow> 'v) \<Rightarrow> usize \<Rightarrow> Pubkey \<Rightarrow> ('v option list, 'e, 'v) op" where
  "get_or_insert_with check index program_id flags =
     (if index < length flags
      then (case flags ! index of
              Some v \<Rightarrow> (Ok v, flags)
            | None \<Rightarrow> (Ok (check program_id), flags[index := Some (check program_id)]))
      else (Panic, flags))"

definition maybe_builtin :: "program_ids \<Rightarrow> Pubkey \<Rightarrow> bool" where
  "maybe_builtin p program_id = MAYBE_BUILTIN_KEY p ! unat (program_id ! 0)"

definition ComputeBudgetProgramIdFilter_new :: "bool option list" where
  "ComputeBudgetProgramIdFilter_new = replicate FILTER_SIZE None"

definition check_program_id :: "program_ids \<Rightarrow> Pubkey \<Rightarrow> bool" where
  "check_program_id p program_id =
     (if \<not> maybe_builtin p program_id then False else program_id = compute_budget_id p)"

definition is_compute_budget_program :: "program_ids \<Rightarrow> usize \<Rightarrow> Pubkey \<Rightarrow> (bool option list, 'e, bool) op" where
  "is_compute_budget_program p = get_or_insert_with (check_program_id p)"

definition BuiltinProgramsFilter_new :: "ProgramKind option list" where
  "BuiltinProgramsFilter_new = replicate FILTER_SIZE None"

definition check_program_kind :: "program_ids \<Rightarrow> Pubkey \<Rightarrow> ProgramKind" where
  "check_program_kind p program_id =
     (if \<not> maybe_builtin p program_id then NotBuiltin
      else (case get_builtin_migration_feature_index p program_id of
              NotBuiltinIndex \<Rightarrow> NotBuiltin
            | BuiltinNoMigrationFeature \<Rightarrow> Builtin
            | BuiltinWithMigrationFeature i \<Rightarrow> MigratingBuiltin i))"

definition get_program_kind ::
  "program_ids \<Rightarrow> usize \<Rightarrow> Pubkey \<Rightarrow> (ProgramKind option list, 'e, ProgramKind) op" where
  "get_program_kind p = get_or_insert_with (check_program_kind p)"

section \<open>The table and its prefilter\<close>

definition builtin_entries :: "program_ids \<Rightarrow> (Pubkey \<times> BuiltinCost) list" where
  "builtin_entries p = MIGRATING_BUILTINS_COSTS p @ NON_MIGRATING_BUILTINS_COSTS p"

lemma foldl_insert_map_of: "foldl (\<lambda>m (k, c). m(k \<mapsto> c)) m xs = m ++ map_of (rev xs)"
  by (induction xs arbitrary: m) (auto simp: map_add_def fun_eq_iff split: option.split)

lemma builtin_costs_map_of: "BUILTIN_INSTRUCTION_COSTS p = map_of (rev (builtin_entries p))"
  by (simp add: BUILTIN_INSTRUCTION_COSTS_def builtin_entries_def foldl_insert_map_of)

lemma dom_builtin_costs: "dom (BUILTIN_INSTRUCTION_COSTS p) = fst ` set (builtin_entries p)"
  by (simp add: builtin_costs_map_of dom_map_of_conv_image_fst)

lemma foldl_set_True:
  "i < length t \<Longrightarrow> foldl (\<lambda>t k. t[f k := True]) t ks ! i \<longleftrightarrow> t ! i \<or> i \<in> f ` set ks"
proof (induction ks arbitrary: t)
  case (Cons k ks)
  then show ?case using Cons.IH [of "t[f k := True]"] by (cases "i = f k") auto
qed simp

lemma maybe_builtin_iff:
  "maybe_builtin p program_id \<longleftrightarrow> (\<exists>k \<in> dom (BUILTIN_INSTRUCTION_COSTS p). k ! 0 = program_id ! 0)"
proof -
  have "unat (program_id ! 0) < 256" using unsigned_less [of "program_id ! 0"] by simp
  moreover have "unat a = unat b \<longleftrightarrow> a = b" for a b :: u8 by (auto intro: unsigned_word_eqI)
  ultimately show ?thesis
    unfolding maybe_builtin_def MAYBE_BUILTIN_KEY_def dom_builtin_costs builtin_entries_def [symmetric]
    by (subst foldl_set_True) (auto simp: image_iff eq_commute [of "program_id ! 0"] intro: rev_bexI)
qed

lemma compute_budget_in_table: "compute_budget_id p \<in> dom (BUILTIN_INSTRUCTION_COSTS p)"
  by (simp add: dom_builtin_costs builtin_entries_def NON_MIGRATING_BUILTINS_COSTS_def)

lemma check_program_id_eq: "check_program_id p program_id \<longleftrightarrow> program_id = compute_budget_id p"
  using compute_budget_in_table [of p] by (auto simp: check_program_id_def maybe_builtin_iff)

lemma check_program_kind_eq:
  "check_program_kind p program_id =
     (case BUILTIN_INSTRUCTION_COSTS p program_id of
        None \<Rightarrow> NotBuiltin
      | Some (Migrating m) \<Rightarrow> MigratingBuiltin (mb_position m)
      | Some NotMigrating \<Rightarrow> Builtin)"
proof (cases "BUILTIN_INSTRUCTION_COSTS p program_id")
  case (Some c)
  then have "maybe_builtin p program_id" by (auto simp: maybe_builtin_iff)
  with Some show ?thesis
    by (cases c) (simp_all add: check_program_kind_def get_builtin_migration_feature_index_def builtin_position_def)
qed (simp add: check_program_kind_def get_builtin_migration_feature_index_def)

lemma migrating_position_valid:
  assumes "BUILTIN_INSTRUCTION_COSTS p program_id = Some (Migrating m)"
  shows "mb_position m < length (MIGRATING_BUILTINS_COSTS p)"
  using map_of_SomeD [OF assms [unfolded builtin_costs_map_of]]
  by (auto simp: builtin_entries_def MIGRATING_BUILTINS_COSTS_def NON_MIGRATING_BUILTINS_COSTS_def)

section \<open>Remembered answers\<close>

definition coherent :: "(Pubkey \<Rightarrow> 'v) \<Rightarrow> (usize \<Rightarrow> Pubkey) \<Rightarrow> 'v option list \<Rightarrow> bool" where
  "coherent check keys flags \<longleftrightarrow>
     length flags = FILTER_SIZE \<and> (\<forall>i v. i < FILTER_SIZE \<and> flags ! i = Some v \<longrightarrow> v = check (keys i))"

lemma coherent_new: "coherent check keys (replicate FILTER_SIZE None)"
  by (auto simp: coherent_def)

text \<open>
  The contract of a filter: it answers as \<open>check\<close> does as long as an index always comes with the same
  program, which holds for the instructions of one transaction.
\<close>

locale memo_filter =
  fixes check :: "Pubkey \<Rightarrow> 'v"
    and get :: "usize \<Rightarrow> Pubkey \<Rightarrow> ('v option list, 'e, 'v) op"
  assumes get_known: "index < length flags \<Longrightarrow> flags ! index = Some v \<Longrightarrow> get index k flags = (Ok v, flags)"
    and get_new: "index < length flags \<Longrightarrow> flags ! index = None \<Longrightarrow>
      get index k flags = (Ok (check k), flags[index := Some (check k)])"
begin

lemma get_coherent:
  assumes "coherent check keys flags" and "index < FILTER_SIZE" and "keys index = k"
  shows "\<exists>flags'. get index k flags = (Ok (check k), flags') \<and> coherent check keys flags'"
proof (cases "flags ! index")
  case None
  then show ?thesis using get_new [of index flags k] assms by (auto simp: coherent_def nth_list_update)
next
  case (Some v)
  then show ?thesis using get_known [of index flags v k] assms by (auto simp: coherent_def)
qed

end

interpretation cb: memo_filter "check_program_id p" "is_compute_budget_program p" for p
  by unfold_locales (simp_all add: is_compute_budget_program_def get_or_insert_with_def)

interpretation bp: memo_filter "check_program_kind p" "get_program_kind p" for p
  by unfold_locales (simp_all add: get_program_kind_def get_or_insert_with_def)

end
