(* ===== verification/Compute_Budget.thy ===== *)
theory Compute_Budget
  imports Builtin_Costs
begin

text \<open>
  The compute budget of a transaction: \<open>compute-budget-instruction\<close>
  (\<open>compute_budget_instruction_details.rs\<close>, \<open>instructions_processor.rs\<close>) collects and checks the
  budget requests of the instructions, and \<open>compute-budget/src/compute_budget_limits.rs\<close> turns a price
  into a fee. The Borsh decoder of the requests is the field \<open>be_parse\<close> of \<open>budget_env\<close>, and
  \<open>TransactionError\<close> has the constructors that the modelled sources use.
\<close>

section \<open>Definitions\<close>

datatype InstructionError = InvalidInstructionData

datatype TransactionError =
  InstructionErrorAt u8 InstructionError
| DuplicateInstruction u8
| InvalidLoadedAccountsDataSizeLimit
| SanitizeFailure
| WouldExceedMaxBlockCostLimit
| WouldExceedMaxVoteCostLimit
| WouldExceedMaxAccountCostLimit
| TxWouldExceedAccountDataBlockLimit
| TxWouldExceedAccountDataTotalLimit
| AccountInUse
| TooManyAccountLocks
| AccountLoadedTwice

text \<open>The requests that the sources match on, and the rest of the external type.\<close>

datatype ComputeBudgetInstruction =
  RequestHeapFrame u32
| SetComputeUnitLimit u32
| SetComputeUnitPrice u64
| SetLoadedAccountsDataSizeLimit u32
| UnusedComputeBudgetInstruction

record budget_env =
  be_ids :: program_ids
  be_sanitize :: sanitize_params
  be_parse :: "bytes \<Rightarrow> ComputeBudgetInstruction option"

record FeatureSet =
  is_active :: "Pubkey \<Rightarrow> bool"
  remove_simple_vote_from_cost_model :: bool
  create_account_allow_prefund :: bool

type_synonym program_instructions = "(Pubkey \<times> SVMInstruction) list"

definition MAX_COMPUTE_UNIT_LIMIT :: u32 where "MAX_COMPUTE_UNIT_LIMIT = 1400000"

definition DEFAULT_INSTRUCTION_COMPUTE_UNIT_LIMIT :: u32 where
  "DEFAULT_INSTRUCTION_COMPUTE_UNIT_LIMIT = 200000"

definition MAX_BUILTIN_ALLOCATION_COMPUTE_UNIT_LIMIT :: u32 where
  "MAX_BUILTIN_ALLOCATION_COMPUTE_UNIT_LIMIT = 3000"

definition MAX_LOADED_ACCOUNTS_DATA_SIZE_BYTES :: u32 where
  "MAX_LOADED_ACCOUNTS_DATA_SIZE_BYTES = 64 * 1024 * 1024"

record ComputeBudgetInstructionDetails =
  requested_compute_unit_limit :: "(u8 \<times> u32) option"
  requested_compute_unit_price :: "(u8 \<times> u64) option"
  details_requested_heap_size :: "(u8 \<times> u32) option"
  requested_loaded_accounts_data_size_limit :: "(u8 \<times> u32) option"
  num_non_compute_budget_instructions :: u16
  num_non_migratable_builtin_instructions :: u16
  num_non_builtin_instructions :: u16
  migrating_builtin :: "u16 list"

definition default_details :: "program_ids \<Rightarrow> ComputeBudgetInstructionDetails" where
  "default_details p =
     \<lparr>requested_compute_unit_limit = None, requested_compute_unit_price = None,
      details_requested_heap_size = None, requested_loaded_accounts_data_size_limit = None,
      num_non_compute_budget_instructions = 0, num_non_migratable_builtin_instructions = 0,
      num_non_builtin_instructions = 0,
      migrating_builtin = replicate (length (MIGRATING_BUILTINS_COSTS p)) 0\<rparr>"

definition process_instruction ::
  "budget_env \<Rightarrow> u8 \<Rightarrow> SVMInstruction \<Rightarrow> ComputeBudgetInstructionDetails \<Rightarrow>
     (TransactionError, ComputeBudgetInstructionDetails) outcome" where
  "process_instruction e index instruction d =
     (case be_parse e (ix_data instruction) of
        Some (RequestHeapFrame bytes) \<Rightarrow>
          if details_requested_heap_size d \<noteq> None then Err (DuplicateInstruction index)
          else Ok (d\<lparr>details_requested_heap_size := Some (index, bytes)\<rparr>)
      | Some (SetComputeUnitLimit units) \<Rightarrow>
          if requested_compute_unit_limit d \<noteq> None then Err (DuplicateInstruction index)
          else Ok (d\<lparr>requested_compute_unit_limit := Some (index, units)\<rparr>)
      | Some (SetComputeUnitPrice micro_lamports) \<Rightarrow>
          if requested_compute_unit_price d \<noteq> None then Err (DuplicateInstruction index)
          else Ok (d\<lparr>requested_compute_unit_price := Some (index, micro_lamports)\<rparr>)
      | Some (SetLoadedAccountsDataSizeLimit bytes) \<Rightarrow>
          if requested_loaded_accounts_data_size_limit d \<noteq> None then Err (DuplicateInstruction index)
          else Ok (d\<lparr>requested_loaded_accounts_data_size_limit := Some (index, bytes)\<rparr>)
      | _ \<Rightarrow> Err (InstructionErrorAt index InvalidInstructionData))"

text \<open>The first loop of \<open>try_from\<close>; \<open>i\<close> is the position of the next instruction.\<close>

fun collect_requests ::
  "budget_env \<Rightarrow> usize \<Rightarrow> bool option list \<Rightarrow> ComputeBudgetInstructionDetails \<Rightarrow> program_instructions \<Rightarrow>
     (TransactionError, ComputeBudgetInstructionDetails) outcome" where
  "collect_requests e i flags d [] = Ok d"
| "collect_requests e i flags d ((program_id, instruction) # rest) =
     (case is_compute_budget_program (be_ids e) (unat (ix_program_id_index instruction)) program_id flags of
        (r, flags') \<Rightarrow> obind r (\<lambda>b.
          if b
          then obind (process_instruction e (byte_of i) instruction d)
                 (\<lambda>d'. collect_requests e (i + 1) flags' d' rest)
          else collect_requests e (i + 1) flags'
                 (d\<lparr>num_non_compute_budget_instructions :=
                      sat_add (num_non_compute_budget_instructions d) 1\<rparr>) rest))"

text \<open>The second loop of \<open>try_from\<close>.\<close>

fun count_builtins ::
  "budget_env \<Rightarrow> ProgramKind option list \<Rightarrow> ComputeBudgetInstructionDetails \<Rightarrow> program_instructions \<Rightarrow>
     (TransactionError, ComputeBudgetInstructionDetails) outcome" where
  "count_builtins e flags d [] = Ok d"
| "count_builtins e flags d ((program_id, instruction) # rest) =
     (case get_program_kind (be_ids e) (unat (ix_program_id_index instruction)) program_id flags of
        (r, flags') \<Rightarrow> obind r (\<lambda>kind.
          obind (case kind of
                   Builtin \<Rightarrow> Ok (d\<lparr>num_non_migratable_builtin_instructions :=
                                   sat_add (num_non_migratable_builtin_instructions d) 1\<rparr>)
                 | NotBuiltin \<Rightarrow> Ok (d\<lparr>num_non_builtin_instructions :=
                                      sat_add (num_non_builtin_instructions d) 1\<rparr>)
                 | MigratingBuiltin i \<Rightarrow>
                     obind (index_or_panic (migrating_builtin d) i) (\<lambda>c.
                       Ok (d\<lparr>migrating_builtin := (migrating_builtin d)[i := sat_add c 1]\<rparr>)))
            (\<lambda>d'. count_builtins e flags' d' rest)))"

definition details_try_from ::
  "budget_env \<Rightarrow> program_instructions \<Rightarrow> (TransactionError, ComputeBudgetInstructionDetails) outcome" where
  "details_try_from e instructions =
     obind (collect_requests e 0 ComputeBudgetProgramIdFilter_new (default_details (be_ids e)) instructions) (\<lambda>d.
       if requested_compute_unit_limit d = None
       then count_builtins e BuiltinProgramsFilter_new d instructions
       else Ok d)"

definition sanitize_requested_heap_size :: "budget_env \<Rightarrow> u32 \<Rightarrow> bool" where
  "sanitize_requested_heap_size e bytes \<longleftrightarrow>
     MIN_HEAP_FRAME_BYTES (be_sanitize e) \<le> bytes \<and> bytes \<le> MAX_HEAP_FRAME_BYTES \<and> unat bytes mod 1024 = 0"

text \<open>
  The fold of \<open>calculate_default_compute_unit_limit\<close>: uses of migrated builtins and of the others.
\<close>

fun migrated_counts ::
  "budget_env \<Rightarrow> FeatureSet \<Rightarrow> usize \<Rightarrow> u16 list \<Rightarrow> u16 \<times> u16 \<Rightarrow> (TransactionError, u16 \<times> u16) outcome" where
  "migrated_counts e fs index [] acc = Ok acc"
| "migrated_counts e fs index (count # counts) (migrated, not_migrated) =
     obind (if 0 < count
            then obind (get_migration_feature_id (be_ids e) index) (\<lambda>f. Ok (is_active fs f))
            else Ok False) (\<lambda>active.
       migrated_counts e fs (index + 1) counts
         (if active then (migrated + count, not_migrated) else (migrated, not_migrated + count)))"

definition calculate_default_compute_unit_limit ::
  "budget_env \<Rightarrow> FeatureSet \<Rightarrow> ComputeBudgetInstructionDetails \<Rightarrow> (TransactionError, u32) outcome" where
  "calculate_default_compute_unit_limit e fs d =
     obind (migrated_counts e fs 0 (migrating_builtin d) (0, 0)) (\<lambda>(num_migrated, num_not_migrated).
     Ok (sat_add
       (sat_mul (sat_add (u16_to_u32 (num_non_migratable_builtin_instructions d)) (u16_to_u32 num_not_migrated))
         MAX_BUILTIN_ALLOCATION_COMPUTE_UNIT_LIMIT)
       (sat_mul (sat_add (u16_to_u32 (num_non_builtin_instructions d)) (u16_to_u32 num_migrated))
         DEFAULT_INSTRUCTION_COMPUTE_UNIT_LIMIT)))"

text \<open>A \<open>NonZeroU32\<close> is the \<open>u32\<close> it holds.\<close>

record ComputeBudgetLimits =
  updated_heap_bytes :: u32
  limits_compute_unit_limit :: u32
  compute_unit_price :: u64
  loaded_accounts_bytes :: u32

definition sanitize_and_convert_to_compute_budget_limits ::
  "budget_env \<Rightarrow> FeatureSet \<Rightarrow> ComputeBudgetInstructionDetails \<Rightarrow> (TransactionError, ComputeBudgetLimits) outcome" where
  "sanitize_and_convert_to_compute_budget_limits e fs d =
     obind (case details_requested_heap_size d of
              Some (index, bytes) \<Rightarrow>
                if sanitize_requested_heap_size e bytes then Ok bytes
                else Err (InstructionErrorAt index InvalidInstructionData)
            | None \<Rightarrow> Ok (MIN_HEAP_FRAME_BYTES (be_sanitize e))) (\<lambda>heap.
     obind (case requested_compute_unit_limit d of
              None \<Rightarrow> calculate_default_compute_unit_limit e fs d
            | Some (_, limit) \<Rightarrow> Ok limit) (\<lambda>limit.
     obind (case requested_loaded_accounts_data_size_limit d of
              Some (_, bytes) \<Rightarrow> if bytes = 0 then Err InvalidLoadedAccountsDataSizeLimit else Ok bytes
            | None \<Rightarrow> Ok MAX_LOADED_ACCOUNTS_DATA_SIZE_BYTES) (\<lambda>loaded.
     Ok \<lparr>updated_heap_bytes = min heap MAX_HEAP_FRAME_BYTES,
         limits_compute_unit_limit = min limit MAX_COMPUTE_UNIT_LIMIT,
         compute_unit_price = (case requested_compute_unit_price d of None \<Rightarrow> 0 | Some (_, price) \<Rightarrow> price),
         loaded_accounts_bytes = min loaded MAX_LOADED_ACCOUNTS_DATA_SIZE_BYTES\<rparr>)))"

definition process_compute_budget_instructions ::
  "budget_env \<Rightarrow> program_instructions \<Rightarrow> FeatureSet \<Rightarrow> (TransactionError, ComputeBudgetLimits) outcome" where
  "process_compute_budget_instructions e instructions fs =
     obind (details_try_from e instructions) (sanitize_and_convert_to_compute_budget_limits e fs)"

definition MICRO_LAMPORTS_PER_LAMPORT :: u64 where "MICRO_LAMPORTS_PER_LAMPORT = 1000000"

definition u64_to_u128 :: "u64 \<Rightarrow> 128 word" where "u64_to_u128 w = ucast w"

definition u32_to_u64 :: "u32 \<Rightarrow> u64" where "u32_to_u64 w = ucast w"

text \<open>The divisor is not zero, so that \<open>checked_div\<close> divides.\<close>

definition get_prioritization_fee :: "u64 \<Rightarrow> u64 \<Rightarrow> u64" where
  "get_prioritization_fee price limit =
     (let micro_lamport_fee = sat_mul (u64_to_u128 price) (u64_to_u128 limit);
          fee = sat_add micro_lamport_fee (u64_to_u128 (sat_sub MICRO_LAMPORTS_PER_LAMPORT 1))
                  div u64_to_u128 MICRO_LAMPORTS_PER_LAMPORT in
      if unat fee < 2 ^ 64 then ucast fee else - 1)"

definition limits_get_prioritization_fee :: "ComputeBudgetLimits \<Rightarrow> u64" where
  "limits_get_prioritization_fee l =
     get_prioritization_fee (compute_unit_price l) (u32_to_u64 (limits_compute_unit_limit l))"

section \<open>Prioritization fee\<close>

lemma unat_u64_to_u128 [simp]: "unat (u64_to_u128 w) = unat w"
  using unsigned_less [of w, where 'a = nat]
  by (simp add: u64_to_u128_def unsigned_ucast_eq take_bit_nat_eq_self)

lemma unat_u32_to_u64 [simp]: "unat (u32_to_u64 w) = unat w"
  using unsigned_less [of w, where 'a = nat]
  by (simp add: u32_to_u64_def unsigned_ucast_eq take_bit_nat_eq_self)

lemma u64_less [simp]: "unat w < 18446744073709551616" for w :: u64
  using unsigned_less [of w, where 'a = nat] by simp

lemma u64_le [simp]: "unat w \<le> 18446744073709551615" for w :: u64
  using u64_less [of w] by linarith

lemma fee_exact:
  "unat (get_prioritization_fee price limit) =
     min (2 ^ 64 - 1) ((unat price * unat limit + 999999) div 1000000)"
proof -
  have "unat price * unat limit \<le> 18446744073709551615 * 18446744073709551615"
    by (intro mult_le_mono) simp_all
  then have "unat (sat_add (sat_mul (u64_to_u128 price) (u64_to_u128 limit))
      (u64_to_u128 (sat_sub MICRO_LAMPORTS_PER_LAMPORT 1))) = unat price * unat limit + 999999"
    by (simp add: unat_sat_add unat_sat_mul unat_sat_sub MICRO_LAMPORTS_PER_LAMPORT_def)
  then show ?thesis
    by (simp add: get_prioritization_fee_def Let_def unat_div MICRO_LAMPORTS_PER_LAMPORT_def unat_max
        unsigned_ucast_eq take_bit_nat_eq_self)
qed

text \<open>
  C18: the prioritization fee is the compute unit price times the compute unit limit in micro-lamports,
  rounded up to whole lamports, for all \<open>u64\<close> arguments; a fee that does not fit is capped at \<open>u64::MAX\<close>.
\<close>

theorem prioritization_fee_exact:
  "unat (limits_get_prioritization_fee l) =
     min (2 ^ 64 - 1) ((unat (compute_unit_price l) * unat (limits_compute_unit_limit l) + 999999) div 1000000)"
  by (simp add: limits_get_prioritization_fee_def fee_exact)

section \<open>Budget requests of a transaction\<close>

type_synonym request = "u8 \<times> ComputeBudgetInstruction option"

definition request_kind :: "request \<Rightarrow> nat option" where
  "request_kind r =
     (case snd r of
        Some (RequestHeapFrame _) \<Rightarrow> Some 2 | Some (SetComputeUnitLimit _) \<Rightarrow> Some 3
      | Some (SetComputeUnitPrice _) \<Rightarrow> Some 4 | Some (SetLoadedAccountsDataSizeLimit _) \<Rightarrow> Some 5
      | _ \<Rightarrow> None)"

fun budget_requests :: "budget_env \<Rightarrow> usize \<Rightarrow> program_instructions \<Rightarrow> request list" where
  "budget_requests e i [] = []"
| "budget_requests e i ((program_id, ix) # rest) =
     (if program_id = compute_budget_id (be_ids e) then [(byte_of i, be_parse e (ix_data ix))] else [])
       @ budget_requests e (i + 1) rest"

text \<open>Requests are acceptable when each is one of the four known kinds and no kind occurs twice.\<close>

definition requests_ok :: "request list \<Rightarrow> bool" where
  "requests_ok rs \<longleftrightarrow> None \<notin> request_kind ` set rs \<and> distinct (map request_kind rs)"

definition represents :: "ComputeBudgetInstructionDetails \<Rightarrow> request list \<Rightarrow> bool" where
  "represents d rs \<longleftrightarrow> requests_ok rs \<and>
     (\<forall>i b. details_requested_heap_size d = Some (i, b) \<longleftrightarrow> (i, Some (RequestHeapFrame b)) \<in> set rs) \<and>
     (\<forall>i b. requested_compute_unit_limit d = Some (i, b) \<longleftrightarrow> (i, Some (SetComputeUnitLimit b)) \<in> set rs) \<and>
     (\<forall>i b. requested_compute_unit_price d = Some (i, b) \<longleftrightarrow> (i, Some (SetComputeUnitPrice b)) \<in> set rs) \<and>
     (\<forall>i b. requested_loaded_accounts_data_size_limit d = Some (i, b) \<longleftrightarrow>
        (i, Some (SetLoadedAccountsDataSizeLimit b)) \<in> set rs)"

text \<open>The error for the first request that is unknown or repeats a kind.\<close>

definition first_offence :: "request list \<Rightarrow> TransactionError \<Rightarrow> bool" where
  "first_offence rs err \<longleftrightarrow>
     (\<exists>pre r post. rs = pre @ r # post \<and> requests_ok pre \<and>
        (if request_kind r = None then err = InstructionErrorAt (fst r) InvalidInstructionData
         else request_kind r \<in> request_kind ` set pre \<and> err = DuplicateInstruction (fst r)))"

lemma request_kind_simps [simp]:
  "request_kind (i, Some (RequestHeapFrame b)) = Some 2"
  "request_kind (i, Some (SetComputeUnitLimit b)) = Some 3"
  "request_kind (i, Some (SetComputeUnitPrice c)) = Some 4"
  "request_kind (i, Some (SetLoadedAccountsDataSizeLimit b)) = Some 5"
  "request_kind (i, Some UnusedComputeBudgetInstruction) = None"
  "request_kind (i, None) = None"
  by (simp_all add: request_kind_def)

lemma request_kind_iffs:
  "request_kind r = Some 2 \<longleftrightarrow> (\<exists>b. snd r = Some (RequestHeapFrame b))"
  "request_kind r = Some 3 \<longleftrightarrow> (\<exists>b. snd r = Some (SetComputeUnitLimit b))"
  "request_kind r = Some 4 \<longleftrightarrow> (\<exists>b. snd r = Some (SetComputeUnitPrice b))"
  "request_kind r = Some 5 \<longleftrightarrow> (\<exists>b. snd r = Some (SetLoadedAccountsDataSizeLimit b))"
  by (auto simp: request_kind_def split: option.split ComputeBudgetInstruction.split)

lemma some_kind_iff: "Some k \<in> request_kind ` set rs \<longleftrightarrow> (\<exists>r \<in> set rs. request_kind r = Some k)"
  by force

lemma taken_iff:
  assumes "\<forall>i b. x = Some (i, b) \<longleftrightarrow> (i, Some (C b)) \<in> S"
  shows "x \<noteq> None \<longleftrightarrow> (\<exists>r \<in> S. \<exists>b. snd r = Some (C b))"
proof
  assume "x \<noteq> None"
  then obtain i b where "x = Some (i, b)" by (cases x) auto
  then have "(i, Some (C b)) \<in> S" using assms by blast
  then show "\<exists>r \<in> S. \<exists>b. snd r = Some (C b)" by force
next
  assume "\<exists>r \<in> S. \<exists>b. snd r = Some (C b)"
  then obtain i b where "(i, Some (C b)) \<in> S" by force
  then show "x \<noteq> None" using assms by blast
qed

lemma represents_taken:
  assumes "represents d rs"
  shows "details_requested_heap_size d \<noteq> None \<longleftrightarrow> Some 2 \<in> request_kind ` set rs"
    and "requested_compute_unit_limit d \<noteq> None \<longleftrightarrow> Some 3 \<in> request_kind ` set rs"
    and "requested_compute_unit_price d \<noteq> None \<longleftrightarrow> Some 4 \<in> request_kind ` set rs"
    and "requested_loaded_accounts_data_size_limit d \<noteq> None \<longleftrightarrow> Some 5 \<in> request_kind ` set rs"
  using assms unfolding some_kind_iff request_kind_iffs represents_def by (blast intro!: taken_iff)+

lemma requests_ok_snoc:
  "requests_ok (rs @ [r]) \<longleftrightarrow>
     requests_ok rs \<and> request_kind r \<noteq> None \<and> request_kind r \<notin> request_kind ` set rs"
  by (auto simp: requests_ok_def)

lemma represents_step:
  assumes "represents d rs"
  shows "details_requested_heap_size d = None \<Longrightarrow>
      represents (d\<lparr>details_requested_heap_size := Some (i, b)\<rparr>) (rs @ [(i, Some (RequestHeapFrame b))])"
    and "requested_compute_unit_limit d = None \<Longrightarrow>
      represents (d\<lparr>requested_compute_unit_limit := Some (i, b)\<rparr>) (rs @ [(i, Some (SetComputeUnitLimit b))])"
    and "requested_compute_unit_price d = None \<Longrightarrow>
      represents (d\<lparr>requested_compute_unit_price := Some (i, c)\<rparr>) (rs @ [(i, Some (SetComputeUnitPrice c))])"
    and "requested_loaded_accounts_data_size_limit d = None \<Longrightarrow>
      represents (d\<lparr>requested_loaded_accounts_data_size_limit := Some (i, b)\<rparr>)
        (rs @ [(i, Some (SetLoadedAccountsDataSizeLimit b))])"
proof -
  note r = assms [unfolded represents_def] and taken = represents_taken [OF assms]
  show "represents (d\<lparr>details_requested_heap_size := Some (i, b)\<rparr>) (rs @ [(i, Some (RequestHeapFrame b))])"
    if "details_requested_heap_size d = None"
    using r that taken(1) unfolding represents_def requests_ok_snoc by simp blast
  show "represents (d\<lparr>requested_compute_unit_limit := Some (i, b)\<rparr>) (rs @ [(i, Some (SetComputeUnitLimit b))])"
    if "requested_compute_unit_limit d = None"
    using r that taken(2) unfolding represents_def requests_ok_snoc by simp blast
  show "represents (d\<lparr>requested_compute_unit_price := Some (i, c)\<rparr>) (rs @ [(i, Some (SetComputeUnitPrice c))])"
    if "requested_compute_unit_price d = None"
    using r that taken(3) unfolding represents_def requests_ok_snoc by simp blast
  show "represents (d\<lparr>requested_loaded_accounts_data_size_limit := Some (i, b)\<rparr>)
      (rs @ [(i, Some (SetLoadedAccountsDataSizeLimit b))])"
    if "requested_loaded_accounts_data_size_limit d = None"
    using r that taken(4) unfolding represents_def requests_ok_snoc by simp blast
qed

definition same_counts :: "ComputeBudgetInstructionDetails \<Rightarrow> ComputeBudgetInstructionDetails \<Rightarrow> bool" where
  "same_counts d d' \<longleftrightarrow>
     num_non_migratable_builtin_instructions d' = num_non_migratable_builtin_instructions d \<and>
     num_non_builtin_instructions d' = num_non_builtin_instructions d \<and>
     migrating_builtin d' = migrating_builtin d"

lemma process_instruction_step:
  assumes "represents d rs" and "r = (index, be_parse e (ix_data ix))"
  shows "if request_kind r = None
      then process_instruction e index ix d = Err (InstructionErrorAt index InvalidInstructionData)
    else if request_kind r \<in> request_kind ` set rs
      then process_instruction e index ix d = Err (DuplicateInstruction index)
    else \<exists>d'. process_instruction e index ix d = Ok d' \<and> represents d' (rs @ [r]) \<and> same_counts d d'"
proof (cases "request_kind r = None")
  case True
  have "process_instruction e index ix d = Err (InstructionErrorAt index InvalidInstructionData)"
  proof (cases "be_parse e (ix_data ix)")
    case (Some c)
    with True show ?thesis unfolding assms(2) by (cases c) (simp_all add: process_instruction_def)
  qed (simp add: process_instruction_def)
  with True show ?thesis by simp
next
  case False
  then obtain c where c: "be_parse e (ix_data ix) = Some c" using assms(2)
    by (cases "be_parse e (ix_data ix)") (simp_all add: request_kind_def)
  note taken = represents_taken [OF assms(1)] and step = represents_step [OF assms(1)]
  show ?thesis
  proof (cases c)
    case (RequestHeapFrame b)
    then show ?thesis using c step(1) [of index b]
      by (cases "details_requested_heap_size d = None") (simp_all add: assms(2) process_instruction_def same_counts_def taken(1) [symmetric])
  next
    case (SetComputeUnitLimit b)
    then show ?thesis using c step(2) [of index b]
      by (cases "requested_compute_unit_limit d = None") (simp_all add: assms(2) process_instruction_def same_counts_def taken(2) [symmetric])
  next
    case (SetComputeUnitPrice b)
    then show ?thesis using c step(3) [of index b]
      by (cases "requested_compute_unit_price d = None") (simp_all add: assms(2) process_instruction_def same_counts_def taken(3) [symmetric])
  next
    case (SetLoadedAccountsDataSizeLimit b)
    then show ?thesis using c step(4) [of index b]
      by (cases "requested_loaded_accounts_data_size_limit d = None") (simp_all add: assms(2) process_instruction_def same_counts_def taken(4) [symmetric])
  qed (use False c assms(2) in \<open>simp add: request_kind_def\<close>)
qed

definition consistent :: "(usize \<Rightarrow> Pubkey) \<Rightarrow> program_instructions \<Rightarrow> bool" where
  "consistent keys ixs \<longleftrightarrow> (\<forall>(program_id, ix) \<in> set ixs. keys (unat (ix_program_id_index ix)) = program_id)"

lemma consistent_Cons [simp]:
  "consistent keys ((program_id, ix) # rest) \<longleftrightarrow>
     keys (unat (ix_program_id_index ix)) = program_id \<and> consistent keys rest"
  by (simp add: consistent_def)

lemma collect_requests_spec:
  assumes "coherent (check_program_id (be_ids e)) keys flags" and "consistent keys ixs" and "represents d rs"
  shows "case collect_requests e i flags d ixs of
      Ok d' \<Rightarrow> represents d' (rs @ budget_requests e i ixs) \<and> same_counts d d'
    | Err err \<Rightarrow> first_offence (rs @ budget_requests e i ixs) err
    | _ \<Rightarrow> False"
  using assms
proof (induction ixs arbitrary: i flags d rs)
  case Nil
  then show ?case by (simp add: same_counts_def)
next
  case (Cons pi rest)
  obtain program_id ix where pi: "pi = (program_id, ix)" by (cases pi)
  have k: "keys (unat (ix_program_id_index ix)) = program_id" "consistent keys rest"
    using Cons.prems(2) by (simp_all add: pi)
  obtain flags' where f: "is_compute_budget_program (be_ids e) (unat (ix_program_id_index ix)) program_id flags =
      (Ok (check_program_id (be_ids e) program_id) :: (TransactionError, bool) outcome, flags')" "coherent (check_program_id (be_ids e)) keys flags'"
    using cb.get_coherent [OF Cons.prems(1) _ k(1)] by (auto simp: FILTER_SIZE_def)
  show ?case
  proof (cases "program_id = compute_budget_id (be_ids e)")
    case False
    let ?d = "d\<lparr>num_non_compute_budget_instructions := sat_add (num_non_compute_budget_instructions d) 1\<rparr>"
    have "represents ?d rs" using Cons.prems(3) by (simp add: represents_def)
    note ih = Cons.IH [OF f(2) k(2) this, of "i + 1"]
    have run: "collect_requests e i flags d (pi # rest) = collect_requests e (i + 1) flags' ?d rest"
      using f(1) False by (simp add: pi check_program_id_eq)
    have rs: "budget_requests e i (pi # rest) = budget_requests e (i + 1) rest" using False by (simp add: pi)
    have sc: "same_counts ?d = same_counts d" by (simp add: same_counts_def fun_eq_iff)
    from ih show ?thesis unfolding run rs sc .
  next
    case True
    let ?r = "(byte_of i, be_parse e (ix_data ix))"
    note step = process_instruction_step [OF Cons.prems(3), of ?r "byte_of i" e ix]
    have run: "collect_requests e i flags d (pi # rest) =
        obind (process_instruction e (byte_of i) ix d) (\<lambda>d'. collect_requests e (i + 1) flags' d' rest)"
      using f(1) True by (simp add: pi check_program_id_eq)
    have rs: "rs @ budget_requests e i (pi # rest) = rs @ ?r # budget_requests e (i + 1) rest"
      using True by (simp add: pi)
    have ok: "requests_ok rs" using Cons.prems(3) by (simp add: represents_def)
    show ?thesis
    proof (cases "request_kind ?r = None \<or> request_kind ?r \<in> request_kind ` set rs")
      case True
      then obtain err where err: "process_instruction e (byte_of i) ix d = Err err"
        "if request_kind ?r = None then err = InstructionErrorAt (byte_of i) InvalidInstructionData
         else request_kind ?r \<in> request_kind ` set rs \<and> err = DuplicateInstruction (byte_of i)"
        using step by (auto split: if_splits)
      have "first_offence (rs @ ?r # budget_requests e (i + 1) rest) err"
        unfolding first_offence_def using err(2) ok by (intro exI conjI) (rule refl, simp_all)
      then show ?thesis unfolding run rs err(1) by simp
    next
      case False
      then obtain d' where d': "process_instruction e (byte_of i) ix d = Ok d'" "represents d' (rs @ [?r])"
        "same_counts d d'" using step by auto
      from Cons.IH [OF f(2) k(2) d'(2), of "i + 1"] show ?thesis
        unfolding run rs d'(1) using d'(3)
        by (auto simp: same_counts_def split: outcome.splits)
    qed
  qed
qed

section \<open>The default compute unit limit\<close>

text \<open>Whether a program counts as builtin: it is in the table and has not migrated.\<close>

definition still_builtin :: "budget_env \<Rightarrow> FeatureSet \<Rightarrow> Pubkey \<Rightarrow> bool" where
  "still_builtin e fs program_id \<longleftrightarrow>
     (case BUILTIN_INSTRUCTION_COSTS (be_ids e) program_id of
        None \<Rightarrow> False
      | Some NotMigrating \<Rightarrow> True
      | Some (Migrating m) \<Rightarrow> \<not> is_active fs (mb_core_bpf_migration_feature m))"

definition kind_count :: "budget_env \<Rightarrow> ProgramKind \<Rightarrow> program_instructions \<Rightarrow> nat" where
  "kind_count e kind ixs = length (filter (\<lambda>(program_id, _). check_program_kind (be_ids e) program_id = kind) ixs)"

lemma kind_count_Cons [simp]:
  "kind_count e kind ((program_id, ix) # rest) =
     (if check_program_kind (be_ids e) program_id = kind then 1 else 0) + kind_count e kind rest"
  by (simp add: kind_count_def)

lemma kind_count_Nil [simp]: "kind_count e kind [] = 0"
  by (simp add: kind_count_def)

lemma unat_sat_inc: "unat c + 1 < 65536 \<Longrightarrow> unat (sat_add c 1) = unat c + 1" for c :: u16
  by (simp add: unat_sat_add)

lemma program_kinds:
  "check_program_kind (be_ids e) program_id \<in> {NotBuiltin, Builtin, MigratingBuiltin 0}"
  using migrating_position_valid [of "be_ids e" program_id]
  by (auto simp: check_program_kind_eq MIGRATING_BUILTINS_COSTS_def split: option.split BuiltinCost.split)

definition counts_are :: "ComputeBudgetInstructionDetails \<Rightarrow> nat \<Rightarrow> nat \<Rightarrow> nat \<Rightarrow> bool" where
  "counts_are d b n m \<longleftrightarrow>
     unat (num_non_migratable_builtin_instructions d) = b \<and> unat (num_non_builtin_instructions d) = n \<and>
     (\<exists>c. migrating_builtin d = [c] \<and> unat c = m)"

lemma count_builtins_spec:
  assumes "coherent (check_program_kind (be_ids e)) keys flags" and "consistent keys ixs"
    and "counts_are d b n m" and "b + n + m + length ixs < 65536"
  shows "\<exists>d'. count_builtins e flags d ixs = Ok d' \<and>
    counts_are d' (b + kind_count e Builtin ixs) (n + kind_count e NotBuiltin ixs)
      (m + kind_count e (MigratingBuiltin 0) ixs) \<and>
    (\<forall>rs. represents d' rs = represents d rs)"
  using assms
proof (induction ixs arbitrary: flags d b n m)
  case (Cons pi rest)
  obtain program_id ix where pi: "pi = (program_id, ix)" by (cases pi)
  let ?kind = "check_program_kind (be_ids e) program_id"
  have k: "keys (unat (ix_program_id_index ix)) = program_id" "consistent keys rest"
    using Cons.prems(2) by (simp_all add: pi)
  obtain flags' where f: "get_program_kind (be_ids e) (unat (ix_program_id_index ix)) program_id flags =
      (Ok ?kind :: (TransactionError, ProgramKind) outcome, flags')"
    and fc: "coherent (check_program_kind (be_ids e)) keys flags'"
    using bp.get_coherent [OF Cons.prems(1) _ k(1)] by (auto simp: FILTER_SIZE_def)
  note ih = Cons.IH [OF fc k(2)]
  consider "?kind = NotBuiltin" | "?kind = Builtin" | "?kind = MigratingBuiltin 0"
    using program_kinds [of e program_id] by blast
  then show ?case
  proof cases
    case 1
    let ?d = "d\<lparr>num_non_builtin_instructions := sat_add (num_non_builtin_instructions d) 1\<rparr>"
    have "counts_are ?d b (n + 1) m"
      using Cons.prems(3,4) by (simp add: counts_are_def unat_sat_inc)
    moreover have "b + (n + 1) + m + length rest < 65536" using Cons.prems(4) by simp
    ultimately show ?thesis using ih [of ?d b "n + 1" m] f 1 by (simp add: pi represents_def)
  next
    case 2
    let ?d = "d\<lparr>num_non_migratable_builtin_instructions := sat_add (num_non_migratable_builtin_instructions d) 1\<rparr>"
    have "counts_are ?d (b + 1) n m"
      using Cons.prems(3,4) by (simp add: counts_are_def unat_sat_inc)
    moreover have "b + 1 + n + m + length rest < 65536" using Cons.prems(4) by simp
    ultimately show ?thesis using ih [of ?d "b + 1" n m] f 2 by (simp add: pi represents_def)
  next
    case 3
    obtain c where c: "migrating_builtin d = [c]" "unat c = m" using Cons.prems(3) by (auto simp: counts_are_def)
    let ?d = "d\<lparr>migrating_builtin := [sat_add c 1]\<rparr>"
    have "counts_are ?d b n (m + 1)"
      using Cons.prems(3,4) c by (simp add: counts_are_def unat_sat_inc)
    moreover have "b + n + (m + 1) + length rest < 65536" using Cons.prems(4) by simp
    ultimately show ?thesis using ih [of ?d b n "m + 1"] f 3 c(1)
      by (simp add: pi index_or_panic_def represents_def)
  qed
qed simp

lemma migrating_feature:
  assumes "BUILTIN_INSTRUCTION_COSTS p program_id = Some (Migrating m)"
  shows "mb_core_bpf_migration_feature m = bls_pubkey_management_in_vote_account_id p" and "mb_position m = 0"
  using map_of_SomeD [OF assms [unfolded builtin_costs_map_of]]
  by (auto simp: builtin_entries_def MIGRATING_BUILTINS_COSTS_def NON_MIGRATING_BUILTINS_COSTS_def)

abbreviation migrated :: "budget_env \<Rightarrow> FeatureSet \<Rightarrow> bool" where
  "migrated e fs \<equiv> is_active fs (bls_pubkey_management_in_vote_account_id (be_ids e))"

lemma still_builtin_kind:
  "still_builtin e fs program_id \<longleftrightarrow>
     check_program_kind (be_ids e) program_id = Builtin \<or>
     check_program_kind (be_ids e) program_id = MigratingBuiltin 0 \<and> \<not> migrated e fs"
  using migrating_feature [of "be_ids e" program_id]
  by (auto simp: still_builtin_def check_program_kind_eq split: option.split BuiltinCost.split)

definition num_builtin :: "budget_env \<Rightarrow> FeatureSet \<Rightarrow> program_instructions \<Rightarrow> nat" where
  "num_builtin e fs ixs = length (filter (\<lambda>(program_id, _). still_builtin e fs program_id) ixs)"

lemma num_builtin_kinds:
  "num_builtin e fs ixs = kind_count e Builtin ixs + (if migrated e fs then 0 else kind_count e (MigratingBuiltin 0) ixs)"
  "length ixs = num_builtin e fs ixs + kind_count e NotBuiltin ixs
     + (if migrated e fs then kind_count e (MigratingBuiltin 0) ixs else 0)"
proof (induction ixs)
  case (Cons pi rest)
  { case 1 then show ?case using Cons program_kinds [of e "fst pi"]
      by (cases pi) (auto simp: num_builtin_def still_builtin_kind) }
  { case 2 then show ?case using Cons program_kinds [of e "fst pi"]
      by (cases pi) (auto simp: num_builtin_def still_builtin_kind) }
qed (simp_all add: num_builtin_def)

lemma unat_u16_to_u32 [simp]: "unat (u16_to_u32 w) = unat w"
  using unsigned_less [of w, where 'a = nat]
  by (simp add: u16_to_u32_def unsigned_ucast_eq take_bit_nat_eq_self)

lemma default_limit_spec:
  assumes "counts_are d b n m" and "b + n + m \<le> 64"
  shows "\<exists>l. calculate_default_compute_unit_limit e fs d = Ok l \<and>
    unat l = 3000 * (b + (if migrated e fs then 0 else m)) + 200000 * (n + (if migrated e fs then m else 0))"
proof -
  obtain c where c: "migrating_builtin d = [c]" "unat c = m" using assms(1) by (auto simp: counts_are_def)
  have cs: "unat (num_non_migratable_builtin_instructions d) = b" "unat (num_non_builtin_instructions d) = n"
    using assms(1) by (simp_all add: counts_are_def)
  have id: "get_migration_feature_id (be_ids e) 0 =
      (Ok (bls_pubkey_management_in_vote_account_id (be_ids e)) :: (TransactionError, Pubkey) outcome)"
    by (simp add: get_migration_feature_id_def MIGRATING_BUILTINS_COSTS_def index_or_panic_def
        core_bpf_migration_feature_def)
  have "migrated_counts e fs 0 (migrating_builtin d) (0, 0) = Ok (if migrated e fs then (c, 0) else (0, c))"
    using c by (auto simp: id word_gt_0)
  then show ?thesis
    using assms(2) c(2) cs
    by (simp add: calculate_default_compute_unit_limit_def MAX_BUILTIN_ALLOCATION_COMPUTE_UNIT_LIMIT_def
        DEFAULT_INSTRUCTION_COMPUTE_UNIT_LIMIT_def unat_sat_add unat_sat_mul)
qed

section \<open>Limits of a transaction\<close>

abbreviation tx_requests :: "budget_env \<Rightarrow> program_instructions \<Rightarrow> request list" where
  "tx_requests e ixs \<equiv> budget_requests e 0 ixs"

definition default_limit :: "budget_env \<Rightarrow> FeatureSet \<Rightarrow> program_instructions \<Rightarrow> nat" where
  "default_limit e fs ixs = 3000 * num_builtin e fs ixs + 200000 * (length ixs - num_builtin e fs ixs)"

lemma represents_default: "represents (default_details p) []"
  by (simp add: represents_def requests_ok_def default_details_def)

lemma counts_default: "counts_are (default_details p) 0 0 0"
  by (simp add: counts_are_def default_details_def MIGRATING_BUILTINS_COSTS_def)

lemma try_from_cases:
  assumes "consistent keys ixs" and "length ixs \<le> 64"
  obtains d where "details_try_from e ixs = Ok d" "represents d (tx_requests e ixs)"
    "requested_compute_unit_limit d = None \<Longrightarrow>
       \<exists>l. calculate_default_compute_unit_limit e fs d = Ok l \<and> unat l = default_limit e fs ixs"
  | err where "details_try_from e ixs = Err err" "first_offence (tx_requests e ixs) err"
proof (cases "collect_requests e 0 ComputeBudgetProgramIdFilter_new (default_details (be_ids e)) ixs")
  case (Ok d)
  have d: "represents d (tx_requests e ixs)" "counts_are d 0 0 0"
    using collect_requests_spec [OF coherent_new assms(1) represents_default, of e 0 "be_ids e"] Ok
      counts_default [of "be_ids e"]
    by (simp_all add: ComputeBudgetProgramIdFilter_new_def same_counts_def counts_are_def)
  show thesis
  proof (cases "requested_compute_unit_limit d = None")
    case False
    then show thesis using that(1) [of d] Ok d(1) by (auto simp: details_try_from_def)
  next
    case True
    obtain d' where d': "count_builtins e BuiltinProgramsFilter_new d ixs = Ok d'"
      "counts_are d' (kind_count e Builtin ixs) (kind_count e NotBuiltin ixs) (kind_count e (MigratingBuiltin 0) ixs)"
      "represents d' (tx_requests e ixs)"
      using count_builtins_spec [OF coherent_new assms(1) d(2), where e = e] assms(2) d(1)
      by (auto simp: BuiltinProgramsFilter_new_def)
    have n: "kind_count e Builtin ixs + (if migrated e fs then 0 else kind_count e (MigratingBuiltin 0) ixs) =
        num_builtin e fs ixs"
      "kind_count e NotBuiltin ixs + (if migrated e fs then kind_count e (MigratingBuiltin 0) ixs else 0) =
        length ixs - num_builtin e fs ixs"
      using num_builtin_kinds [where e = e and fs = fs and ixs = ixs] by simp_all
    have "kind_count e Builtin ixs + kind_count e NotBuiltin ixs + kind_count e (MigratingBuiltin 0) ixs \<le> 64"
      using num_builtin_kinds [where e = e and fs = fs and ixs = ixs] assms(2) by (simp split: if_splits)
    from default_limit_spec [OF d'(2) this, of e fs, unfolded n] show thesis
      using that(1) [of d'] Ok True d' by (simp add: details_try_from_def default_limit_def)
  qed
next
  case (Err err)
  then show thesis
    using collect_requests_spec [OF coherent_new assms(1) represents_default, of e 0 "be_ids e"] that(2) [of err]
    by (simp add: ComputeBudgetProgramIdFilter_new_def details_try_from_def)
qed (use collect_requests_spec [OF coherent_new assms(1) represents_default, of e 0 "be_ids e"] in
  \<open>simp_all add: ComputeBudgetProgramIdFilter_new_def\<close>)

lemma first_offence_not_ok: "first_offence rs err \<Longrightarrow> \<not> requests_ok rs"
  unfolding first_offence_def requests_ok_def by (force split: if_splits)

definition sample_ids :: program_ids where
  "sample_ids = \<lparr>vote_id = [1], system_program_id = [2], compute_budget_id = [3],
     bpf_loader_upgradeable_id = [4], bpf_loader_deprecated_id = [5], bpf_loader_id = [6], loader_v4_id = [7],
     secp256k1_program_id = [8], ed25519_program_id = [9], secp256r1_program_id = [10],
     bls_pubkey_management_in_vote_account_id = [11]\<rparr>"

definition sample_env :: budget_env where
  "sample_env = \<lparr>be_ids = sample_ids,
     be_sanitize = \<lparr>v1_MAX_TRANSACTION_SIZE = 4096, MIN_HEAP_FRAME_BYTES = 32768\<rparr>,
     be_parse = (\<lambda>data. if data = [2] then Some (SetComputeUnitLimit 5000) else None)\<rparr>"

definition sample_ixs :: program_instructions where
  "sample_ixs = [([2], \<lparr>ix_program_id_index = 1, ix_accounts = [], ix_data = []\<rparr>),
     ([3], \<lparr>ix_program_id_index = 2, ix_accounts = [], ix_data = [2]\<rparr>)]"

definition sample_keys :: "usize \<Rightarrow> Pubkey" where
  "sample_keys i = (if i = 2 then [3] else [2])"

definition sample_features :: FeatureSet where
  "sample_features = \<lparr>is_active = (\<lambda>_. False), remove_simple_vote_from_cost_model = False,
     create_account_allow_prefund = False\<rparr>"

lemma sample_consistent: "consistent sample_keys sample_ixs"
  by (simp add: consistent_def sample_keys_def sample_ixs_def)

lemma sample_requests: "tx_requests sample_env sample_ixs = [(byte_of 1, Some (SetComputeUnitLimit 5000))]"
  by (simp add: sample_env_def sample_ixs_def sample_ids_def)

lemma sample_length: "length sample_ixs \<le> 64"
  by (simp add: sample_ixs_def)

text \<open>
  C17: collecting the budget requests of a transaction never panics. It succeeds exactly when every
  request is one of the four known kinds and no kind is repeated, and then records each request with its
  position; otherwise it reports the first instruction that is malformed or repeats a kind.
\<close>

theorem try_from_requests_exact:
  assumes "consistent keys ixs" and "length ixs \<le> 64"
  shows "case details_try_from e ixs of
      Ok d \<Rightarrow> requests_ok (tx_requests e ixs) \<and> represents d (tx_requests e ixs)
    | Err err \<Rightarrow> \<not> requests_ok (tx_requests e ixs) \<and> first_offence (tx_requests e ixs) err
    | _ \<Rightarrow> False"
  by (cases rule: try_from_cases [OF assms, where e = e])
    (auto simp: represents_def first_offence_not_ok)

theorem try_from_requests_exact_witness:
  "\<exists>d. details_try_from sample_env sample_ixs = Ok d \<and> requested_compute_unit_limit d = Some (byte_of 1, 5000)"
  using try_from_requests_exact [OF sample_consistent sample_length, of sample_env]
  by (cases "details_try_from sample_env sample_ixs") (auto simp: sample_requests represents_def requests_ok_def)

text \<open>
  What a transaction may request, and the limits it then gets.
\<close>

definition budget_valid :: "budget_env \<Rightarrow> program_instructions \<Rightarrow> bool" where
  "budget_valid e ixs \<longleftrightarrow> requests_ok (tx_requests e ixs) \<and>
     (\<forall>i b. (i, Some (RequestHeapFrame b)) \<in> set (tx_requests e ixs) \<longrightarrow>
        MIN_HEAP_FRAME_BYTES (be_sanitize e) \<le> b \<and> b \<le> 262144 \<and> 1024 dvd unat b) \<and>
     (\<forall>i. (i, Some (SetLoadedAccountsDataSizeLimit 0)) \<notin> set (tx_requests e ixs))"

text \<open>\<open>granted C v dflt rs\<close>: \<open>v\<close> is the value requested with \<open>C\<close>, or \<open>dflt\<close> when there is none.\<close>

definition granted :: "('w \<Rightarrow> ComputeBudgetInstruction) \<Rightarrow> 'w \<Rightarrow> bool \<Rightarrow> request list \<Rightarrow> bool" where
  "granted C v dflt rs \<longleftrightarrow>
     (if \<exists>i b. (i, Some (C b)) \<in> set rs then \<exists>i. (i, Some (C v)) \<in> set rs else dflt)"

definition budget_limits_ok :: "budget_env \<Rightarrow> FeatureSet \<Rightarrow> program_instructions \<Rightarrow> ComputeBudgetLimits \<Rightarrow> bool" where
  "budget_limits_ok e fs ixs l \<longleftrightarrow>
     granted RequestHeapFrame (updated_heap_bytes l)
       (updated_heap_bytes l = min (MIN_HEAP_FRAME_BYTES (be_sanitize e)) 262144) (tx_requests e ixs) \<and>
     (\<exists>u. granted SetComputeUnitLimit u (unat u = default_limit e fs ixs) (tx_requests e ixs) \<and>
        unat (limits_compute_unit_limit l) = min 1400000 (unat u)) \<and>
     granted SetComputeUnitPrice (compute_unit_price l) (compute_unit_price l = 0) (tx_requests e ixs) \<and>
     (\<exists>b. granted SetLoadedAccountsDataSizeLimit b (b = 67108864) (tx_requests e ixs) \<and>
        loaded_accounts_bytes l = min b 67108864) \<and>
     loaded_accounts_bytes l \<noteq> 0"

lemma granted_field:
  assumes "\<forall>i b. x = Some (i, b) \<longleftrightarrow> (i, Some (C b)) \<in> set rs"
  shows "x = None \<Longrightarrow> granted C v dflt rs = dflt" and "x = Some (i, v) \<Longrightarrow> granted C v dflt rs"
  using assms unfolding granted_def by (simp_all, metis)

lemma heap_request_spec:
  assumes "represents d rs"
  shows "case (case details_requested_heap_size d of
        Some (index, bytes) \<Rightarrow>
          if sanitize_requested_heap_size e bytes then Ok bytes
          else Err (InstructionErrorAt index InvalidInstructionData)
      | None \<Rightarrow> Ok (MIN_HEAP_FRAME_BYTES (be_sanitize e))) of
    Ok h \<Rightarrow> granted RequestHeapFrame (min h 262144) (min h 262144 = min (MIN_HEAP_FRAME_BYTES (be_sanitize e)) 262144) rs \<and>
      (\<forall>i b. (i, Some (RequestHeapFrame b)) \<in> set rs \<longrightarrow>
        MIN_HEAP_FRAME_BYTES (be_sanitize e) \<le> b \<and> b \<le> 262144 \<and> 1024 dvd unat b)
  | Err _ \<Rightarrow> \<not> (\<forall>i b. (i, Some (RequestHeapFrame b)) \<in> set rs \<longrightarrow>
        MIN_HEAP_FRAME_BYTES (be_sanitize e) \<le> b \<and> b \<le> 262144 \<and> 1024 dvd unat b)
  | _ \<Rightarrow> False"
proof -
  have f: "\<forall>i b. details_requested_heap_size d = Some (i, b) \<longleftrightarrow> (i, Some (RequestHeapFrame b)) \<in> set rs"
    using assms by (simp add: represents_def)
  note max = MAX_HEAP_FRAME_BYTES_def
  show ?thesis
  proof (cases "details_requested_heap_size d")
    case None
    then have "\<not> (i, Some (RequestHeapFrame b)) \<in> set rs" for i b using f by simp
    with None granted_field(1) [OF f None] show ?thesis by simp
  next
    case (Some ib)
    obtain i b where ib: "ib = (i, b)" by (cases ib)
    then have m: "(j, Some (RequestHeapFrame c)) \<in> set rs \<longleftrightarrow> j = i \<and> c = b" for j c
      using f Some by (metis option.inject prod.inject)
    show ?thesis
    proof (cases "sanitize_requested_heap_size e b")
      case True
      then have "min b 262144 = b" by (simp add: sanitize_requested_heap_size_def max min_def)
      then show ?thesis using Some True ib granted_field(2) [OF f, of i b]
        by (auto simp: m sanitize_requested_heap_size_def max dvd_eq_mod_eq_0)
    next
      case False
      then have "\<not> (MIN_HEAP_FRAME_BYTES (be_sanitize e) \<le> b \<and> b \<le> 262144 \<and> 1024 dvd unat b)"
        by (simp add: sanitize_requested_heap_size_def max dvd_eq_mod_eq_0)
      then show ?thesis using Some False ib by (simp add: m)
    qed
  qed
qed

lemma loaded_request_spec:
  assumes "represents d rs"
  shows "case (case requested_loaded_accounts_data_size_limit d of
        Some (_, bytes) \<Rightarrow> if bytes = 0 then Err InvalidLoadedAccountsDataSizeLimit else Ok bytes
      | None \<Rightarrow> Ok MAX_LOADED_ACCOUNTS_DATA_SIZE_BYTES) of
    Ok b \<Rightarrow> granted SetLoadedAccountsDataSizeLimit b (b = 67108864) rs \<and> b \<noteq> 0 \<and>
      (\<forall>i. (i, Some (SetLoadedAccountsDataSizeLimit 0)) \<notin> set rs)
  | Err _ \<Rightarrow> \<not> (\<forall>i. (i, Some (SetLoadedAccountsDataSizeLimit 0)) \<notin> set rs)
  | _ \<Rightarrow> False"
proof -
  have f: "\<forall>i b. requested_loaded_accounts_data_size_limit d = Some (i, b) \<longleftrightarrow>
      (i, Some (SetLoadedAccountsDataSizeLimit b)) \<in> set rs"
    using assms by (simp add: represents_def)
  show ?thesis
  proof (cases "requested_loaded_accounts_data_size_limit d")
    case None
    then have "\<not> (i, Some (SetLoadedAccountsDataSizeLimit b)) \<in> set rs" for i b using f by simp
    with None granted_field(1) [OF f None] show ?thesis by (simp add: MAX_LOADED_ACCOUNTS_DATA_SIZE_BYTES_def)
  next
    case (Some ib)
    obtain i b where ib: "ib = (i, b)" by (cases ib)
    then have m: "(j, Some (SetLoadedAccountsDataSizeLimit c)) \<in> set rs \<longleftrightarrow> j = i \<and> c = b" for j c
      using f Some by (metis option.inject prod.inject)
    then show ?thesis using Some ib granted_field(2) [OF f, of i b] by auto
  qed
qed

lemma limit_request_spec:
  assumes "represents d rs"
    and "requested_compute_unit_limit d = None \<Longrightarrow> \<exists>l. calculate_default_compute_unit_limit e fs d = Ok l \<and> unat l = n"
  shows "\<exists>u. (case requested_compute_unit_limit d of
        None \<Rightarrow> calculate_default_compute_unit_limit e fs d | Some (_, limit) \<Rightarrow> Ok limit) = Ok u \<and>
      granted SetComputeUnitLimit u (unat u = n) rs"
proof -
  have f: "\<forall>i b. requested_compute_unit_limit d = Some (i, b) \<longleftrightarrow> (i, Some (SetComputeUnitLimit b)) \<in> set rs"
    using assms(1) by (simp add: represents_def)
  show ?thesis
    using assms(2) granted_field [OF f] by (cases "requested_compute_unit_limit d") auto
qed

lemma price_request_spec:
  assumes "represents d rs"
  shows "granted SetComputeUnitPrice (case requested_compute_unit_price d of None \<Rightarrow> 0 | Some (_, price) \<Rightarrow> price)
    ((case requested_compute_unit_price d of None \<Rightarrow> 0 | Some (_, price) \<Rightarrow> price) = 0) rs"
proof -
  have f: "\<forall>i b. requested_compute_unit_price d = Some (i, b) \<longleftrightarrow> (i, Some (SetComputeUnitPrice b)) \<in> set rs"
    using assms by (simp add: represents_def)
  show ?thesis using granted_field [OF f] by (cases "requested_compute_unit_price d") auto
qed

lemma convert_limits_spec:
  assumes "represents d (tx_requests e ixs)"
    and "requested_compute_unit_limit d = None \<Longrightarrow>
      \<exists>l. calculate_default_compute_unit_limit e fs d = Ok l \<and> unat l = default_limit e fs ixs"
  shows "case sanitize_and_convert_to_compute_budget_limits e fs d of
      Ok l \<Rightarrow> budget_valid e ixs \<and> budget_limits_ok e fs ixs l
    | Err _ \<Rightarrow> \<not> budget_valid e ixs
    | _ \<Rightarrow> False"
proof -
  let ?rs = "tx_requests e ixs"
  let ?heap = "case details_requested_heap_size d of
        Some (index, bytes) \<Rightarrow>
          if sanitize_requested_heap_size e bytes then Ok bytes
          else Err (InstructionErrorAt index InvalidInstructionData)
      | None \<Rightarrow> Ok (MIN_HEAP_FRAME_BYTES (be_sanitize e))"
  let ?loaded = "case requested_loaded_accounts_data_size_limit d of
        Some (_, bytes) \<Rightarrow> if bytes = 0 then Err InvalidLoadedAccountsDataSizeLimit else Ok bytes
      | None \<Rightarrow> Ok MAX_LOADED_ACCOUNTS_DATA_SIZE_BYTES"
  obtain u where u: "(case requested_compute_unit_limit d of
        None \<Rightarrow> calculate_default_compute_unit_limit e fs d | Some (_, limit) \<Rightarrow> Ok limit) = Ok u"
      "granted SetComputeUnitLimit u (unat u = default_limit e fs ixs) ?rs"
    using limit_request_spec [OF assms] by blast
  have ok: "requests_ok ?rs" using assms(1) by (simp add: represents_def)
  note heap = heap_request_spec [OF assms(1), of e] and loaded = loaded_request_spec [OF assms(1)]
  have run: "sanitize_and_convert_to_compute_budget_limits e fs d =
      obind ?heap (\<lambda>heap. obind ?loaded (\<lambda>loaded.
        Ok \<lparr>updated_heap_bytes = min heap MAX_HEAP_FRAME_BYTES,
            limits_compute_unit_limit = min u MAX_COMPUTE_UNIT_LIMIT,
            compute_unit_price = (case requested_compute_unit_price d of None \<Rightarrow> 0 | Some (_, price) \<Rightarrow> price),
            loaded_accounts_bytes = min loaded MAX_LOADED_ACCOUNTS_DATA_SIZE_BYTES\<rparr>))"
    unfolding sanitize_and_convert_to_compute_budget_limits_def
    by (simp only: obind.simps u(1))
  show ?thesis
  proof (cases ?heap)
    case (Ok h)
    show ?thesis
    proof (cases ?loaded)
      case l: (Ok b)
      have m: "unat (min u MAX_COMPUTE_UNIT_LIMIT) = min 1400000 (unat u)"
        "min b MAX_LOADED_ACCOUNTS_DATA_SIZE_BYTES \<noteq> 0"
        using loaded l
        by (simp_all add: min_def word_le_nat_alt MAX_COMPUTE_UNIT_LIMIT_def MAX_LOADED_ACCOUNTS_DATA_SIZE_BYTES_def)
      have "budget_valid e ixs" using ok heap loaded unfolding Ok l by (simp add: budget_valid_def)
      moreover have "budget_limits_ok e fs ixs \<lparr>updated_heap_bytes = min h MAX_HEAP_FRAME_BYTES,
            limits_compute_unit_limit = min u MAX_COMPUTE_UNIT_LIMIT,
            compute_unit_price = (case requested_compute_unit_price d of None \<Rightarrow> 0 | Some (_, price) \<Rightarrow> price),
            loaded_accounts_bytes = min b MAX_LOADED_ACCOUNTS_DATA_SIZE_BYTES\<rparr>"
        unfolding budget_limits_ok_def ComputeBudgetLimits.simps
        using heap loaded u(2) m price_request_spec [OF assms(1)] unfolding Ok l outcome.case
        by (intro conjI exI [of _ u] exI [of _ b])
          (simp_all add: MAX_HEAP_FRAME_BYTES_def MAX_LOADED_ACCOUNTS_DATA_SIZE_BYTES_def)
      ultimately show ?thesis unfolding run Ok l by simp
    next
      case (Err err)
      then have "\<not> budget_valid e ixs" using loaded by (simp add: budget_valid_def)
      then show ?thesis unfolding run Ok Err by simp
    qed (use loaded in simp_all)
  next
    case (Err err)
    then have "\<not> budget_valid e ixs" using heap by (simp only: budget_valid_def outcome.case) blast
    then show ?thesis unfolding run Err by simp
  qed (use heap in simp_all)
qed

text \<open>
  C16: the budget of a transaction. Processing the budget instructions never panics; it fails exactly
  when a request is unknown, repeated, asks for a heap outside the frame limits or for no account data at
  all; otherwise the limits are the requested ones, capped, or the defaults: 3000 compute units for each
  builtin that has not migrated and 200000 for each other instruction.
\<close>

theorem process_compute_budget_exact:
  assumes "consistent keys ixs" and "length ixs \<le> 64"
  shows "case process_compute_budget_instructions e ixs fs of
      Ok l \<Rightarrow> budget_valid e ixs \<and> budget_limits_ok e fs ixs l
    | Err _ \<Rightarrow> \<not> budget_valid e ixs
    | _ \<Rightarrow> False"
proof (cases rule: try_from_cases [OF assms, where e = e and fs = fs])
  case (1 d)
  show ?thesis
    unfolding process_compute_budget_instructions_def 1(1) obind.simps by (rule convert_limits_spec [OF 1(2,3)])
next
  case (2 err)
  then show ?thesis
    using first_offence_not_ok [OF 2(2)] by (simp add: process_compute_budget_instructions_def budget_valid_def)
qed

theorem process_compute_budget_exact_witness:
  "\<exists>l. process_compute_budget_instructions sample_env sample_ixs sample_features = Ok l \<and>
     unat (limits_compute_unit_limit l) = 5000"
proof -
  have "budget_valid sample_env sample_ixs"
    by (simp add: budget_valid_def sample_requests requests_ok_def)
  then show ?thesis
    using process_compute_budget_exact [OF sample_consistent sample_length, of sample_env sample_features]
    by (cases "process_compute_budget_instructions sample_env sample_ixs sample_features")
      (auto simp: budget_limits_ok_def sample_requests granted_def)
qed

end
