(* ===== verification/Tx_Resolved.thy ===== *)
theory Tx_Resolved
  imports Tx_View
begin

text \<open>
  \<open>transaction-view/src/resolved_transaction_view.rs\<close>: a sanitized view with its address lookups
  resolved, and the cache that says which accounts the transaction may write.
  \<open>AccountKeys::new(..).iter()\<close> is code of another crate: it is the parameter \<open>keys_iter\<close>, and
  \<open>account_keys_spec\<close> states its documented order (static keys, then the loaded writable keys, then the
  loaded read-only keys). The identifier of the upgradeable loader is the parameter \<open>loader\<close>.
\<close>

section \<open>Definitions\<close>

record LoadedAddresses =
  la_writable :: "bytes list"
  la_readonly :: "bytes list"

record ResolvedTransactionView =
  rv_view :: TransactionView
  rv_resolved_addresses :: "LoadedAddresses option"
  rv_writable_cache :: "bool list"

type_synonym account_keys_iter = "bytes list \<Rightarrow> LoadedAddresses option \<Rightarrow> bytes list"

definition account_keys_spec :: "account_keys_iter \<Rightarrow> bool" where
  "account_keys_spec keys_iter \<longleftrightarrow>
     (\<forall>static. keys_iter static None = static) \<and>
     (\<forall>static l. keys_iter static (Some l) = static @ la_writable l @ la_readonly l)"

definition is_requested_write :: "TransactionView \<Rightarrow> nat \<Rightarrow> bool" where
  "is_requested_write v index =
     (let num_static = unat (num_static_account_keys v);
          num_signed = unat (num_required_signatures v) in
      if index \<ge> num_static
      then usize_wrapping_sub index num_static < unat (total_writable_lookup_accounts v)
      else if index \<ge> num_signed
      then usize_wrapping_sub index num_signed < unat (num_writable_unsigned_static_accounts v)
      else index < unat (num_writable_signed_static_accounts v))"

text \<open>The first loop of \<open>cache_is_writable\<close>, on the keys from \<open>index\<close> on.\<close>

fun cache_requested :: "TransactionView \<Rightarrow> bytes set \<Rightarrow> bytes list \<Rightarrow> nat \<Rightarrow> bool list \<Rightarrow> bool list tv_result" where
  "cache_requested v reserved [] index cache = Ok cache"
| "cache_requested v reserved (key # keys) index cache =
     (if index < length cache
      then cache_requested v reserved keys (index + 1)
             (cache[index := is_requested_write v index \<and> key \<notin> reserved])
      else Panic)"

text \<open>One round of the second loop; the option is the lazily computed presence of the loader.\<close>

definition demote_program :: "bytes \<Rightarrow> bytes list \<Rightarrow> bool list \<times> bool option \<Rightarrow> SVMInstruction \<Rightarrow>
    (bool list \<times> bool option) tv_result" where
  "demote_program loader keys = (\<lambda>(cache, is_upgradable_loader_present) ix.
     obind (index_or_panic cache (unat (ix_program_id_index ix))) (\<lambda>writable.
     if writable
     then (let present = (case is_upgradable_loader_present of
                            Some b \<Rightarrow> b | None \<Rightarrow> list_ex (\<lambda>key. key = loader) keys) in
           if \<not> present then Ok (cache[unat (ix_program_id_index ix) := False], Some present)
           else Ok (cache, Some present))
     else Ok (cache, is_upgradable_loader_present)))"

definition cache_is_writable :: "account_keys_iter \<Rightarrow> bytes \<Rightarrow> TransactionView \<Rightarrow>
    LoadedAddresses option \<Rightarrow> bytes set \<Rightarrow> bool list tv_result" where
  "cache_is_writable keys_iter loader v resolved reserved =
     obind (static_account_keys v) (\<lambda>static.
     let account_keys = keys_iter static resolved in
     obind (cache_requested v reserved account_keys 0 (replicate 256 False)) (\<lambda>cache.
     obind (iter_fold (instructions_iter v) (demote_program loader account_keys) (cache, None))
       (\<lambda>(cache, _). Ok cache)))"

definition ResolvedTransactionView_try_new :: "account_keys_iter \<Rightarrow> bytes \<Rightarrow> TransactionView \<Rightarrow>
    LoadedAddresses option \<Rightarrow> bytes set \<Rightarrow> ResolvedTransactionView tv_result" where
  "ResolvedTransactionView_try_new keys_iter loader v resolved reserved =
     (if view_version v = V0 \<and> resolved = None then Err AddressLookupMismatch
      else if (case resolved of
                 Some l \<Rightarrow> length (la_writable l) \<noteq> unat (total_writable_lookup_accounts v)
                         \<or> length (la_readonly l) \<noteq> unat (total_readonly_lookup_accounts v)
               | None \<Rightarrow> total_writable_lookup_accounts v \<noteq> 0 \<or> total_readonly_lookup_accounts v \<noteq> 0)
      then Err AddressLookupMismatch
      else obind (cache_is_writable keys_iter loader v resolved reserved) (\<lambda>writable_cache.
        Ok \<lparr>rv_view = v, rv_resolved_addresses = resolved, rv_writable_cache = writable_cache\<rparr>))"

definition rv_account_keys :: "account_keys_iter \<Rightarrow> ResolvedTransactionView \<Rightarrow> bytes list tv_result" where
  "rv_account_keys keys_iter r =
     obind (static_account_keys (rv_view r)) (\<lambda>static.
       Ok (keys_iter static (rv_resolved_addresses r)))"

definition is_writable :: "ResolvedTransactionView \<Rightarrow> nat \<Rightarrow> bool" where
  "is_writable r index =
     (if index < length (rv_writable_cache r) then rv_writable_cache r ! index else False)"

definition is_signer :: "ResolvedTransactionView \<Rightarrow> nat \<Rightarrow> bool" where
  "is_signer r index \<longleftrightarrow> index < unat (num_required_signatures (rv_view r))"

text \<open>\<open>any\<close> over the instructions; the iterator has no effect, so visiting all of them is the same.\<close>

definition is_invoked :: "ResolvedTransactionView \<Rightarrow> nat \<Rightarrow> bool tv_result" where
  "is_invoked r key_index =
     (if key_index < 256
      then iter_fold (instructions_iter (rv_view r))
             (\<lambda>found ix. Ok (found \<or> ix_program_id_index ix = byte_of key_index)) False
      else Ok False)"

section \<open>The two loops\<close>

lemma cache_requested_eq:
  assumes "index + length keys \<le> length cache"
  shows "cache_requested v reserved keys index cache =
    Ok (take index cache @
        map (\<lambda>i. is_requested_write v (index + i) \<and> keys ! i \<notin> reserved) [0..<length keys] @
        drop (index + length keys) cache)"
  using assms
proof (induction keys arbitrary: index cache)
  case (Cons key keys)
  let ?b = "is_requested_write v index \<and> key \<notin> reserved"
  have "take (Suc index) (cache[index := ?b]) = take index cache @ [?b]"
    using Cons.prems by (simp add: take_Suc_conv_app_nth)
  moreover have "map (\<lambda>i. is_requested_write v (index + i) \<and> (key # keys) ! i \<notin> reserved)
      [0..<Suc (length keys)] =
      ?b # map (\<lambda>i. is_requested_write v (Suc index + i) \<and> keys ! i \<notin> reserved) [0..<length keys]"
    by (simp add: upt_conv_Cons map_Suc_upt [symmetric] del: upt_Suc)
  ultimately show ?case
    using Cons.prems Cons.IH [of "Suc index" "cache[index := ?b]"] by (simp del: upt_Suc)
qed simp

definition demote :: "bytes \<Rightarrow> bytes list \<Rightarrow> bool list \<Rightarrow> SVMInstruction list \<Rightarrow> bool list" where
  "demote loader keys cache ixs =
     (if loader \<in> set keys then cache
      else map (\<lambda>i. cache ! i \<and> i \<notin> (\<lambda>ix. unat (ix_program_id_index ix)) ` set ixs) [0..<length cache])"

lemma demote_fold:
  assumes "\<And>ix. ix \<in> set ixs \<Longrightarrow> unat (ix_program_id_index ix) < length cache"
    and "present = None \<or> present = Some (loader \<in> set keys)"
  shows "\<exists>present'. fold_outcome (demote_program loader keys) (cache, present) ixs =
    Ok (demote loader keys cache ixs, present')"
  using assms
proof (induction ixs arbitrary: cache present)
  case Nil
  have "map (\<lambda>i. cache ! i) [0..<length cache] = cache" by (rule map_nth)
  then show ?case by (simp add: demote_def)
next
  case (Cons ix ixs)
  let ?i = "unat (ix_program_id_index ix)"
  have i: "?i < length cache" using Cons.prems(1) by simp
  let ?c = "if cache ! ?i \<and> loader \<notin> set keys then cache[?i := False] else cache"
  let ?p = "if cache ! ?i then Some (loader \<in> set keys) else present"
  have "list_ex (\<lambda>key. key = loader) keys \<longleftrightarrow> loader \<in> set keys" by (auto simp: list_ex_iff)
  then have s: "demote_program loader keys (cache, present) ix = Ok (?c, ?p)"
    using i Cons.prems(2) by (auto simp: demote_program_def index_or_panic_def Let_def)
  have "demote loader keys ?c ixs = demote loader keys cache (ix # ixs)"
    using i by (auto simp: demote_def nth_list_update intro!: map_cong)
  moreover have "\<exists>p'. fold_outcome (demote_program loader keys) (?c, ?p) ixs =
      Ok (demote loader keys ?c ixs, p')"
    using Cons.prems by (intro Cons.IH) auto
  ultimately show ?case using s by simp
qed

section \<open>The cache of a resolved sanitized view\<close>

definition invoked_indices :: "TransactionView \<Rightarrow> nat set" where
  "invoked_indices v = (\<lambda>ix. unat (ix_program_id_index ix)) ` set (view_instructions v)"

lemma cache_is_writable_eq:
  assumes "parsed_view v" and "sanitized_constraints p limit v"
    and "static_account_keys v = Ok static" and "length (keys_iter static resolved) \<le> 256"
  shows "\<exists>cache. cache_is_writable keys_iter loader v resolved reserved = Ok cache \<and> length cache = 256 \<and>
    (\<forall>i < 256. cache ! i \<longleftrightarrow>
       i < length (keys_iter static resolved) \<and> is_requested_write v i \<and>
       keys_iter static resolved ! i \<notin> reserved \<and>
       (i \<in> invoked_indices v \<longrightarrow> loader \<in> set (keys_iter static resolved)))"
proof -
  let ?keys = "keys_iter static resolved"
  let ?c = "map (\<lambda>i. is_requested_write v i \<and> ?keys ! i \<notin> reserved) [0..<length ?keys]
    @ replicate (256 - length ?keys) False"
  have "cache_requested v reserved ?keys 0 (replicate 256 False) = Ok ?c"
    using cache_requested_eq [of 0 ?keys "replicate 256 False" v reserved] assms(4) by simp
  moreover have "length ?c = 256" using assms(4) by simp
  moreover have "unat (ix_program_id_index ix) < length ?c" if "ix \<in> set (view_instructions v)" for ix
    using \<open>length ?c = 256\<close> by simp
  then obtain b where "fold_outcome (demote_program loader ?keys) (?c, None) (view_instructions v) =
      Ok (demote loader ?keys ?c (view_instructions v), b)"
    using demote_fold [of "view_instructions v" ?c None loader ?keys] by blast
  ultimately have "cache_is_writable keys_iter loader v resolved reserved =
      Ok (demote loader ?keys ?c (view_instructions v))"
    by (simp add: cache_is_writable_def assms(3) view_iter_fold [OF assms(1)] Let_def)
  moreover have "demote loader ?keys ?c (view_instructions v) ! i \<longleftrightarrow>
      i < length ?keys \<and> is_requested_write v i \<and> ?keys ! i \<notin> reserved \<and>
      (i \<in> invoked_indices v \<longrightarrow> loader \<in> set ?keys)" if "i < 256" for i
    using that assms(4) \<open>length ?c = 256\<close>
    by (auto simp: demote_def invoked_indices_def nth_append)
  moreover have "length (demote loader ?keys ?c (view_instructions v)) = 256"
    using \<open>length ?c = 256\<close> by (simp add: demote_def)
  ultimately show ?thesis by blast
qed

text \<open>The loaded addresses fit the transaction; a v0 transaction must have some, even if empty.\<close>

definition lookups_match :: "TransactionView \<Rightarrow> LoadedAddresses option \<Rightarrow> bool" where
  "lookups_match v resolved \<longleftrightarrow>
     (view_version v = V0 \<longrightarrow> resolved \<noteq> None) \<and>
     (case resolved of
        Some l \<Rightarrow> length (la_writable l) = unat (total_writable_lookup_accounts v) \<and>
                  length (la_readonly l) = unat (total_readonly_lookup_accounts v)
      | None \<Rightarrow> total_writable_lookup_accounts v = 0 \<and> total_readonly_lookup_accounts v = 0)"

lemma resolved_try_new_eq:
  "ResolvedTransactionView_try_new keys_iter loader v resolved reserved =
     (if lookups_match v resolved
      then obind (cache_is_writable keys_iter loader v resolved reserved) (\<lambda>writable_cache.
        Ok \<lparr>rv_view = v, rv_resolved_addresses = resolved, rv_writable_cache = writable_cache\<rparr>)
      else Err AddressLookupMismatch)"
  by (auto simp: ResolvedTransactionView_try_new_def lookups_match_def split: option.split)

lemma resolved_keys_length:
  assumes "account_keys_spec keys_iter" and "length static = unat (num_static_account_keys v)"
    and "lookups_match v resolved"
  shows "length (keys_iter static resolved) = num_accounts v"
  using assms
  by (cases resolved) (auto simp: account_keys_spec_def num_accounts_def lookups_match_def)

text \<open>
  C7: resolving a sanitized view never panics, and it succeeds exactly when the numbers of loaded
  addresses match (a v0 transaction must have loaded addresses); the resulting cache makes an account
  writable exactly when its position was requested writable, its key is not reserved, and it is not an
  invoked program unless the upgradeable loader is among the keys.
\<close>

theorem resolved_is_writable:
  assumes "account_keys_spec keys_iter" and "fits_slice data"
    and "try_new_sanitized p data limit = Ok v"
  shows "\<exists>static. static_account_keys v = Ok static \<and>
    (let result = ResolvedTransactionView_try_new keys_iter loader v resolved reserved;
         keys = keys_iter static resolved in
     if lookups_match v resolved
     then \<exists>r. result = Ok r \<and> rv_view r = v \<and> length keys = num_accounts v \<and>
        (\<forall>i. is_writable r i \<longleftrightarrow>
           i < length keys \<and> is_requested_write v i \<and> keys ! i \<notin> reserved \<and>
           (i \<in> invoked_indices v \<longrightarrow> loader \<in> set keys))
     else result = Err AddressLookupMismatch)"
proof -
  note s = sanitized_parsed [OF assms(2,3)]
  obtain static where k: "static_account_keys v = Ok static"
    "length static = unat (num_static_account_keys v)"
    using frame_keys_exist [OF parsed_in_bounds [OF s(2)]]
    by (metis static_account_keys_def num_static_account_keys_def)
  show ?thesis
  proof (cases "lookups_match v resolved")
    case False
    then show ?thesis using k(1) by (auto simp: resolved_try_new_eq)
  next
    case True
    then have len: "length (keys_iter static resolved) = num_accounts v"
      using resolved_keys_length [OF assms(1) k(2)] by blast
    then have le: "length (keys_iter static resolved) \<le> 256"
      using s(3) by (auto simp: sanitized_constraints_def split: if_splits)
    obtain cache where c: "cache_is_writable keys_iter loader v resolved reserved = Ok cache"
      "length cache = 256"
      "\<forall>i < 256. cache ! i \<longleftrightarrow> i < length (keys_iter static resolved) \<and> is_requested_write v i \<and>
         keys_iter static resolved ! i \<notin> reserved \<and>
         (i \<in> invoked_indices v \<longrightarrow> loader \<in> set (keys_iter static resolved))"
      using cache_is_writable_eq [where keys_iter = keys_iter, OF s(2,3) k(1) le] by blast
    let ?r = "\<lparr>rv_view = v, rv_resolved_addresses = resolved, rv_writable_cache = cache\<rparr>"
    have "is_writable ?r i \<longleftrightarrow>
        i < length (keys_iter static resolved) \<and> is_requested_write v i \<and>
        keys_iter static resolved ! i \<notin> reserved \<and>
        (i \<in> invoked_indices v \<longrightarrow> loader \<in> set (keys_iter static resolved))" for i
      using c(2,3) le by (auto simp: is_writable_def)
    then show ?thesis using True c(1) k(1) len by (simp add: resolved_try_new_eq)
  qed
qed

definition sample_keys_iter :: account_keys_iter where
  "sample_keys_iter static l =
     (case l of None \<Rightarrow> static | Some l \<Rightarrow> static @ la_writable l @ la_readonly l)"

theorem resolved_is_writable_witness:
  "\<exists>r. ResolvedTransactionView_try_new sample_keys_iter [] sample_view
         (Some \<lparr>la_writable = [replicate 32 6], la_readonly = []\<rparr>) {replicate 32 6} = Ok r \<and>
       \<not> is_writable r 2"
proof -
  let ?l = "Some \<lparr>la_writable = [replicate 32 6], la_readonly = []\<rparr>"
  have spec: "account_keys_spec sample_keys_iter"
    by (simp add: account_keys_spec_def sample_keys_iter_def)
  have m: "lookups_match sample_view ?l"
    by (simp add: lookups_match_def sample_view_def sample_wire_def frame_of_wire_def num_writable_def
        num_readonly_def total_writable_lookup_accounts_def total_readonly_lookup_accounts_def)
  have st: "static_account_keys sample_view = Ok (wt_account_keys sample_wire)"
    using view_of_parsed(3) [OF sample_view_parsed', of sample_wire]
      try_new_encoded(2) [OF sample_wire_wf sample_wire_length]
    by (simp add: sample_view_def)
  have "sample_keys_iter (wt_account_keys sample_wire) ?l ! 2 = replicate 32 6"
    by (simp add: sample_keys_iter_def sample_wire_def nth_append)
  with resolved_is_writable [OF spec sample_view_fits sample_sanitized, of "[]" ?l "{replicate 32 6}"]
  show ?thesis using m st by (auto simp: Let_def)
qed

text \<open>
  C10: the positions that may be requested writable are as many as \<open>num_requested_write_locks\<close> says,
  and the fee payer's position is one of them.
\<close>

theorem requested_write_locks_count:
  assumes "fits_slice data" and "try_new_sanitized p data limit = Ok v"
  shows "card {i. i < num_accounts v \<and> is_requested_write v i} = unat (num_requested_write_locks v) \<and>
    is_requested_write v 0"
proof -
  note c = sanitized_parsed(3) [OF assms]
  let ?ws = "unat (num_writable_signed_static_accounts v)" and ?r = "unat (num_required_signatures v)"
  let ?wu = "unat (num_writable_unsigned_static_accounts v)" and ?n = "unat (num_static_account_keys v)"
  let ?wl = "unat (total_writable_lookup_accounts v)"
  have h: "num_accounts v \<le> 256" "unat (num_readonly_signed_static_accounts v) < ?r"
    using c by (auto simp: sanitized_constraints_def header_ok_def split: if_splits)
  note e = counts_exact [OF c]
  have req: "is_requested_write v i \<longleftrightarrow> i < ?ws \<or> ?r \<le> i \<and> i < ?r + ?wu \<or> ?n \<le> i \<and> i < ?n + ?wl"
    if "i < num_accounts v" for i
    using that h e by (auto simp: is_requested_write_def Let_def usize_simps)
  have "{i. i < num_accounts v \<and> is_requested_write v i} =
      {..<?ws} \<union> ({?r..<?r + ?wu} \<union> {?n..<?n + ?wl})" (is "_ = ?A \<union> (?B \<union> ?C)")
    using req e by (auto simp: num_accounts_def)
  moreover have "card (?A \<union> (?B \<union> ?C)) = card ?A + (card ?B + card ?C)"
  proof -
    have "card (?B \<union> ?C) = card ?B + card ?C" using e by (intro card_Un_disjoint) auto
    moreover have "card (?A \<union> (?B \<union> ?C)) = card ?A + card (?B \<union> ?C)"
      using e by (intro card_Un_disjoint) auto
    ultimately show ?thesis by simp
  qed
  ultimately have "card {i. i < num_accounts v \<and> is_requested_write v i} = ?ws + ?wu + ?wl" by simp
  also have "\<dots> = unat (num_requested_write_locks v)" using e by (simp add: num_accounts_def)
  finally show ?thesis using req [of 0] h e by (auto simp: num_accounts_def)
qed

theorem requested_write_locks_count_witness:
  "card {i. i < num_accounts sample_view \<and> is_requested_write sample_view i} = 2"
  using requested_write_locks_count [OF sample_view_fits sample_sanitized] sample_counts
    counts_exact(4) [OF sample_view_constraints] by simp

end
