(* ===== verification/Runtime_Tx.thy ===== *)
theory Runtime_Tx
  imports Compute_Budget Tx_Resolved
begin

text \<open>
  \<open>runtime-transaction\<close>: the metadata that the runtime extracts once from a sanitized transaction view
  (\<open>signature_details.rs\<close>, \<open>instruction_data_len.rs\<close>, \<open>instruction_meta.rs\<close>, \<open>transaction_meta.rs\<close> and
  \<open>runtime_transaction/transaction_view.rs\<close>), the counting that \<open>svm-transaction/src/svm_message.rs\<close> does
  without it, and the fee that \<open>fee/src/lib.rs\<close> computes from it. The hash of a message and the check for
  simple votes come from crates outside the repository and are the fields of \<open>runtime_env\<close>.
\<close>

section \<open>Definitions\<close>

subsection \<open>Signatures of the precompiles\<close>

datatype ProgramIdStatus = NotSignature | Secp256k1 | Ed25519 | Secp256r1

record PrecompileSignatureDetails =
  ps_num_secp256k1_instruction_signatures :: u64
  ps_num_ed25519_instruction_signatures :: u64
  ps_num_secp256r1_instruction_signatures :: u64

record PrecompileSignatureDetailsBuilder =
  ps_filter :: "ProgramIdStatus option list"
  ps_value :: PrecompileSignatureDetails

definition PrecompileSignatureDetailsBuilder_default :: PrecompileSignatureDetailsBuilder where
  "PrecompileSignatureDetailsBuilder_default =
     \<lparr>ps_filter = replicate FILTER_SIZE None,
      ps_value = \<lparr>ps_num_secp256k1_instruction_signatures = 0, ps_num_ed25519_instruction_signatures = 0,
                  ps_num_secp256r1_instruction_signatures = 0\<rparr>\<rparr>"

definition signature_check_program_id :: "program_ids \<Rightarrow> Pubkey \<Rightarrow> ProgramIdStatus" where
  "signature_check_program_id p program_id =
     (if program_id = secp256k1_program_id p then Secp256k1
      else if program_id = ed25519_program_id p then Ed25519
      else if program_id = secp256r1_program_id p then Secp256r1
      else NotSignature)"

definition is_signature :: "program_ids \<Rightarrow> usize \<Rightarrow> Pubkey \<Rightarrow> (ProgramIdStatus option list, TransactionError, ProgramIdStatus) op" where
  "is_signature p index program_id flags =
     (if index < length flags
      then (case flags ! index of
              Some status \<Rightarrow> (Ok status, flags)
            | None \<Rightarrow> (Ok (signature_check_program_id p program_id),
                      flags[index := Some (signature_check_program_id p program_id)]))
      else (Panic, flags))"

definition get_num_signatures_in_instruction :: "SVMInstruction \<Rightarrow> u64" where
  "get_num_signatures_in_instruction instruction =
     (case ix_data instruction of b # _ \<Rightarrow> ucast b | [] \<Rightarrow> 0)"

definition signature_process_instruction ::
  "program_ids \<Rightarrow> Pubkey \<Rightarrow> SVMInstruction \<Rightarrow> PrecompileSignatureDetailsBuilder \<Rightarrow>
     (TransactionError, PrecompileSignatureDetailsBuilder) outcome" where
  "signature_process_instruction p program_id instruction b =
     (case is_signature p (unat (ix_program_id_index instruction)) program_id (ps_filter b) of (r, flags) \<Rightarrow>
        obind r (\<lambda>status.
          let v = ps_value b; n = get_num_signatures_in_instruction instruction in
          Ok \<lparr>ps_filter = flags, ps_value =
            (case status of
               NotSignature \<Rightarrow> v
             | Secp256k1 \<Rightarrow> v\<lparr>ps_num_secp256k1_instruction_signatures :=
                             ps_num_secp256k1_instruction_signatures v + n\<rparr>
             | Ed25519 \<Rightarrow> v\<lparr>ps_num_ed25519_instruction_signatures :=
                           ps_num_ed25519_instruction_signatures v + n\<rparr>
             | Secp256r1 \<Rightarrow> v\<lparr>ps_num_secp256r1_instruction_signatures :=
                             ps_num_secp256r1_instruction_signatures v + n\<rparr>)\<rparr>))"

text \<open>The loop that \<open>svm-transaction\<close> runs for a message without metadata.\<close>

definition default_precompile_signature_count :: "Pubkey \<Rightarrow> program_instructions \<Rightarrow> u64" where
  "default_precompile_signature_count precompile instructions =
     sum_list (map (\<lambda>(_, ix). get_num_signatures_in_instruction ix)
       (filter (\<lambda>(program_id, _). program_id = precompile) instructions))"

subsection \<open>Instruction data and instruction metadata\<close>

definition data_len_process_instruction :: "SVMInstruction \<Rightarrow> u16 \<Rightarrow> u16" where
  "data_len_process_instruction instruction v = sat_add v (as_u16 (length (ix_data instruction)))"

record InstructionMeta =
  precompile_signature_details :: PrecompileSignatureDetails
  im_instruction_data_len :: u16

definition InstructionMeta_try_new ::
  "program_ids \<Rightarrow> program_instructions \<Rightarrow> (TransactionError, InstructionMeta) outcome" where
  "InstructionMeta_try_new p instructions =
     obind (fold_outcome (\<lambda>(b, n) (program_id, instruction).
         obind (signature_process_instruction p program_id instruction b) (\<lambda>b'.
           Ok (b', data_len_process_instruction instruction n)))
       (PrecompileSignatureDetailsBuilder_default, 0) instructions) (\<lambda>(b, n).
     Ok \<lparr>precompile_signature_details = ps_value b, im_instruction_data_len = n\<rparr>)"

subsection \<open>Configuration\<close>

record TransactionConfiguration =
  tc_updated_heap_bytes :: u32
  tc_compute_unit_limit :: u32
  tc_priority_fee_lamports :: u64
  tc_loaded_accounts_data_size_limit :: u32

definition compute_unit_price_in_microlamports :: "TransactionConfiguration \<Rightarrow> u64" where
  "compute_unit_price_in_microlamports c =
     (let micro = sat_mul (u64_to_u128 (tc_priority_fee_lamports c)) 1000000;
          limit = u64_to_u128 (u32_to_u64 (tc_compute_unit_limit c)) in
      if limit = 0 then 0
      else (let x = micro div limit in if unat x < 2 ^ 64 then ucast x else 0))"

datatype VersionedTransactionConfiguration =
  LegacyAndV0Config ComputeBudgetInstructionDetails
| V1Config TransactionConfiguration

definition try_into_config ::
  "budget_env \<Rightarrow> FeatureSet \<Rightarrow> VersionedTransactionConfiguration \<Rightarrow> (TransactionError, TransactionConfiguration) outcome" where
  "try_into_config e fs config =
     (case config of
        LegacyAndV0Config d \<Rightarrow>
          obind (sanitize_and_convert_to_compute_budget_limits e fs d) (\<lambda>l.
          Ok \<lparr>tc_updated_heap_bytes = updated_heap_bytes l,
              tc_compute_unit_limit = limits_compute_unit_limit l,
              tc_priority_fee_lamports = limits_get_prioritization_fee l,
              tc_loaded_accounts_data_size_limit = loaded_accounts_bytes l\<rparr>)
      | V1Config c \<Rightarrow>
          if \<not> (MIN_HEAP_FRAME_BYTES (be_sanitize e) \<le> tc_updated_heap_bytes c \<and>
                tc_updated_heap_bytes c \<le> MAX_HEAP_FRAME_BYTES)
             \<or> unat (tc_updated_heap_bytes c) mod 1024 \<noteq> 0
          then Err SanitizeFailure
          else Ok \<lparr>tc_updated_heap_bytes = tc_updated_heap_bytes c,
                   tc_compute_unit_limit = min (tc_compute_unit_limit c) MAX_COMPUTE_UNIT_LIMIT,
                   tc_priority_fee_lamports = tc_priority_fee_lamports c,
                   tc_loaded_accounts_data_size_limit =
                     min (tc_loaded_accounts_data_size_limit c) MAX_LOADED_ACCOUNTS_DATA_SIZE_BYTES\<rparr>)"

subsection \<open>Metadata and runtime transactions\<close>

record TransactionSignatureDetails =
  num_transaction_signatures :: u64
  num_secp256k1_instruction_signatures :: u64
  num_ed25519_instruction_signatures :: u64
  num_secp256r1_instruction_signatures :: u64

record 'h CachedTransactionMeta =
  message_hash :: 'h
  is_simple_vote_transaction :: bool
  signature_details :: TransactionSignatureDetails
  versioned_transaction_config :: VersionedTransactionConfiguration
  instruction_data_len :: u16

datatype 'h MessageHash = Precomputed 'h | Compute

record 'h runtime_env =
  re_budget :: budget_env
  hash_raw_message :: "bytes \<Rightarrow> 'h"
  is_simple_vote_transaction_impl :: "bytes list \<Rightarrow> bool \<Rightarrow> Pubkey list \<Rightarrow> bool"

record ('t, 'h) RuntimeTransaction =
  rt_transaction :: 't
  rt_meta :: "'h CachedTransactionMeta"

text \<open>
  The accessors of a sanitized view return plain values; a failure inside them is a panic for the caller.
\<close>

fun view_value :: "'a tv_result \<Rightarrow> (TransactionError, 'a) outcome" where
  "view_value (Ok a) = Ok a"
| "view_value (Err _) = Panic"
| "view_value Panic = Panic"
| "view_value UB = UB"

definition view_is_simple_vote_transaction :: "'h runtime_env \<Rightarrow> TransactionView \<Rightarrow> (TransactionError, bool) outcome" where
  "view_is_simple_vote_transaction env v =
     obind (view_value (view_signatures v)) (\<lambda>signatures.
     obind (view_value (program_instructions_iter v)) (\<lambda>instructions.
       Ok (is_simple_vote_transaction_impl env signatures (view_version v = Legacy) (map fst instructions))))"

definition config_of_view ::
  "budget_env \<Rightarrow> TransactionConfigFrame \<times> bytes \<Rightarrow> (TransactionError, TransactionConfiguration) outcome" where
  "config_of_view e = (\<lambda>(config, bytes).
     obind (view_value (priority_fee_lamports config bytes)) (\<lambda>fee.
     obind (view_value (compute_unit_limit config bytes)) (\<lambda>limit.
     obind (view_value (loaded_accounts_data_size_limit config bytes)) (\<lambda>loaded.
     obind (view_value (requested_heap_size config bytes)) (\<lambda>heap.
     Ok \<lparr>tc_updated_heap_bytes = (case heap of Some h \<Rightarrow> h | None \<Rightarrow> MIN_HEAP_FRAME_BYTES (be_sanitize e)),
         tc_compute_unit_limit = (case limit of Some u \<Rightarrow> u | None \<Rightarrow> 0),
         tc_priority_fee_lamports = (case fee of Some f \<Rightarrow> f | None \<Rightarrow> 0),
         tc_loaded_accounts_data_size_limit = (case loaded of Some b \<Rightarrow> b | None \<Rightarrow> 0)\<rparr>)))))"

definition from_sanitized_transaction_view ::
  "'h runtime_env \<Rightarrow> TransactionView \<Rightarrow> 'h MessageHash \<Rightarrow> bool option \<Rightarrow>
     (TransactionError, 'h CachedTransactionMeta) outcome" where
  "from_sanitized_transaction_view env v hash is_simple_vote_tx =
     obind (case hash of
              Precomputed h \<Rightarrow> Ok h
            | Compute \<Rightarrow> obind (view_value (message_data v)) (\<lambda>m. Ok (hash_raw_message env m))) (\<lambda>h.
     obind (case is_simple_vote_tx of
              Some b \<Rightarrow> Ok b
            | None \<Rightarrow> view_is_simple_vote_transaction env v) (\<lambda>simple_vote.
     obind (view_value (program_instructions_iter v)) (\<lambda>instructions.
     obind (InstructionMeta_try_new (be_ids (re_budget env)) instructions) (\<lambda>im.
     let ps = precompile_signature_details im;
         details = \<lparr>num_transaction_signatures = ucast (num_required_signatures v),
                    num_secp256k1_instruction_signatures = ps_num_secp256k1_instruction_signatures ps,
                    num_ed25519_instruction_signatures = ps_num_ed25519_instruction_signatures ps,
                    num_secp256r1_instruction_signatures = ps_num_secp256r1_instruction_signatures ps\<rparr> in
     obind (case transaction_config v of
              Some c \<Rightarrow> obind (config_of_view (re_budget env) c) (\<lambda>c. Ok (V1Config c))
            | None \<Rightarrow> obind (details_try_from (re_budget env) instructions) (\<lambda>d. Ok (LegacyAndV0Config d)))
       (\<lambda>config.
     Ok \<lparr>message_hash = h, is_simple_vote_transaction = simple_vote, signature_details = details,
         versioned_transaction_config = config, instruction_data_len = im_instruction_data_len im\<rparr>)))))"

definition RuntimeTransaction_try_new ::
  "'h runtime_env \<Rightarrow> TransactionView \<Rightarrow> 'h MessageHash \<Rightarrow> bool option \<Rightarrow>
     (TransactionError, (TransactionView, 'h) RuntimeTransaction) outcome" where
  "RuntimeTransaction_try_new env v hash is_simple_vote_tx =
     obind (from_sanitized_transaction_view env v hash is_simple_vote_tx) (\<lambda>meta.
       Ok \<lparr>rt_transaction = v, rt_meta = meta\<rparr>)"

definition RuntimeTransaction_resolve ::
  "account_keys_iter \<Rightarrow> bytes \<Rightarrow> (TransactionView, 'h) RuntimeTransaction \<Rightarrow> LoadedAddresses option \<Rightarrow>
     bytes set \<Rightarrow> (TransactionError, (ResolvedTransactionView, 'h) RuntimeTransaction) outcome" where
  "RuntimeTransaction_resolve keys_iter loader tx loaded reserved =
     (case ResolvedTransactionView_try_new keys_iter loader (rt_transaction tx) loaded reserved of
        Ok t \<Rightarrow> Ok \<lparr>rt_transaction = t, rt_meta = rt_meta tx\<rparr>
      | Err _ \<Rightarrow> Err SanitizeFailure
      | Panic \<Rightarrow> Panic
      | UB \<Rightarrow> UB)"

definition transaction_configuration ::
  "budget_env \<Rightarrow> FeatureSet \<Rightarrow> ('t, 'h) RuntimeTransaction \<Rightarrow> (TransactionError, TransactionConfiguration) outcome" where
  "transaction_configuration e fs tx = try_into_config e fs (versioned_transaction_config (rt_meta tx))"

subsection \<open>Fees\<close>

record SignatureCounts =
  sc_num_transaction_signatures :: u64
  sc_num_ed25519_signatures :: u64
  sc_num_secp256k1_signatures :: u64
  sc_num_secp256r1_signatures :: u64

record FeeDetails =
  transaction_fee :: u64
  prioritization_fee :: u64

text \<open>The counts of a runtime transaction come from its metadata.\<close>

definition SignatureCounts_from :: "(TransactionView, 'h) RuntimeTransaction \<Rightarrow> SignatureCounts" where
  "SignatureCounts_from tx =
     (let d = signature_details (rt_meta tx) in
      \<lparr>sc_num_transaction_signatures = ucast (num_required_signatures (rt_transaction tx)),
       sc_num_ed25519_signatures = num_ed25519_instruction_signatures d,
       sc_num_secp256k1_signatures = num_secp256k1_instruction_signatures d,
       sc_num_secp256r1_signatures = num_secp256r1_instruction_signatures d\<rparr>)"

definition calculate_signature_fee :: "SignatureCounts \<Rightarrow> u64 \<Rightarrow> u64" where
  "calculate_signature_fee c lamports_per_signature =
     sat_mul (sat_add (sat_add (sat_add (sc_num_transaction_signatures c) (sc_num_ed25519_signatures c))
       (sc_num_secp256k1_signatures c)) (sc_num_secp256r1_signatures c)) lamports_per_signature"

definition calculate_fee_details :: "(TransactionView, 'h) RuntimeTransaction \<Rightarrow> u64 \<Rightarrow> u64 \<Rightarrow> FeeDetails" where
  "calculate_fee_details tx lamports_per_signature fee =
     \<lparr>transaction_fee = calculate_signature_fee (SignatureCounts_from tx) lamports_per_signature,
      prioritization_fee = fee\<rparr>"

definition calculate_fee ::
  "(FeeDetails \<Rightarrow> u64) \<Rightarrow> (TransactionView, 'h) RuntimeTransaction \<Rightarrow> u64 \<Rightarrow> u64 \<Rightarrow> u64" where
  "calculate_fee total_fee tx lamports_per_signature fee =
     total_fee (calculate_fee_details tx lamports_per_signature fee)"

section \<open>Instruction metadata\<close>

interpretation sg: memo_filter "signature_check_program_id p" "is_signature p" for p
  by unfold_locales (simp_all add: is_signature_def)

text \<open>The three precompile programs have different identifiers.\<close>

definition precompiles_distinct :: "program_ids \<Rightarrow> bool" where
  "precompiles_distinct p \<longleftrightarrow> distinct [secp256k1_program_id p, ed25519_program_id p, secp256r1_program_id p]"

definition data_bytes :: "program_instructions \<Rightarrow> nat" where
  "data_bytes ixs = sum_list (map (\<lambda>(_, ix). length (ix_data ix) mod 65536) ixs)"

lemma default_count_simps [simp]:
  "default_precompile_signature_count k [] = 0"
  "default_precompile_signature_count k ((program_id, ix) # rest) =
     (if program_id = k then get_num_signatures_in_instruction ix else 0)
       + default_precompile_signature_count k rest"
  by (simp_all add: default_precompile_signature_count_def)

lemma data_bytes_simps [simp]:
  "data_bytes [] = 0"
  "data_bytes ((program_id, ix) # rest) = length (ix_data ix) mod 65536 + data_bytes rest"
  by (simp_all add: data_bytes_def)

lemma unat_data_len: "unat (data_len_process_instruction ix n) = min 65535 (unat n + length (ix_data ix) mod 65536)"
  by (simp add: data_len_process_instruction_def unat_sat_add min.commute)

definition counts_added :: "program_ids \<Rightarrow> program_instructions \<Rightarrow> PrecompileSignatureDetails \<Rightarrow>
    PrecompileSignatureDetails \<Rightarrow> bool" where
  "counts_added p ixs v v' \<longleftrightarrow>
     ps_num_secp256k1_instruction_signatures v' =
       ps_num_secp256k1_instruction_signatures v + default_precompile_signature_count (secp256k1_program_id p) ixs \<and>
     ps_num_ed25519_instruction_signatures v' =
       ps_num_ed25519_instruction_signatures v + default_precompile_signature_count (ed25519_program_id p) ixs \<and>
     ps_num_secp256r1_instruction_signatures v' =
       ps_num_secp256r1_instruction_signatures v + default_precompile_signature_count (secp256r1_program_id p) ixs"

lemma signature_process_step:
  assumes "coherent (signature_check_program_id p) keys (ps_filter b)" and "precompiles_distinct p"
    and "keys (unat (ix_program_id_index ix)) = program_id"
  shows "\<exists>b'. signature_process_instruction p program_id ix b = Ok b' \<and>
    coherent (signature_check_program_id p) keys (ps_filter b') \<and>
    counts_added p [(program_id, ix)] (ps_value b) (ps_value b')"
proof -
  obtain flags where "is_signature p (unat (ix_program_id_index ix)) program_id (ps_filter b) =
      (Ok (signature_check_program_id p program_id), flags)" "coherent (signature_check_program_id p) keys flags"
    using sg.get_coherent [OF assms(1) _ assms(3)] by (auto simp: FILTER_SIZE_def)
  then show ?thesis
    using assms(2)
    by (auto simp: signature_process_instruction_def Let_def signature_check_program_id_def counts_added_def
        precompiles_distinct_def)
qed

lemma counts_added_Cons:
  "counts_added p [pi] v v' \<Longrightarrow> counts_added p rest v' v'' \<Longrightarrow> counts_added p (pi # rest) v v''"
  by (cases pi) (simp add: counts_added_def add.assoc)

lemma instruction_meta_loop:
  assumes "coherent (signature_check_program_id p) keys (ps_filter b)" and "precompiles_distinct p"
    and "consistent keys ixs"
  shows "\<exists>b' n'. fold_outcome (\<lambda>(b, n) (program_id, instruction).
         obind (signature_process_instruction p program_id instruction b) (\<lambda>b'.
           Ok (b', data_len_process_instruction instruction n))) (b, n) ixs = Ok (b', n') \<and>
    counts_added p ixs (ps_value b) (ps_value b') \<and> unat n' = min 65535 (unat n + data_bytes ixs)"
  using assms
proof (induction ixs arbitrary: b n)
  case Nil
  have "unat n \<le> 65535" using unsigned_less [of n, where 'a = nat] by simp
  then show ?case by (simp add: counts_added_def)
next
  case (Cons pi rest)
  obtain program_id ix where pi: "pi = (program_id, ix)" by (cases pi)
  obtain b1 where b1: "signature_process_instruction p program_id ix b = Ok b1"
    "coherent (signature_check_program_id p) keys (ps_filter b1)"
    "counts_added p [(program_id, ix)] (ps_value b) (ps_value b1)"
    using signature_process_step [OF Cons.prems(1,2)] Cons.prems(3) by (auto simp: pi)
  let ?n = "data_len_process_instruction ix n"
  obtain b2 n2 where "fold_outcome (\<lambda>(b, n) (program_id, instruction).
         obind (signature_process_instruction p program_id instruction b) (\<lambda>b'.
           Ok (b', data_len_process_instruction instruction n))) (b1, ?n) rest = Ok (b2, n2)"
    and b2: "counts_added p rest (ps_value b1) (ps_value b2)" "unat n2 = min 65535 (unat ?n + data_bytes rest)"
    using Cons.IH [OF b1(2) Cons.prems(2), of ?n] Cons.prems(3) unfolding pi consistent_Cons by blast
  then show ?case
    using b1 counts_added_Cons [OF b1(3) b2(1)] by (simp add: pi unat_data_len)
qed

lemma instruction_meta_spec:
  assumes "precompiles_distinct p" and "consistent keys ixs"
  shows "\<exists>im. InstructionMeta_try_new p ixs = Ok im \<and> unat (im_instruction_data_len im) = min 65535 (data_bytes ixs) \<and>
    precompile_signature_details im =
      \<lparr>ps_num_secp256k1_instruction_signatures = default_precompile_signature_count (secp256k1_program_id p) ixs,
       ps_num_ed25519_instruction_signatures = default_precompile_signature_count (ed25519_program_id p) ixs,
       ps_num_secp256r1_instruction_signatures = default_precompile_signature_count (secp256r1_program_id p) ixs\<rparr>"
proof -
  have "coherent (signature_check_program_id p) keys (ps_filter PrecompileSignatureDetailsBuilder_default)"
    by (simp add: PrecompileSignatureDetailsBuilder_default_def coherent_new)
  from instruction_meta_loop [OF this assms, of 0] show ?thesis
    by (auto simp: InstructionMeta_try_new_def counts_added_def PrecompileSignatureDetailsBuilder_default_def)
qed

section \<open>Metadata of a sanitized view\<close>

lemma config_value_Ok:
  "defined_outcome (config_value n f bytes b) \<Longrightarrow> \<exists>x. config_value n f bytes b = Ok x"
  by (auto simp: config_value_def unchecked_copy_value_def ptr_add_def raw_slice_def split: option.splits if_splits)

lemma config_of_view_ok:
  assumes "parsed_view v" and "transaction_config v = Some c"
  shows "\<exists>x. config_of_view e c = Ok x"
proof -
  let ?f = "tf_transaction_config_frame (tv_frame v)"
  have c: "c = (?f, tv_data v)" using assms(2) by (simp add: transaction_config_def split: if_splits)
  have b: "config_in_bounds (tv_data v) ?f"
    using parsed_in_bounds [OF assms(1)] by (simp add: frame_in_bounds_def)
  obtain fee limit loaded heap where "priority_fee_lamports ?f (tv_data v) = Ok fee"
    "compute_unit_limit ?f (tv_data v) = Ok limit" "loaded_accounts_data_size_limit ?f (tv_data v) = Ok loaded"
    "requested_heap_size ?f (tv_data v) = Ok heap"
    using config_value_Ok [OF config_value_defined [OF b]] config_value_Ok [OF priority_fee_defined [OF b, unfolded priority_fee_lamports_def]]
    unfolding priority_fee_lamports_def compute_unit_limit_def loaded_accounts_data_size_limit_def
      requested_heap_size_def by metis
  then show ?thesis by (simp add: c config_of_view_def)
qed

lemma sanitized_instructions:
  assumes "parsed_view v" and "sanitized_constraints p limit v"
  obtains keys ixs where "program_instructions_iter v = Ok ixs" "consistent keys ixs" "length ixs \<le> 64"
proof -
  obtain ks where "program_instructions_iter v =
      Ok (map (\<lambda>ix. (ks ! unat (ix_program_id_index ix), ix)) (view_instructions v))"
    using sanitized_program_instructions [OF assms] by blast
  moreover have "consistent (\<lambda>i. ks ! i) (map (\<lambda>ix. (ks ! unat (ix_program_id_index ix), ix)) (view_instructions v))"
    by (auto simp: consistent_def)
  moreover have "length (view_instructions v) \<le> 64" using assms(2) by (simp add: sanitized_constraints_def)
  ultimately show thesis using that by simp
qed

definition metadata_details :: "'h runtime_env \<Rightarrow> TransactionView \<Rightarrow> program_instructions \<Rightarrow> TransactionSignatureDetails" where
  "metadata_details env v ixs =
     (let p = be_ids (re_budget env) in
      \<lparr>num_transaction_signatures = ucast (num_required_signatures v),
       num_secp256k1_instruction_signatures = default_precompile_signature_count (secp256k1_program_id p) ixs,
       num_ed25519_instruction_signatures = default_precompile_signature_count (ed25519_program_id p) ixs,
       num_secp256r1_instruction_signatures = default_precompile_signature_count (secp256r1_program_id p) ixs\<rparr>)"

lemma runtime_meta_run:
  assumes "fits_slice data" and "v1_MAX_TRANSACTION_SIZE p < 65536" and "try_new_sanitized p data limit = Ok v"
    and "precompiles_distinct (be_ids (re_budget env))"
  obtains keys ixs h b n where "program_instructions_iter v = Ok ixs" "consistent keys ixs" "length ixs \<le> 64"
    "unat n = min 65535 (data_bytes ixs)"
    "from_sanitized_transaction_view env v hash vote =
       obind (case transaction_config v of
              Some c \<Rightarrow> obind (config_of_view (re_budget env) c) (\<lambda>c. Ok (V1Config c))
            | None \<Rightarrow> obind (details_try_from (re_budget env) ixs) (\<lambda>d. Ok (LegacyAndV0Config d)))
       (\<lambda>config.
         Ok \<lparr>message_hash = h, is_simple_vote_transaction = b, signature_details = metadata_details env v ixs,
             versioned_transaction_config = config, instruction_data_len = n\<rparr>)"
proof -
  note s = sanitized_parsed [OF assms(1,3)]
  obtain keys ixs where i: "program_instructions_iter v = Ok ixs" "consistent keys ixs" "length ixs \<le> 64"
    using sanitized_instructions [OF s(2,3)] by blast
  have "length (tv_data v) < 65536"
    using s(3) assms(2) by (auto simp: sanitized_constraints_def split: if_splits)
  then obtain sigs msg where m: "view_signatures v = Ok sigs" "message_data v = Ok msg"
    using message_data_split [OF s(2)] by blast
  obtain h where h: "(case hash of Precomputed h \<Rightarrow> Ok h
      | Compute \<Rightarrow> obind (view_value (message_data v)) (\<lambda>m. Ok (hash_raw_message env m))) =
        (Ok h :: (TransactionError, _) outcome)"
    by (cases hash) (simp_all add: m)
  obtain b where b: "(case vote of Some b \<Rightarrow> Ok b | None \<Rightarrow> view_is_simple_vote_transaction env v) = Ok b"
    by (cases vote) (simp_all add: view_is_simple_vote_transaction_def m i)
  obtain im where im: "InstructionMeta_try_new (be_ids (re_budget env)) ixs = Ok im"
    "unat (im_instruction_data_len im) = min 65535 (data_bytes ixs)"
    "precompile_signature_details im =
      \<lparr>ps_num_secp256k1_instruction_signatures =
         default_precompile_signature_count (secp256k1_program_id (be_ids (re_budget env))) ixs,
       ps_num_ed25519_instruction_signatures =
         default_precompile_signature_count (ed25519_program_id (be_ids (re_budget env))) ixs,
       ps_num_secp256r1_instruction_signatures =
         default_precompile_signature_count (secp256r1_program_id (be_ids (re_budget env))) ixs\<rparr>"
    using instruction_meta_spec [OF assms(4) i(2)] by blast
  show thesis
    by (rule that [OF i im(2), of h b])
      (unfold from_sanitized_transaction_view_def h b i(1) view_value.simps obind.simps im(1) Let_def im(3)
        metadata_details_def PrecompileSignatureDetails.simps, rule refl)
qed

text \<open>
  C19: extracting the metadata of a sanitized view never panics. The cached signature counts are the ones
  that the uncached counting of the instructions gives, the cached data length is the sum of the data
  lengths (capped at \<open>u16::MAX\<close>), and the only error is the one of the compute budget requests of a
  legacy or v0 transaction.
\<close>

theorem runtime_meta_exact:
  assumes "fits_slice data" and "v1_MAX_TRANSACTION_SIZE p < 65536" and "try_new_sanitized p data limit = Ok v"
    and "precompiles_distinct (be_ids (re_budget env))"
  shows "\<exists>ixs. program_instructions_iter v = Ok ixs \<and>
    (case from_sanitized_transaction_view env v hash vote of
       Ok meta \<Rightarrow>
         signature_details meta =
           metadata_details env v ixs \<and>
         unat (instruction_data_len meta) = min 65535 (data_bytes ixs)
     | Err err \<Rightarrow> transaction_config v = None \<and> details_try_from (re_budget env) ixs = Err err
     | _ \<Rightarrow> False)"
proof (cases rule: runtime_meta_run [OF assms, where hash = hash and vote = vote])
  case (1 keys ixs h b n)
  show ?thesis
  proof (cases "transaction_config v")
    case (Some c)
    obtain x where "config_of_view (re_budget env) c = Ok x"
      using config_of_view_ok [OF sanitized_parsed(2) [OF assms(1,3)] Some] by blast
    then show ?thesis using 1 Some by simp
  next
    case None
    show ?thesis
      by (cases rule: try_from_cases [OF 1(2,3), where e = "re_budget env"]) (use 1 None in simp_all)
  qed
qed

definition sample_runtime_env :: "nat runtime_env" where
  "sample_runtime_env = \<lparr>re_budget = sample_env, hash_raw_message = length,
     is_simple_vote_transaction_impl = (\<lambda>_ _ _. False)\<rparr>"

theorem runtime_meta_exact_witness:
  "\<exists>ixs. program_instructions_iter sample_view = Ok ixs \<and>
    (case from_sanitized_transaction_view sample_runtime_env sample_view Compute None of
       Ok meta \<Rightarrow> unat (instruction_data_len meta) = min 65535 (data_bytes ixs)
     | Err err \<Rightarrow> details_try_from sample_env ixs = Err err
     | _ \<Rightarrow> False)"
proof -
  have "precompiles_distinct (be_ids (re_budget sample_runtime_env))"
    by (simp add: precompiles_distinct_def sample_runtime_env_def sample_env_def sample_ids_def)
  from runtime_meta_exact [OF sample_view_fits _ sample_sanitized this, of Compute None] show ?thesis
    by (auto simp: sample_params_def sample_runtime_env_def split: outcome.splits)
qed

section \<open>Configuration and fees\<close>

lemma convert_limits_Ok:
  assumes "sanitize_and_convert_to_compute_budget_limits e fs d = Ok l"
  obtains h u b where "updated_heap_bytes l = min h MAX_HEAP_FRAME_BYTES"
    "limits_compute_unit_limit l = min u MAX_COMPUTE_UNIT_LIMIT"
    "loaded_accounts_bytes l = min b MAX_LOADED_ACCOUNTS_DATA_SIZE_BYTES"
    "h = MIN_HEAP_FRAME_BYTES (be_sanitize e) \<or> sanitize_requested_heap_size e h"
proof -
  obtain h u b where h: "(case details_requested_heap_size d of
        Some (index, bytes) \<Rightarrow>
          if sanitize_requested_heap_size e bytes then Ok bytes
          else Err (InstructionErrorAt index InvalidInstructionData)
      | None \<Rightarrow> Ok (MIN_HEAP_FRAME_BYTES (be_sanitize e))) = Ok h"
    and l: "updated_heap_bytes l = min h MAX_HEAP_FRAME_BYTES"
      "limits_compute_unit_limit l = min u MAX_COMPUTE_UNIT_LIMIT"
      "loaded_accounts_bytes l = min b MAX_LOADED_ACCOUNTS_DATA_SIZE_BYTES"
    using assms unfolding sanitize_and_convert_to_compute_budget_limits_def by (elim obind_Ok_E) auto
  have "h = MIN_HEAP_FRAME_BYTES (be_sanitize e) \<or> sanitize_requested_heap_size e h"
    using h by (cases "details_requested_heap_size d") (auto split: if_splits)
  with l show thesis by (rule that)
qed

definition heap_in_range :: "budget_env \<Rightarrow> u32 \<Rightarrow> bool" where
  "heap_in_range e h \<longleftrightarrow> MIN_HEAP_FRAME_BYTES (be_sanitize e) \<le> h \<and> h \<le> 262144 \<and> 1024 dvd unat h"

lemma sanitize_requested_heap_size_iff: "sanitize_requested_heap_size e h \<longleftrightarrow> heap_in_range e h"
  by (simp only: heap_in_range_def sanitize_requested_heap_size_def MAX_HEAP_FRAME_BYTES_def dvd_eq_mod_eq_0) simp

lemma capped:
  "unat (min u MAX_COMPUTE_UNIT_LIMIT) \<le> 1400000" "unat (min b MAX_LOADED_ACCOUNTS_DATA_SIZE_BYTES) \<le> 67108864"
  by (simp_all add: min_def word_le_nat_alt MAX_COMPUTE_UNIT_LIMIT_def MAX_LOADED_ACCOUNTS_DATA_SIZE_BYTES_def)

lemma v1_config_Ok:
  assumes "try_into_config e fs (V1Config x) = Ok t"
  shows "tc_compute_unit_limit t = min (tc_compute_unit_limit x) MAX_COMPUTE_UNIT_LIMIT \<and>
    tc_loaded_accounts_data_size_limit t =
      min (tc_loaded_accounts_data_size_limit x) MAX_LOADED_ACCOUNTS_DATA_SIZE_BYTES \<and>
    heap_in_range e (tc_updated_heap_bytes t)"
  using assms unfolding sanitize_requested_heap_size_iff [symmetric] sanitize_requested_heap_size_def
  by (auto simp: try_into_config_def split: if_splits)

text \<open>
  C20: the configuration that execution uses stays within the limits of the runtime, whatever a
  transaction of any version asked for: at most 1.4 million compute units, at most 64 MiB of loaded account
  data, and a heap between the limits in whole KiB.
\<close>

theorem config_within_limits:
  assumes "try_into_config e fs c = Ok t"
    and "MIN_HEAP_FRAME_BYTES (be_sanitize e) \<le> 262144" and "1024 dvd unat (MIN_HEAP_FRAME_BYTES (be_sanitize e))"
  shows "unat (tc_compute_unit_limit t) \<le> 1400000 \<and> unat (tc_loaded_accounts_data_size_limit t) \<le> 67108864 \<and>
    heap_in_range e (tc_updated_heap_bytes t)"
proof (cases c)
  case (V1Config x)
  from v1_config_Ok [OF assms(1) [unfolded this]] show ?thesis by (simp add: capped)
next
  case (LegacyAndV0Config d)
  then obtain l where l: "sanitize_and_convert_to_compute_budget_limits e fs d = Ok l"
    and t: "tc_updated_heap_bytes t = updated_heap_bytes l" "tc_compute_unit_limit t = limits_compute_unit_limit l"
      "tc_loaded_accounts_data_size_limit t = loaded_accounts_bytes l"
    using assms(1) by (auto simp: try_into_config_def)
  obtain h u b where x: "updated_heap_bytes l = min h MAX_HEAP_FRAME_BYTES"
    "limits_compute_unit_limit l = min u MAX_COMPUTE_UNIT_LIMIT"
    "loaded_accounts_bytes l = min b MAX_LOADED_ACCOUNTS_DATA_SIZE_BYTES"
    and h: "h = MIN_HEAP_FRAME_BYTES (be_sanitize e) \<or> sanitize_requested_heap_size e h"
    using convert_limits_Ok [OF l] by blast
  have "heap_in_range e h"
    using h assms(2,3) by (auto simp: heap_in_range_def sanitize_requested_heap_size_iff)
  moreover from this have "min h MAX_HEAP_FRAME_BYTES = h"
    by (simp add: heap_in_range_def MAX_HEAP_FRAME_BYTES_def min_def)
  ultimately show ?thesis unfolding t x by (simp add: capped)
qed

theorem config_within_limits_witness:
  "\<exists>t. try_into_config sample_env sample_features
      (V1Config \<lparr>tc_updated_heap_bytes = 65536, tc_compute_unit_limit = 2000000, tc_priority_fee_lamports = 1,
        tc_loaded_accounts_data_size_limit = 7\<rparr>) = Ok t \<and> unat (tc_compute_unit_limit t) \<le> 1400000"
proof -
  let ?c = "V1Config \<lparr>tc_updated_heap_bytes = 65536, tc_compute_unit_limit = 2000000, tc_priority_fee_lamports = 1,
        tc_loaded_accounts_data_size_limit = 7\<rparr>"
  obtain t where "try_into_config sample_env sample_features ?c = Ok t"
    by (simp add: try_into_config_def sample_env_def MAX_HEAP_FRAME_BYTES_def)
  moreover from config_within_limits [OF this] have "unat (tc_compute_unit_limit t) \<le> 1400000"
    by (simp add: sample_env_def)
  ultimately show ?thesis by blast
qed

lemma price_exact:
  "unat (compute_unit_price_in_microlamports c) =
     (let q = unat (tc_priority_fee_lamports c) * 1000000 div unat (tc_compute_unit_limit c) in
      if q < 2 ^ 64 then q else 0)"
proof -
  have "unat (tc_priority_fee_lamports c) * 1000000 \<le> 18446744073709551615 * 1000000"
    by (intro mult_le_mono) simp_all
  then have "min (unat (tc_priority_fee_lamports c) * 1000000) 340282366920938463463374607431768211455 =
      unat (tc_priority_fee_lamports c) * 1000000" by linarith
  moreover have "u64_to_u128 (u32_to_u64 w) = 0 \<longleftrightarrow> unat w = 0" for w
    by (metis unat_u64_to_u128 unat_u32_to_u64 unsigned_0 unat_eq_zero)
  ultimately show ?thesis
    by (auto simp: compute_unit_price_in_microlamports_def Let_def unat_div unat_sat_mul unsigned_ucast_eq
        take_bit_nat_eq_self)
qed

lemma ceil_million: "x \<le> (x + 999999) div 1000000 * 1000000" "(x + 999999) div 1000000 * 1000000 \<le> x + 999999" for x :: nat
  using div_mult_mod_eq [of "x + 999999" 1000000] mod_less_divisor [of 1000000 "x + 999999"] by linarith+

text \<open>
  C21: the effective price. Reading back the price of a transaction from the fee it pays gives at least
  the price per compute unit that the transaction set, and at most one lamport spread over its compute
  units more, unless the fee was capped or the price leaves the range of \<open>u64\<close>.
\<close>

theorem effective_price:
  assumes "tc_priority_fee_lamports c = get_prioritization_fee p (u32_to_u64 (tc_compute_unit_limit c))"
    and "0 < unat (tc_compute_unit_limit c)"
    and "unat p * unat (tc_compute_unit_limit c) + 999999 < 2 ^ 64 * 1000000"
    and "unat p + 999999 div unat (tc_compute_unit_limit c) < 2 ^ 64"
  shows "unat p \<le> unat (compute_unit_price_in_microlamports c) \<and>
    unat (compute_unit_price_in_microlamports c) \<le> unat p + 999999 div unat (tc_compute_unit_limit c)"
proof -
  let ?l = "unat (tc_compute_unit_limit c)" and ?f = "(unat p * unat (tc_compute_unit_limit c) + 999999) div 1000000"
  have "?f < 2 ^ 64" using assms(3) by (simp add: div_less_iff_less_mult)
  then have f: "unat (tc_priority_fee_lamports c) = ?f"
    unfolding assms(1) fee_exact by simp
  have q: "unat p * ?l div ?l \<le> ?f * 1000000 div ?l" "?f * 1000000 div ?l \<le> (unat p * ?l + 999999) div ?l"
    by (rule div_le_mono [OF ceil_million(1)], rule div_le_mono [OF ceil_million(2)])
  have "(unat p * ?l + 999999) div ?l = unat p + 999999 div ?l"
    using assms(2) by (subst add.commute) (simp add: add.commute)
  with q assms(2,4) show ?thesis by (simp add: price_exact f Let_def)
qed

definition sample_config :: TransactionConfiguration where
  "sample_config = \<lparr>tc_updated_heap_bytes = 32768, tc_compute_unit_limit = 300,
     tc_priority_fee_lamports = get_prioritization_fee 5000 300, tc_loaded_accounts_data_size_limit = 1\<rparr>"

theorem effective_price_witness:
  "5000 \<le> unat (compute_unit_price_in_microlamports sample_config) \<and>
    unat (compute_unit_price_in_microlamports sample_config) \<le> 8333"
proof -
  have "unat (tc_compute_unit_limit sample_config) = 300" "u32_to_u64 (tc_compute_unit_limit sample_config) = 300"
    "tc_priority_fee_lamports sample_config = get_prioritization_fee 5000 300"
    by (simp_all add: sample_config_def u32_to_u64_def)
  then show ?thesis using effective_price [of sample_config 5000] by simp
qed

text \<open>
  C22: the signature fee is the number of all signatures times the price of one, saturated only once at
  the end: no intermediate saturation changes the result.
\<close>

theorem signature_fee_exact:
  "unat (calculate_signature_fee c lamports_per_signature) =
     min ((unat (sc_num_transaction_signatures c) + unat (sc_num_ed25519_signatures c)
            + unat (sc_num_secp256k1_signatures c) + unat (sc_num_secp256r1_signatures c))
          * unat lamports_per_signature) (2 ^ 64 - 1)"
  by (simp add: calculate_signature_fee_def unat_sat_mul unat_sat_add saturation)

end
