(* ===== verification/Cost_Model.thy ===== *)
theory Cost_Model
  imports Runtime_Tx
begin

text \<open>
  \<open>cost-model\<close>: the cost of a transaction in compute units (\<open>block_cost_limits.rs\<close>,
  \<open>transaction_cost.rs\<close>, \<open>cost_model.rs\<close>). The trait methods that the cost model calls on a transaction are
  the fields of \<open>cost_tx\<close>; \<open>cost_tx_of\<close> of \<open>Packet_Intake\<close> fills them for a runtime transaction. The decoder of system
  instructions and the allocation limits come from crates outside the repository (\<open>cost_env\<close>).
\<close>

section \<open>Definitions\<close>

subsection \<open>Limits and rates\<close>

definition COMPUTE_UNIT_TO_US_RATIO :: u64 where "COMPUTE_UNIT_TO_US_RATIO = 30"
definition SIGNATURE_COST :: u64 where "SIGNATURE_COST = COMPUTE_UNIT_TO_US_RATIO * 24"
definition SECP256K1_VERIFY_COST :: u64 where "SECP256K1_VERIFY_COST = COMPUTE_UNIT_TO_US_RATIO * 223"
definition ED25519_VERIFY_STRICT_COST :: u64 where "ED25519_VERIFY_STRICT_COST = COMPUTE_UNIT_TO_US_RATIO * 80"
definition SECP256R1_VERIFY_COST :: u64 where "SECP256R1_VERIFY_COST = COMPUTE_UNIT_TO_US_RATIO * 160"
definition WRITE_LOCK_UNITS :: u64 where "WRITE_LOCK_UNITS = COMPUTE_UNIT_TO_US_RATIO * 10"
definition INSTRUCTION_DATA_BYTES_COST :: u64 where
  "INSTRUCTION_DATA_BYTES_COST = 140 div COMPUTE_UNIT_TO_US_RATIO"
definition MAX_BLOCK_UNITS_SIMD_0256 :: u64 where "MAX_BLOCK_UNITS_SIMD_0256 = 60000000"
definition MAX_BLOCK_UNITS :: u64 where "MAX_BLOCK_UNITS = MAX_BLOCK_UNITS_SIMD_0256"
definition MAX_BLOCK_UNITS_SIMD_0286 :: u64 where "MAX_BLOCK_UNITS_SIMD_0286 = 100000000"
definition MAX_WRITABLE_ACCOUNT_UNITS :: u64 where "MAX_WRITABLE_ACCOUNT_UNITS = 24000000"
definition MAX_VOTE_UNITS :: u64 where "MAX_VOTE_UNITS = 36000000"
definition MAX_BLOCK_ACCOUNTS_DATA_SIZE_DELTA :: u64 where "MAX_BLOCK_ACCOUNTS_DATA_SIZE_DELTA = 100000000"
definition simd_0286_block_limit :: u64 where "simd_0286_block_limit = MAX_BLOCK_UNITS_SIMD_0286"
definition SIMPLE_VOTE_USAGE_COST :: u64 where "SIMPLE_VOTE_USAGE_COST = 3428"
definition DEFAULT_COMPUTE_UNITS :: u64 where "DEFAULT_COMPUTE_UNITS = 2100"
definition DEFAULT_HEAP_COST :: u64 where "DEFAULT_HEAP_COST = 8"
definition ACCOUNT_DATA_COST_PAGE_SIZE :: u64 where "ACCOUNT_DATA_COST_PAGE_SIZE = sat_mul 32 1024"

lemmas cost_constants = COMPUTE_UNIT_TO_US_RATIO_def SIGNATURE_COST_def SECP256K1_VERIFY_COST_def
  ED25519_VERIFY_STRICT_COST_def SECP256R1_VERIFY_COST_def WRITE_LOCK_UNITS_def
  INSTRUCTION_DATA_BYTES_COST_def SIMPLE_VOTE_USAGE_COST_def DEFAULT_COMPUTE_UNITS_def
  DEFAULT_HEAP_COST_def ACCOUNT_DATA_COST_PAGE_SIZE_def

subsection \<open>Transactions and their costs\<close>

record 'k cost_tx =
  tx_is_simple_vote_transaction :: bool
  tx_signature_details :: TransactionSignatureDetails
  tx_transaction_configuration :: "FeatureSet \<Rightarrow> (TransactionError, TransactionConfiguration) outcome"
  tx_instruction_data_len :: u16
  tx_program_instructions :: program_instructions
  tx_num_write_locks :: u64
  tx_account_keys :: "'k list"
  tx_is_writable :: "usize \<Rightarrow> bool"

record 'k UsageCostDetails =
  uc_transaction :: "'k cost_tx"
  uc_signature_cost :: u64
  uc_write_lock_cost :: u64
  uc_data_bytes_cost :: u16
  uc_programs_execution_cost :: u64
  uc_loaded_accounts_data_size_cost :: u64
  uc_allocated_accounts_data_size :: u64

datatype 'k TransactionCost = SimpleVote "'k cost_tx" | Transaction "'k UsageCostDetails"

definition u16_to_u64 :: "u16 \<Rightarrow> u64" where "u16_to_u64 w = ucast w"

definition usage_sum :: "'k UsageCostDetails \<Rightarrow> u64" where
  "usage_sum u =
     sat_add (sat_add (sat_add (sat_add (uc_signature_cost u) (uc_write_lock_cost u))
       (u16_to_u64 (uc_data_bytes_cost u))) (uc_programs_execution_cost u))
       (uc_loaded_accounts_data_size_cost u)"

fun cost_sum :: "'k TransactionCost \<Rightarrow> u64" where
  "cost_sum (SimpleVote _) = SIMPLE_VOTE_USAGE_COST"
| "cost_sum (Transaction u) = usage_sum u"

fun programs_execution_cost :: "'k TransactionCost \<Rightarrow> u64" where
  "programs_execution_cost (SimpleVote _) = DEFAULT_COMPUTE_UNITS"
| "programs_execution_cost (Transaction u) = uc_programs_execution_cost u"

fun should_track_as_simple_vote :: "'k TransactionCost \<Rightarrow> bool" where
  "should_track_as_simple_vote (SimpleVote _) = True"
| "should_track_as_simple_vote (Transaction _) = False"

fun data_bytes_cost :: "'k TransactionCost \<Rightarrow> u16" where
  "data_bytes_cost (SimpleVote _) = 0"
| "data_bytes_cost (Transaction u) = uc_data_bytes_cost u"

fun cost_allocated_accounts_data_size :: "'k TransactionCost \<Rightarrow> u64" where
  "cost_allocated_accounts_data_size (SimpleVote _) = 0"
| "cost_allocated_accounts_data_size (Transaction u) = uc_allocated_accounts_data_size u"

fun loaded_accounts_data_size_cost :: "'k TransactionCost \<Rightarrow> u64" where
  "loaded_accounts_data_size_cost (SimpleVote _) = 8"
| "loaded_accounts_data_size_cost (Transaction u) = uc_loaded_accounts_data_size_cost u"

fun signature_cost :: "'k TransactionCost \<Rightarrow> u64" where
  "signature_cost (SimpleVote _) = SIGNATURE_COST"
| "signature_cost (Transaction u) = uc_signature_cost u"

fun write_lock_cost :: "'k TransactionCost \<Rightarrow> u64" where
  "write_lock_cost (SimpleVote _) = sat_mul WRITE_LOCK_UNITS 2"
| "write_lock_cost (Transaction u) = uc_write_lock_cost u"

fun cost_transaction :: "'k TransactionCost \<Rightarrow> 'k cost_tx" where
  "cost_transaction (SimpleVote tx) = tx"
| "cost_transaction (Transaction u) = uc_transaction u"

definition writable_accounts :: "'k TransactionCost \<Rightarrow> 'k list" where
  "writable_accounts c =
     (let tx = cost_transaction c in
      map snd (filter (\<lambda>(index, _). tx_is_writable tx index) (enumerate 0 (tx_account_keys tx))))"

fun cost_num_transaction_signatures :: "'k TransactionCost \<Rightarrow> u64" where
  "cost_num_transaction_signatures (SimpleVote _) = 1"
| "cost_num_transaction_signatures (Transaction u) =
     num_transaction_signatures (tx_signature_details (uc_transaction u))"

fun cost_num_secp256k1_instruction_signatures :: "'k TransactionCost \<Rightarrow> u64" where
  "cost_num_secp256k1_instruction_signatures (SimpleVote _) = 0"
| "cost_num_secp256k1_instruction_signatures (Transaction u) =
     num_secp256k1_instruction_signatures (tx_signature_details (uc_transaction u))"

fun cost_num_ed25519_instruction_signatures :: "'k TransactionCost \<Rightarrow> u64" where
  "cost_num_ed25519_instruction_signatures (SimpleVote _) = 0"
| "cost_num_ed25519_instruction_signatures (Transaction u) =
     num_ed25519_instruction_signatures (tx_signature_details (uc_transaction u))"

fun cost_num_secp256r1_instruction_signatures :: "'k TransactionCost \<Rightarrow> u64" where
  "cost_num_secp256r1_instruction_signatures (SimpleVote _) = 0"
| "cost_num_secp256r1_instruction_signatures (Transaction u) =
     num_secp256r1_instruction_signatures (tx_signature_details (uc_transaction u))"

subsection \<open>The cost model\<close>

text \<open>The system instructions, with the field that the cost model reads.\<close>

datatype SystemInstruction =
  CreateAccount u64 | CreateAccountWithSeed u64 | Allocate u64 | AllocateWithSeed u64
| CreateAccountAllowPrefund u64
| Assign | Transfer | AdvanceNonceAccount | WithdrawNonceAccount | InitializeNonceAccount
| AuthorizeNonceAccount | UpgradeNonceAccount | AssignWithSeed | TransferWithSeed

datatype SystemProgramAccountAllocation = NoAllocation | SomeAllocation u64 | FailedAllocation

record cost_env =
  ce_budget :: budget_env
  limited_deserialize :: "bytes \<Rightarrow> usize \<Rightarrow> SystemInstruction option"
  MAX_PERMITTED_DATA_LENGTH :: u64
  MAX_PERMITTED_ACCOUNTS_DATA_ALLOCATIONS_PER_TRANSACTION :: u64

definition get_signature_cost :: "'k cost_tx \<Rightarrow> u64" where
  "get_signature_cost tx =
     (let d = tx_signature_details tx in
      sat_add (sat_add (sat_add (sat_mul (num_transaction_signatures d) SIGNATURE_COST)
        (sat_mul (num_secp256k1_instruction_signatures d) SECP256K1_VERIFY_COST))
        (sat_mul (num_ed25519_instruction_signatures d) ED25519_VERIFY_STRICT_COST))
        (sat_mul (num_secp256r1_instruction_signatures d) SECP256R1_VERIFY_COST))"

definition get_write_lock_cost :: "u64 \<Rightarrow> u64" where
  "get_write_lock_cost num_write_locks = sat_mul WRITE_LOCK_UNITS num_write_locks"

definition calculate_pages_for_bytes :: "u32 \<Rightarrow> u64" where
  "calculate_pages_for_bytes bytes =
     sat_add (u32_to_u64 bytes) (sat_sub ACCOUNT_DATA_COST_PAGE_SIZE 1) div ACCOUNT_DATA_COST_PAGE_SIZE"

definition calculate_pages_cost :: "u64 \<Rightarrow> u64" where
  "calculate_pages_cost num_pages = sat_mul num_pages DEFAULT_HEAP_COST"

definition calculate_loaded_accounts_data_size_cost :: "u32 \<Rightarrow> u64" where
  "calculate_loaded_accounts_data_size_cost bytes = calculate_pages_cost (calculate_pages_for_bytes bytes)"

text \<open>A panic inside \<open>transaction_configuration\<close> is passed on; an error means no execution cost.\<close>

definition get_estimated_execution_cost :: "'k cost_tx \<Rightarrow> FeatureSet \<Rightarrow> (TransactionError, u64 \<times> u64) outcome" where
  "get_estimated_execution_cost tx fs =
     (case tx_transaction_configuration tx fs of
        Ok config \<Rightarrow> Ok (u32_to_u64 (tc_compute_unit_limit config),
                        calculate_loaded_accounts_data_size_cost (tc_loaded_accounts_data_size_limit config))
      | Err _ \<Rightarrow> Ok (0, 0)
      | Panic \<Rightarrow> Panic
      | UB \<Rightarrow> UB)"

definition get_instructions_data_cost :: "'k cost_tx \<Rightarrow> u16" where
  "get_instructions_data_cost tx = tx_instruction_data_len tx div ucast INSTRUCTION_DATA_BYTES_COST"

definition validate_space :: "cost_env \<Rightarrow> u64 \<Rightarrow> SystemProgramAccountAllocation" where
  "validate_space ce space = (if space > MAX_PERMITTED_DATA_LENGTH ce then FailedAllocation else SomeAllocation space)"

definition calculate_account_data_size_on_deserialized_system_instruction ::
  "cost_env \<Rightarrow> SystemInstruction \<Rightarrow> FeatureSet \<Rightarrow> SystemProgramAccountAllocation" where
  "calculate_account_data_size_on_deserialized_system_instruction ce instruction fs =
     (case instruction of
        CreateAccount space \<Rightarrow> validate_space ce space
      | CreateAccountWithSeed space \<Rightarrow> validate_space ce space
      | Allocate space \<Rightarrow> validate_space ce space
      | AllocateWithSeed space \<Rightarrow> validate_space ce space
      | CreateAccountAllowPrefund space \<Rightarrow>
          if \<not> create_account_allow_prefund fs then FailedAllocation else validate_space ce space
      | Assign \<Rightarrow> NoAllocation | Transfer \<Rightarrow> NoAllocation | AdvanceNonceAccount \<Rightarrow> NoAllocation
      | WithdrawNonceAccount \<Rightarrow> NoAllocation | InitializeNonceAccount \<Rightarrow> NoAllocation
      | AuthorizeNonceAccount \<Rightarrow> NoAllocation | UpgradeNonceAccount \<Rightarrow> NoAllocation
      | AssignWithSeed \<Rightarrow> NoAllocation | TransferWithSeed \<Rightarrow> NoAllocation)"

definition calculate_account_data_size_on_instruction ::
  "cost_env \<Rightarrow> Pubkey \<Rightarrow> SVMInstruction \<Rightarrow> FeatureSet \<Rightarrow> SystemProgramAccountAllocation" where
  "calculate_account_data_size_on_instruction ce program_id instruction fs =
     (if program_id = system_program_id (be_ids (ce_budget ce))
      then (case limited_deserialize ce (ix_data instruction) PACKET_DATA_SIZE of
              Some si \<Rightarrow> calculate_account_data_size_on_deserialized_system_instruction ce si fs
            | None \<Rightarrow> FailedAllocation)
      else NoAllocation)"

text \<open>The loop of \<open>calculate_allocated_accounts_data_size\<close>, with its early return.\<close>

fun allocated_loop :: "cost_env \<Rightarrow> FeatureSet \<Rightarrow> u64 \<Rightarrow> program_instructions \<Rightarrow> u64" where
  "allocated_loop ce fs attempted [] =
     min (MAX_PERMITTED_ACCOUNTS_DATA_ALLOCATIONS_PER_TRANSACTION ce) attempted"
| "allocated_loop ce fs attempted ((program_id, instruction) # rest) =
     (case calculate_account_data_size_on_instruction ce program_id instruction fs of
        FailedAllocation \<Rightarrow> 0
      | NoAllocation \<Rightarrow> allocated_loop ce fs attempted rest
      | SomeAllocation n \<Rightarrow> allocated_loop ce fs (sat_add attempted n) rest)"

definition calculate_allocated_accounts_data_size :: "cost_env \<Rightarrow> FeatureSet \<Rightarrow> program_instructions \<Rightarrow> u64" where
  "calculate_allocated_accounts_data_size ce fs instructions = allocated_loop ce fs 0 instructions"

definition calculate_non_vote_transaction_cost ::
  "cost_env \<Rightarrow> 'k cost_tx \<Rightarrow> program_instructions \<Rightarrow> u64 \<Rightarrow> u64 \<Rightarrow> u64 \<Rightarrow> u16 \<Rightarrow> FeatureSet \<Rightarrow> 'k TransactionCost" where
  "calculate_non_vote_transaction_cost ce tx instructions num_write_locks execution loaded data fs =
     Transaction \<lparr>uc_transaction = tx, uc_signature_cost = get_signature_cost tx,
       uc_write_lock_cost = get_write_lock_cost num_write_locks, uc_data_bytes_cost = data,
       uc_programs_execution_cost = execution, uc_loaded_accounts_data_size_cost = loaded,
       uc_allocated_accounts_data_size = calculate_allocated_accounts_data_size ce fs instructions\<rparr>"

definition calculate_cost :: "cost_env \<Rightarrow> 'k cost_tx \<Rightarrow> FeatureSet \<Rightarrow> (TransactionError, 'k TransactionCost) outcome" where
  "calculate_cost ce tx fs =
     (if tx_is_simple_vote_transaction tx \<and> \<not> remove_simple_vote_from_cost_model fs then Ok (SimpleVote tx)
      else obind (get_estimated_execution_cost tx fs) (\<lambda>(execution, loaded).
        Ok (calculate_non_vote_transaction_cost ce tx (tx_program_instructions tx) (tx_num_write_locks tx)
              execution loaded (get_instructions_data_cost tx) fs)))"

definition calculate_cost_for_executed_transaction ::
  "cost_env \<Rightarrow> 'k cost_tx \<Rightarrow> u64 \<Rightarrow> u32 \<Rightarrow> FeatureSet \<Rightarrow> 'k TransactionCost" where
  "calculate_cost_for_executed_transaction ce tx actual_programs_execution_cost actual_bytes fs =
     (if tx_is_simple_vote_transaction tx \<and> \<not> remove_simple_vote_from_cost_model fs then SimpleVote tx
      else calculate_non_vote_transaction_cost ce tx (tx_program_instructions tx) (tx_num_write_locks tx)
             actual_programs_execution_cost (calculate_loaded_accounts_data_size_cost actual_bytes)
             (get_instructions_data_cost tx) fs)"

definition estimate_cost ::
  "cost_env \<Rightarrow> 'k cost_tx \<Rightarrow> program_instructions \<Rightarrow> u64 \<Rightarrow> FeatureSet \<Rightarrow>
     (TransactionError, 'k TransactionCost) outcome" where
  "estimate_cost ce tx instructions num_write_locks fs =
     (if tx_is_simple_vote_transaction tx \<and> \<not> remove_simple_vote_from_cost_model fs then Ok (SimpleVote tx)
      else obind (get_estimated_execution_cost tx fs) (\<lambda>(execution, loaded).
        Ok (calculate_non_vote_transaction_cost ce tx instructions num_write_locks
              execution loaded (get_instructions_data_cost tx) fs)))"

section \<open>Costs over the natural numbers\<close>

lemma unat_u16_to_u64 [simp]: "unat (u16_to_u64 w) = unat w"
  using unsigned_less [of w, where 'a = nat]
  by (simp add: u16_to_u64_def unsigned_ucast_eq take_bit_nat_eq_self)

lemma u32_less [simp]: "unat w < 4294967296" for w :: u32
  using unsigned_less [of w, where 'a = nat] by simp

lemma unat_pages: "unat (calculate_pages_for_bytes b) = (unat b + 32767) div 32768"
proof -
  have "unat b + 32767 \<le> 18446744073709551615" using u32_less [of b] by linarith
  then show ?thesis
    by (simp add: calculate_pages_for_bytes_def unat_div unat_sat_add unat_sat_sub unat_sat_mul cost_constants)
qed

lemma unat_loaded_cost: "unat (calculate_loaded_accounts_data_size_cost b) = 8 * ((unat b + 32767) div 32768)"
proof -
  have "(unat b + 32767) div 32768 \<le> unat b + 32767" by (rule div_le_dividend)
  then have "(unat b + 32767) div 32768 * 8 \<le> 18446744073709551615" using u32_less [of b] by linarith
  then show ?thesis
    by (simp add: calculate_loaded_accounts_data_size_cost_def calculate_pages_cost_def unat_sat_mul unat_pages
        cost_constants)
qed

definition signature_units :: "TransactionSignatureDetails \<Rightarrow> nat" where
  "signature_units d = 720 * unat (num_transaction_signatures d) + 6690 * unat (num_secp256k1_instruction_signatures d)
     + 2400 * unat (num_ed25519_instruction_signatures d) + 4800 * unat (num_secp256r1_instruction_signatures d)"

lemma unat_signature_cost:
  "unat (get_signature_cost tx) = min (signature_units (tx_signature_details tx)) (2 ^ 64 - 1)"
  by (simp add: get_signature_cost_def Let_def unat_sat_add unat_sat_mul saturation cost_constants
      signature_units_def mult.commute)

lemma unat_data_cost: "unat (get_instructions_data_cost tx) = unat (tx_instruction_data_len tx) div 4"
  by (simp add: get_instructions_data_cost_def unat_div cost_constants)

lemma unat_usage_sum:
  "unat (usage_sum u) = min (unat (uc_signature_cost u) + unat (uc_write_lock_cost u) + unat (uc_data_bytes_cost u)
     + unat (uc_programs_execution_cost u) + unat (uc_loaded_accounts_data_size_cost u)) (2 ^ 64 - 1)"
  by (simp add: usage_sum_def unat_sat_add saturation)

definition non_vote_units :: "'k cost_tx \<Rightarrow> nat \<Rightarrow> nat \<Rightarrow> nat \<Rightarrow> nat" where
  "non_vote_units tx locks execution loaded =
     signature_units (tx_signature_details tx) + 300 * locks + unat (tx_instruction_data_len tx) div 4
       + execution + loaded"

lemma unat_non_vote_cost:
  "unat (cost_sum (calculate_non_vote_transaction_cost ce tx ixs locks execution loaded (get_instructions_data_cost tx) fs)) =
     min (non_vote_units tx (unat locks) (unat execution) (unat loaded)) (2 ^ 64 - 1)"
  by (simp add: calculate_non_vote_transaction_cost_def unat_usage_sum unat_signature_cost get_write_lock_cost_def
      unat_sat_mul cost_constants unat_data_cost saturation non_vote_units_def add.assoc min_def)

definition counts_as_vote :: "'k cost_tx \<Rightarrow> FeatureSet \<Rightarrow> bool" where
  "counts_as_vote tx fs \<longleftrightarrow> tx_is_simple_vote_transaction tx \<and> \<not> remove_simple_vote_from_cost_model fs"

definition execution_units :: "'k cost_tx \<Rightarrow> FeatureSet \<Rightarrow> nat \<times> nat" where
  "execution_units tx fs =
     (case tx_transaction_configuration tx fs of
        Ok c \<Rightarrow> (unat (tc_compute_unit_limit c), 8 * ((unat (tc_loaded_accounts_data_size_limit c) + 32767) div 32768))
      | _ \<Rightarrow> (0, 0))"

lemma estimated_execution_exact:
  assumes "defined_outcome (tx_transaction_configuration tx fs)"
  obtains x l where "get_estimated_execution_cost tx fs = Ok (x, l)" "execution_units tx fs = (unat x, unat l)"
  using assms that
  by (cases "tx_transaction_configuration tx fs")
    (auto simp: get_estimated_execution_cost_def execution_units_def unat_loaded_cost)

lemma calculate_cost_cases:
  assumes "defined_outcome (tx_transaction_configuration tx fs)"
  obtains "counts_as_vote tx fs" "calculate_cost ce tx fs = Ok (SimpleVote tx)"
  | x l where "\<not> counts_as_vote tx fs" "execution_units tx fs = (unat x, unat l)"
    "get_estimated_execution_cost tx fs = Ok (x, l)"
    "calculate_cost ce tx fs = Ok (calculate_non_vote_transaction_cost ce tx (tx_program_instructions tx)
       (tx_num_write_locks tx) x l (get_instructions_data_cost tx) fs)"
proof (cases "counts_as_vote tx fs")
  case True
  then show thesis by (intro that(1)) (simp_all add: calculate_cost_def counts_as_vote_def)
next
  case False
  obtain x l where e: "get_estimated_execution_cost tx fs = Ok (x, l)" "execution_units tx fs = (unat x, unat l)"
    using estimated_execution_exact [OF assms] by blast
  show thesis
    by (rule that(2) [OF False e(2,1)]) (use False e(1) in \<open>auto simp: calculate_cost_def counts_as_vote_def\<close>)
qed

definition sample_cost_tx :: "nat cost_tx" where
  "sample_cost_tx = \<lparr>tx_is_simple_vote_transaction = False,
     tx_signature_details = \<lparr>num_transaction_signatures = 2, num_secp256k1_instruction_signatures = 0,
       num_ed25519_instruction_signatures = 1, num_secp256r1_instruction_signatures = 0\<rparr>,
     tx_transaction_configuration = (\<lambda>_. Ok \<lparr>tc_updated_heap_bytes = 32768, tc_compute_unit_limit = 5000,
       tc_priority_fee_lamports = 0, tc_loaded_accounts_data_size_limit = 40000\<rparr>),
     tx_instruction_data_len = 50, tx_program_instructions = [], tx_num_write_locks = 3,
     tx_account_keys = [10, 20, 30], tx_is_writable = (\<lambda>i. i < 2)\<rparr>"

definition sample_cost_env :: cost_env where
  "sample_cost_env = \<lparr>ce_budget = sample_env,
     limited_deserialize = (\<lambda>data _. if data = [1] then Some (Allocate 100) else Some Transfer),
     MAX_PERMITTED_DATA_LENGTH = 10485760, MAX_PERMITTED_ACCOUNTS_DATA_ALLOCATIONS_PER_TRANSACTION = 20971520\<rparr>"

text \<open>
  C27: the cost of a transaction is exact. It never fails, a simple vote costs 3428 units, and any other
  transaction the sum over the natural numbers of 720, 6690, 2400 and 4800 units per signature of each kind,
  300 per write lock, one per four bytes of instruction data, its compute unit limit and 8 per started page
  of 32 KiB of account data, saturated only once; a transaction with an invalid budget costs no execution.
\<close>

theorem calculate_cost_exact:
  assumes "defined_outcome (tx_transaction_configuration tx fs)"
  shows "\<exists>c. calculate_cost ce tx fs = Ok c \<and>
    unat (cost_sum c) =
      (if counts_as_vote tx fs then 3428
       else min (non_vote_units tx (unat (tx_num_write_locks tx)) (fst (execution_units tx fs))
                   (snd (execution_units tx fs))) (2 ^ 64 - 1))"
  by (cases rule: calculate_cost_cases [OF assms, where ce = ce])
    (simp_all add: SIMPLE_VOTE_USAGE_COST_def unat_non_vote_cost)

theorem calculate_cost_exact_witness:
  "\<exists>c. calculate_cost sample_cost_env sample_cost_tx sample_features = Ok c \<and> unat (cost_sum c) = 9768"
  using calculate_cost_exact [of sample_cost_tx sample_features sample_cost_env]
  by (simp add: sample_cost_tx_def counts_as_vote_def non_vote_units_def signature_units_def execution_units_def)

text \<open>
  The parts of a cost add up. For simple votes and for all other transactions the total is the sum of
  the signature, write lock, data, execution and account data parts that the accessors report, so that the
  static vote cost agrees with its declared parts.
\<close>

theorem cost_sum_of_parts:
  "unat (cost_sum c) =
     min (unat (signature_cost c) + unat (write_lock_cost c) + unat (data_bytes_cost c)
       + unat (programs_execution_cost c) + unat (loaded_accounts_data_size_cost c)) (2 ^ 64 - 1)"
  by (cases c) (simp_all add: unat_usage_sum unat_sat_mul cost_constants)

text \<open>
  C28: executing a transaction never raises its cost above the estimate when it stays within its budget:
  with at most the requested compute units and loaded bytes, the cost computed after execution is at most
  the one reserved before.
\<close>

theorem executed_cost_within_estimate:
  assumes "tx_transaction_configuration tx fs = Ok config"
    and "unat units \<le> unat (tc_compute_unit_limit config)" and "bytes \<le> tc_loaded_accounts_data_size_limit config"
    and "calculate_cost ce tx fs = Ok c"
  shows "cost_sum (calculate_cost_for_executed_transaction ce tx units bytes fs) \<le> cost_sum c"
proof -
  have d: "defined_outcome (tx_transaction_configuration tx fs)" using assms(1) by simp
  show ?thesis
  proof (cases rule: calculate_cost_cases [OF d, where ce = ce])
    case 1
    then show ?thesis
      using assms(4) by (simp add: calculate_cost_for_executed_transaction_def counts_as_vote_def)
  next
    case (2 x l)
    have "(unat bytes + 32767) div 32768 \<le> (unat (tc_loaded_accounts_data_size_limit config) + 32767) div 32768"
      using assms(3) by (intro div_le_mono) (simp add: word_le_nat_alt)
    then have "unat units \<le> unat x" "8 * ((unat bytes + 32767) div 32768) \<le> unat l"
      using 2(2) assms(1,2) by (simp_all add: execution_units_def)
    then have "non_vote_units tx k (unat units) (8 * ((unat bytes + 32767) div 32768)) \<le> non_vote_units tx k (unat x) (unat l)" for k
      by (simp add: non_vote_units_def)
    then show ?thesis
      using 2(1,4) assms(4)
      by (auto simp: calculate_cost_for_executed_transaction_def counts_as_vote_def word_le_nat_alt unat_non_vote_cost
          unat_loaded_cost intro: min.coboundedI1)
  qed
qed

theorem executed_cost_within_estimate_witness:
  "\<exists>c. calculate_cost sample_cost_env sample_cost_tx sample_features = Ok c \<and>
     cost_sum (calculate_cost_for_executed_transaction sample_cost_env sample_cost_tx 1200 300 sample_features)
       \<le> cost_sum c"
proof -
  have t: "tx_transaction_configuration sample_cost_tx sample_features = Ok \<lparr>tc_updated_heap_bytes = 32768,
      tc_compute_unit_limit = 5000, tc_priority_fee_lamports = 0, tc_loaded_accounts_data_size_limit = 40000\<rparr>"
    by (simp add: sample_cost_tx_def)
  obtain c where c: "calculate_cost sample_cost_env sample_cost_tx sample_features = Ok c"
    by (simp add: calculate_cost_def get_estimated_execution_cost_def sample_cost_tx_def)
  with executed_cost_within_estimate [OF t _ _ c, of 1200 300] show ?thesis by simp
qed

section \<open>Account data allocations\<close>

fun allocation_bytes :: "SystemProgramAccountAllocation \<Rightarrow> nat" where
  "allocation_bytes (SomeAllocation n) = unat n"
| "allocation_bytes _ = 0"

definition allocations :: "cost_env \<Rightarrow> FeatureSet \<Rightarrow> program_instructions \<Rightarrow> SystemProgramAccountAllocation list" where
  "allocations ce fs ixs = map (\<lambda>(program_id, ix). calculate_account_data_size_on_instruction ce program_id ix fs) ixs"

lemma allocated_loop_exact:
  "unat (allocated_loop ce fs n ixs) =
     (if FailedAllocation \<in> set (allocations ce fs ixs) then 0
      else min (unat n + sum_list (map allocation_bytes (allocations ce fs ixs)))
             (unat (MAX_PERMITTED_ACCOUNTS_DATA_ALLOCATIONS_PER_TRANSACTION ce)))"
proof (induction ixs arbitrary: n)
  case Nil
  then show ?case by (simp add: allocations_def min_def word_le_nat_alt)
next
  case (Cons pi rest)
  obtain program_id ix where pi: "pi = (program_id, ix)" by (cases pi)
  show ?case
  proof (cases "calculate_account_data_size_on_instruction ce program_id ix fs")
    case (SomeAllocation k)
    have cap: "min (min a 18446744073709551615 + b) m = min (a + b) m" if "m \<le> 18446744073709551615" for a b m :: nat
      using that by (auto simp: min_def)
    show ?thesis
      using SomeAllocation Cons.IH [of "sat_add n k"] by (simp add: pi allocations_def unat_sat_add cap add.assoc)
  qed (use Cons.IH [of n] in \<open>simp_all add: pi allocations_def\<close>)
qed

text \<open>
  C29: the account data that a transaction may allocate is the sum over its system instructions, at most the
  limit per transaction, and nothing as soon as one of them is bound to fail.
\<close>

theorem allocated_size_exact:
  "unat (calculate_allocated_accounts_data_size ce fs ixs) =
     (if FailedAllocation \<in> set (allocations ce fs ixs) then 0
      else min (sum_list (map allocation_bytes (allocations ce fs ixs)))
             (unat (MAX_PERMITTED_ACCOUNTS_DATA_ALLOCATIONS_PER_TRANSACTION ce)))"
  by (simp add: calculate_allocated_accounts_data_size_def allocated_loop_exact)

end
