(* ===== verification/Cost_Tracker.thy ===== *)
theory Cost_Tracker
  imports Cost_Model "HOL-Library.Multiset"
begin

text \<open>
  \<open>cost-model/src/cost_tracker.rs\<close>: the costs that a block has taken so far. The shared block cost is an
  atomic word whose updates wrap around; the other counters saturate. The abstract view of a tracker is the
  multiset of the transactions in the block with the cost each of them accounts for; the lemmas show that
  the operations keep every counter equal to the corresponding sum, and within the limits.
\<close>

section \<open>Definitions\<close>

datatype CostTrackerError =
  WouldExceedBlockMaxLimit
| WouldExceedVoteMaxLimit
| WouldExceedAccountMaxLimit
| WouldExceedAccountDataBlockLimit
| WouldExceedAccountDataTotalLimit

fun TransactionError_from :: "CostTrackerError \<Rightarrow> TransactionError" where
  "TransactionError_from WouldExceedBlockMaxLimit = WouldExceedMaxBlockCostLimit"
| "TransactionError_from WouldExceedVoteMaxLimit = WouldExceedMaxVoteCostLimit"
| "TransactionError_from WouldExceedAccountMaxLimit = WouldExceedMaxAccountCostLimit"
| "TransactionError_from WouldExceedAccountDataBlockLimit = TxWouldExceedAccountDataBlockLimit"
| "TransactionError_from WouldExceedAccountDataTotalLimit = TxWouldExceedAccountDataTotalLimit"

record UpdatedCosts =
  updated_block_cost :: u64
  updated_costliest_account_cost :: u64

record 'k CostTracker =
  account_cost_limit :: u64
  block_cost_limit :: u64
  vote_cost_limit :: u64
  allocated_data_size_limit :: u64
  cost_by_writable_accounts :: "'k \<rightharpoonup> u64"
  block_cost :: u64
  vote_cost :: u64
  transaction_count :: u64
  allocated_accounts_data_size :: u64
  transaction_signature_count :: u64
  secp256k1_instruction_signature_count :: u64
  ed25519_instruction_signature_count :: u64
  in_flight_transaction_count :: u64
  secp256r1_instruction_signature_count :: u64

definition CostTracker_default :: "'k CostTracker" where
  "CostTracker_default =
     \<lparr>account_cost_limit = MAX_WRITABLE_ACCOUNT_UNITS, block_cost_limit = MAX_BLOCK_UNITS,
      vote_cost_limit = MAX_VOTE_UNITS, allocated_data_size_limit = MAX_BLOCK_ACCOUNTS_DATA_SIZE_DELTA,
      cost_by_writable_accounts = Map.empty, block_cost = 0, vote_cost = 0, transaction_count = 0,
      allocated_accounts_data_size = 0, transaction_signature_count = 0,
      secp256k1_instruction_signature_count = 0, ed25519_instruction_signature_count = 0,
      in_flight_transaction_count = 0, secp256r1_instruction_signature_count = 0\<rparr>"

definition set_limits :: "u64 \<Rightarrow> u64 \<Rightarrow> u64 \<Rightarrow> u64 \<Rightarrow> 'k CostTracker \<Rightarrow> 'k CostTracker" where
  "set_limits account block vote allocated t =
     t\<lparr>account_cost_limit := account, block_cost_limit := block, vote_cost_limit := vote,
       allocated_data_size_limit := allocated\<rparr>"

definition set_limits_max :: "'k CostTracker \<Rightarrow> 'k CostTracker" where
  "set_limits_max t = set_limits (- 1) (- 1) (- 1) (- 1) t"

definition new_from_parent_limits :: "'k CostTracker \<Rightarrow> 'k CostTracker" where
  "new_from_parent_limits t =
     set_limits (account_cost_limit t) (block_cost_limit t) (vote_cost_limit t) (allocated_data_size_limit t)
       CostTracker_default"

definition add_transactions_in_flight :: "u64 \<Rightarrow> 'k CostTracker \<Rightarrow> 'k CostTracker" where
  "add_transactions_in_flight n t = t\<lparr>in_flight_transaction_count := sat_add (in_flight_transaction_count t) n\<rparr>"

definition sub_transactions_in_flight :: "u64 \<Rightarrow> 'k CostTracker \<Rightarrow> 'k CostTracker" where
  "sub_transactions_in_flight n t = t\<lparr>in_flight_transaction_count := sat_sub (in_flight_transaction_count t) n\<rparr>"

definition would_fit :: "'k CostTracker \<Rightarrow> 'k TransactionCost \<Rightarrow> (CostTrackerError, unit) outcome" where
  "would_fit t tx_cost =
     (let cost = cost_sum tx_cost in
      if should_track_as_simple_vote tx_cost \<and> sat_add (vote_cost t) cost > vote_cost_limit t
      then Err WouldExceedVoteMaxLimit
      else if sat_add (block_cost t) cost > block_cost_limit t then Err WouldExceedBlockMaxLimit
      else if cost > account_cost_limit t then Err WouldExceedAccountMaxLimit
      else if sat_add (allocated_accounts_data_size t) (cost_allocated_accounts_data_size tx_cost)
                > allocated_data_size_limit t
      then Err WouldExceedAccountDataBlockLimit
      else if list_ex (\<lambda>account_key. case cost_by_writable_accounts t account_key of
                         Some chained_cost \<Rightarrow> sat_add chained_cost cost > account_cost_limit t
                       | None \<Rightarrow> False) (writable_accounts tx_cost)
      then Err WouldExceedAccountMaxLimit
      else Ok ())"

text \<open>The loops over the writable accounts.\<close>

fun add_account_costs :: "u64 \<Rightarrow> 'k list \<Rightarrow> ('k \<rightharpoonup> u64) \<times> u64 \<Rightarrow> ('k \<rightharpoonup> u64) \<times> u64" where
  "add_account_costs adjustment [] (m, costliest) = (m, costliest)"
| "add_account_costs adjustment (account_key # rest) (m, costliest) =
     (let account_cost = sat_add (case m account_key of Some c \<Rightarrow> c | None \<Rightarrow> 0) adjustment in
      add_account_costs adjustment rest (m(account_key \<mapsto> account_cost), max costliest account_cost))"

fun sub_account_costs :: "u64 \<Rightarrow> 'k list \<Rightarrow> ('k \<rightharpoonup> u64) \<Rightarrow> ('k \<rightharpoonup> u64)" where
  "sub_account_costs adjustment [] m = m"
| "sub_account_costs adjustment (account_key # rest) m =
     sub_account_costs adjustment rest
       (m(account_key \<mapsto> sat_sub (case m account_key of Some c \<Rightarrow> c | None \<Rightarrow> 0) adjustment))"

definition add_transaction_execution_cost ::
  "'k TransactionCost \<Rightarrow> u64 \<Rightarrow> 'k CostTracker \<Rightarrow> u64 \<times> 'k CostTracker" where
  "add_transaction_execution_cost tx_cost adjustment t =
     (case add_account_costs adjustment (writable_accounts tx_cost) (cost_by_writable_accounts t, 0) of
        (m, costliest) \<Rightarrow>
          (costliest, t\<lparr>cost_by_writable_accounts := m, block_cost := block_cost t + adjustment,
             vote_cost := if should_track_as_simple_vote tx_cost then sat_add (vote_cost t) adjustment
                          else vote_cost t\<rparr>))"

definition sub_transaction_execution_cost :: "'k TransactionCost \<Rightarrow> u64 \<Rightarrow> 'k CostTracker \<Rightarrow> 'k CostTracker" where
  "sub_transaction_execution_cost tx_cost adjustment t =
     t\<lparr>cost_by_writable_accounts :=
         sub_account_costs adjustment (writable_accounts tx_cost) (cost_by_writable_accounts t),
       block_cost := block_cost t - adjustment,
       vote_cost := if should_track_as_simple_vote tx_cost then sat_sub (vote_cost t) adjustment
                    else vote_cost t\<rparr>"

definition add_transaction_cost :: "'k TransactionCost \<Rightarrow> 'k CostTracker \<Rightarrow> u64 \<times> 'k CostTracker" where
  "add_transaction_cost tx_cost t =
     add_transaction_execution_cost tx_cost (cost_sum tx_cost)
       (t\<lparr>allocated_accounts_data_size :=
            sat_add (allocated_accounts_data_size t) (cost_allocated_accounts_data_size tx_cost),
          transaction_count := sat_add (transaction_count t) 1,
          transaction_signature_count :=
            sat_add (transaction_signature_count t) (cost_num_transaction_signatures tx_cost),
          secp256k1_instruction_signature_count :=
            sat_add (secp256k1_instruction_signature_count t) (cost_num_secp256k1_instruction_signatures tx_cost),
          ed25519_instruction_signature_count :=
            sat_add (ed25519_instruction_signature_count t) (cost_num_ed25519_instruction_signatures tx_cost),
          secp256r1_instruction_signature_count :=
            sat_add (secp256r1_instruction_signature_count t) (cost_num_secp256r1_instruction_signatures tx_cost)\<rparr>)"

definition remove_transaction_cost :: "'k TransactionCost \<Rightarrow> 'k CostTracker \<Rightarrow> 'k CostTracker" where
  "remove_transaction_cost tx_cost t0 =
     (let t = sub_transaction_execution_cost tx_cost (cost_sum tx_cost) t0 in
      t\<lparr>allocated_accounts_data_size :=
          sat_sub (allocated_accounts_data_size t) (cost_allocated_accounts_data_size tx_cost),
        transaction_count := sat_sub (transaction_count t) 1,
        transaction_signature_count :=
          sat_sub (transaction_signature_count t) (cost_num_transaction_signatures tx_cost),
        secp256k1_instruction_signature_count :=
          sat_sub (secp256k1_instruction_signature_count t) (cost_num_secp256k1_instruction_signatures tx_cost),
        ed25519_instruction_signature_count :=
          sat_sub (ed25519_instruction_signature_count t) (cost_num_ed25519_instruction_signatures tx_cost),
        secp256r1_instruction_signature_count :=
          sat_sub (secp256r1_instruction_signature_count t) (cost_num_secp256r1_instruction_signatures tx_cost)\<rparr>)"

definition tracker_remove :: "'k TransactionCost \<Rightarrow> 'k CostTracker \<Rightarrow> 'k CostTracker" where
  "tracker_remove tx_cost t = remove_transaction_cost tx_cost t"

definition try_add :: "'k TransactionCost \<Rightarrow> ('k CostTracker, CostTrackerError, UpdatedCosts) op" where
  "try_add tx_cost t =
     (case would_fit t tx_cost of
        Ok _ \<Rightarrow>
          (case add_transaction_cost tx_cost t of
             (costliest, t') \<Rightarrow>
               (Ok \<lparr>updated_block_cost = block_cost t', updated_costliest_account_cost = costliest\<rparr>, t'))
      | Err e \<Rightarrow> (Err e, t)
      | Panic \<Rightarrow> (Panic, t)
      | UB \<Rightarrow> (UB, t))"

definition update_execution_cost :: "'k TransactionCost \<Rightarrow> u64 \<Rightarrow> u64 \<Rightarrow> 'k CostTracker \<Rightarrow> 'k CostTracker" where
  "update_execution_cost tx_cost actual_execution_units actual_loaded_cost t =
     (let actual = sat_add actual_execution_units actual_loaded_cost;
          estimated = sat_add (programs_execution_cost tx_cost) (loaded_accounts_data_size_cost tx_cost) in
      if actual = estimated then t
      else if actual > estimated then snd (add_transaction_execution_cost tx_cost (actual - estimated) t)
      else sub_transaction_execution_cost tx_cost (estimated - actual) t)"

definition number_of_accounts :: "'k CostTracker \<Rightarrow> nat" where
  "number_of_accounts t = card {k. \<exists>c. cost_by_writable_accounts t k = Some c \<and> c > 0}"

definition find_number_of_contended_accounts :: "'k CostTracker \<Rightarrow> nat" where
  "find_number_of_contended_accounts t =
     (let contended_cost_mark = sat_mul (account_cost_limit t) 95 div 100 in
      card {k. \<exists>c. cost_by_writable_accounts t k = Some c \<and> c \<ge> contended_cost_mark})"

section \<open>The abstract block: transactions with their accounted costs\<close>

type_synonym 'k block = "('k TransactionCost \<times> nat) multiset"

definition sum_over :: "('k TransactionCost \<Rightarrow> nat \<Rightarrow> nat) \<Rightarrow> 'k block \<Rightarrow> nat" where
  "sum_over f B = (\<Sum>(c, n) \<in># B. f c n)"

abbreviation block_units :: "'k block \<Rightarrow> nat" where
  "block_units B \<equiv> sum_over (\<lambda>c n. n) B"
abbreviation vote_units :: "'k block \<Rightarrow> nat" where
  "vote_units B \<equiv> sum_over (\<lambda>c n. if should_track_as_simple_vote c then n else 0) B"
abbreviation account_units :: "'k \<Rightarrow> 'k block \<Rightarrow> nat" where
  "account_units a B \<equiv> sum_over (\<lambda>c n. if a \<in> set (writable_accounts c) then n else 0) B"
abbreviation allocated_bytes :: "'k block \<Rightarrow> nat" where
  "allocated_bytes B \<equiv> sum_over (\<lambda>c _. unat (cost_allocated_accounts_data_size c)) B"

definition account_cost :: "'k CostTracker \<Rightarrow> 'k \<Rightarrow> u64" where
  "account_cost t a = (case cost_by_writable_accounts t a of Some c \<Rightarrow> c | None \<Rightarrow> 0)"

lemma sum_over_empty [simp]: "sum_over f {#} = 0"
  by (simp add: sum_over_def)

lemma sum_over_add [simp]: "sum_over f (add_mset (c, n) B) = f c n + sum_over f B"
  by (simp add: sum_over_def)

lemma sum_over_remove: "(c, n) \<in># B \<Longrightarrow> sum_over f B = f c n + sum_over f (B - {#(c, n)#})"
  using sum_over_add [of f c n "B - {#(c, n)#}"] by simp

lemma sum_over_mono:
  assumes "\<And>c n. (c, n) \<in># B \<Longrightarrow> f c n \<le> g c n"
  shows "sum_over f B \<le> sum_over g B"
  using assms by (induction B) (auto intro!: add_mono)

text \<open>
  Costs as the cost model produces them: no account is listed twice, the parts add up without saturation,
  and the signature part covers the number of signatures of each kind.
\<close>

definition fixed_units :: "'k TransactionCost \<Rightarrow> nat" where
  "fixed_units c = unat (signature_cost c) + unat (write_lock_cost c) + unat (data_bytes_cost c)"

definition load_and_execution_units :: "'k TransactionCost \<Rightarrow> nat" where
  "load_and_execution_units c = unat (programs_execution_cost c) + unat (loaded_accounts_data_size_cost c)"

definition well_priced :: "'k TransactionCost \<Rightarrow> bool" where
  "well_priced c \<longleftrightarrow> distinct (writable_accounts c) \<and>
     unat (cost_sum c) = fixed_units c + load_and_execution_units c \<and> 1 \<le> unat (signature_cost c) \<and>
     unat (cost_num_transaction_signatures c) \<le> unat (signature_cost c) \<and>
     unat (cost_num_secp256k1_instruction_signatures c) \<le> unat (signature_cost c) \<and>
     unat (cost_num_ed25519_instruction_signatures c) \<le> unat (signature_cost c) \<and>
     unat (cost_num_secp256r1_instruction_signatures c) \<le> unat (signature_cost c)"

definition block_ok :: "'k block \<Rightarrow> bool" where
  "block_ok B \<longleftrightarrow> (\<forall>(c, n) \<in># B. well_priced c \<and> fixed_units c \<le> n) \<and> block_units B < 2 ^ 64"

definition costs_track :: "'k block \<Rightarrow> 'k CostTracker \<Rightarrow> bool" where
  "costs_track B t \<longleftrightarrow>
     unat (block_cost t) = block_units B \<and> unat (vote_cost t) = vote_units B \<and>
     (\<forall>a. unat (account_cost t a) = account_units a B)"

definition counters_track :: "'k block \<Rightarrow> 'k CostTracker \<Rightarrow> bool" where
  "counters_track B t \<longleftrightarrow>
     unat (allocated_accounts_data_size t) = allocated_bytes B \<and>
     unat (transaction_count t) = size B \<and>
     unat (transaction_signature_count t) = sum_over (\<lambda>c _. unat (cost_num_transaction_signatures c)) B \<and>
     unat (secp256k1_instruction_signature_count t) = sum_over (\<lambda>c _. unat (cost_num_secp256k1_instruction_signatures c)) B \<and>
     unat (ed25519_instruction_signature_count t) = sum_over (\<lambda>c _. unat (cost_num_ed25519_instruction_signatures c)) B \<and>
     unat (secp256r1_instruction_signature_count t) = sum_over (\<lambda>c _. unat (cost_num_secp256r1_instruction_signatures c)) B"

definition tracks :: "'k block \<Rightarrow> 'k CostTracker \<Rightarrow> bool" where
  "tracks B t \<longleftrightarrow> block_ok B \<and> costs_track B t \<and> counters_track B t"

lemma size_le_sum_over: "(\<And>c n. (c, n) \<in># B \<Longrightarrow> 1 \<le> f c n) \<Longrightarrow> size B \<le> sum_over f B"
proof (induction B)
  case (add e B)
  obtain c n where "e = (c, n)" by (cases e)
  moreover from this have "1 \<le> f c n" using add.prems [of c n] by simp
  moreover have "size B \<le> sum_over f B" using add.IH add.prems by simp
  ultimately show ?case by simp
qed simp

lemma block_ok_bounds:
  assumes "block_ok B"
  shows "vote_units B < 2 ^ 64" "account_units a B < 2 ^ 64" "size B < 2 ^ 64"
    "sum_over (\<lambda>c _. unat (cost_num_transaction_signatures c)) B < 2 ^ 64"
    "sum_over (\<lambda>c _. unat (cost_num_secp256k1_instruction_signatures c)) B < 2 ^ 64"
    "sum_over (\<lambda>c _. unat (cost_num_ed25519_instruction_signatures c)) B < 2 ^ 64"
    "sum_over (\<lambda>c _. unat (cost_num_secp256r1_instruction_signatures c)) B < 2 ^ 64"
proof -
  have e: "well_priced c \<and> fixed_units c \<le> n" if "(c, n) \<in># B" for c n
    using assms that by (auto simp: block_ok_def)
  have b: "sum_over f B < 2 ^ 64" if "\<And>c n. (c, n) \<in># B \<Longrightarrow> f c n \<le> n" for f :: "'a TransactionCost \<Rightarrow> nat \<Rightarrow> nat"
    using sum_over_mono [of B f "\<lambda>c n. n"] that assms by (auto simp: block_ok_def)
  show "vote_units B < 2 ^ 64" "account_units a B < 2 ^ 64" by (rule b; simp)+
  show "sum_over (\<lambda>c _. unat (cost_num_transaction_signatures c)) B < 2 ^ 64"
    "sum_over (\<lambda>c _. unat (cost_num_secp256k1_instruction_signatures c)) B < 2 ^ 64"
    "sum_over (\<lambda>c _. unat (cost_num_ed25519_instruction_signatures c)) B < 2 ^ 64"
    "sum_over (\<lambda>c _. unat (cost_num_secp256r1_instruction_signatures c)) B < 2 ^ 64"
    by (rule b, drule e, simp add: well_priced_def fixed_units_def)+
  have "1 \<le> n" if "(c, n) \<in># B" for c n using e [OF that] by (simp add: well_priced_def fixed_units_def)
  then show "size B < 2 ^ 64" using size_le_sum_over [of B "\<lambda>c n. n"] assms by (auto simp: block_ok_def)
qed

section \<open>Account costs\<close>

lemma add_account_costs_map:
  assumes "distinct accounts"
  shows "fst (add_account_costs adj accounts (m, x)) = (\<lambda>a. if a \<in> set accounts
    then Some (sat_add (case m a of Some c \<Rightarrow> c | None \<Rightarrow> 0) adj) else m a)"
  using assms
proof (induction accounts arbitrary: m x)
  case (Cons b accounts)
  then show ?case by (auto simp: Let_def fun_eq_iff)
qed simp

lemma sub_account_costs_map:
  assumes "distinct accounts"
  shows "sub_account_costs adj accounts m = (\<lambda>a. if a \<in> set accounts
    then Some (sat_sub (case m a of Some c \<Rightarrow> c | None \<Rightarrow> 0) adj) else m a)"
  using assms by (induction accounts arbitrary: m) (auto simp: fun_eq_iff)

lemma account_cost_add:
  "distinct (writable_accounts c) \<Longrightarrow>
     account_cost (snd (add_transaction_execution_cost c adj t)) a =
       (if a \<in> set (writable_accounts c) then sat_add (account_cost t a) adj else account_cost t a)"
  using add_account_costs_map [of "writable_accounts c" adj "cost_by_writable_accounts t" 0]
  by (cases "add_account_costs adj (writable_accounts c) (cost_by_writable_accounts t, 0)")
    (simp add: add_transaction_execution_cost_def account_cost_def)

lemma account_cost_sub:
  "distinct (writable_accounts c) \<Longrightarrow>
     account_cost (sub_transaction_execution_cost c adj t) a =
       (if a \<in> set (writable_accounts c) then sat_sub (account_cost t a) adj else account_cost t a)"
  by (simp add: sub_transaction_execution_cost_def account_cost_def sub_account_costs_map)

text \<open>The cost adjustments change nothing but the costs.\<close>

definition same_counters :: "'k CostTracker \<Rightarrow> 'k CostTracker \<Rightarrow> bool" where
  "same_counters t t' \<longleftrightarrow>
     allocated_accounts_data_size t' = allocated_accounts_data_size t \<and>
     transaction_count t' = transaction_count t \<and>
     transaction_signature_count t' = transaction_signature_count t \<and>
     secp256k1_instruction_signature_count t' = secp256k1_instruction_signature_count t \<and>
     ed25519_instruction_signature_count t' = ed25519_instruction_signature_count t \<and>
     secp256r1_instruction_signature_count t' = secp256r1_instruction_signature_count t"

definition same_limits :: "'k CostTracker \<Rightarrow> 'k CostTracker \<Rightarrow> bool" where
  "same_limits t t' \<longleftrightarrow>
     account_cost_limit t' = account_cost_limit t \<and> block_cost_limit t' = block_cost_limit t \<and>
     vote_cost_limit t' = vote_cost_limit t \<and> allocated_data_size_limit t' = allocated_data_size_limit t"

lemma add_execution_frame:
  "same_counters t (snd (add_transaction_execution_cost c adj t))"
  "same_limits t (snd (add_transaction_execution_cost c adj t))"
  "block_cost (snd (add_transaction_execution_cost c adj t)) = block_cost t + adj"
  "vote_cost (snd (add_transaction_execution_cost c adj t)) =
     (if should_track_as_simple_vote c then sat_add (vote_cost t) adj else vote_cost t)"
  by (simp_all add: add_transaction_execution_cost_def same_counters_def same_limits_def split: prod.split)

lemma sub_execution_frame:
  "same_counters t (sub_transaction_execution_cost c adj t)"
  "same_limits t (sub_transaction_execution_cost c adj t)"
  "block_cost (sub_transaction_execution_cost c adj t) = block_cost t - adj"
  "vote_cost (sub_transaction_execution_cost c adj t) =
     (if should_track_as_simple_vote c then sat_sub (vote_cost t) adj else vote_cost t)"
  by (simp_all add: sub_transaction_execution_cost_def same_counters_def same_limits_def)

lemma unat_add_small: "unat a + unat b < 2 ^ 64 \<Longrightarrow> unat (a + b) = unat a + unat b" for a b :: u64
  by (simp add: unat_word_ariths)

lemma unat_sat_add_small: "unat a + unat b < 2 ^ 64 \<Longrightarrow> unat (sat_add a b) = unat a + unat b" for a b :: u64
  by (simp add: unat_sat_add)

lemma unat_sub_small: "unat b \<le> unat a \<Longrightarrow> unat (a - b) = unat a - unat b" for a b :: u64
  by (simp add: unat_sub word_le_nat_alt)

lemma sat_add_exceeds:
  "unat limit < 2 ^ 64 - 1 \<Longrightarrow> sat_add a b > limit \<longleftrightarrow> unat limit < unat a + unat b" for a b limit :: u64
  by (auto simp: word_less_nat_alt unat_sat_add)

section \<open>Cost adjustments\<close>

text \<open>\<open>raised c k B B'\<close>: in \<open>B'\<close> transaction \<open>c\<close> accounts for \<open>k\<close> more units than in \<open>B\<close>.\<close>

definition raised :: "'k TransactionCost \<Rightarrow> nat \<Rightarrow> 'k block \<Rightarrow> 'k block \<Rightarrow> bool" where
  "raised c k B B' \<longleftrightarrow>
     block_units B' = block_units B + k \<and>
     vote_units B' = vote_units B + (if should_track_as_simple_vote c then k else 0) \<and>
     (\<forall>a. account_units a B' = account_units a B + (if a \<in> set (writable_accounts c) then k else 0))"

lemma raised_add: "raised c k B (add_mset (c, k) B)"
  by (simp add: raised_def)

lemma raised_replace: "n \<le> n' \<Longrightarrow> raised c (n' - n) (add_mset (c, n) B) (add_mset (c, n') B)"
  by (simp add: raised_def)

lemma costs_track_add:
  assumes "costs_track B t" and "raised c (unat adj) B B'" and "block_ok B'" and "distinct (writable_accounts c)"
  shows "costs_track B' (snd (add_transaction_execution_cost c adj t))"
proof -
  note r = assms(2) [unfolded raised_def] and b = block_ok_bounds(1,2) [OF assms(3)]
  have "block_units B + unat adj < 2 ^ 64" using r assms(3) by (simp add: block_ok_def)
  then have bc: "unat (block_cost t + adj) = block_units B'"
    using assms(1) r by (simp add: costs_track_def unat_add_small)
  have vc: "unat (sat_add (vote_cost t) adj) = vote_units B'" if "should_track_as_simple_vote c"
    using assms(1) r b(1) that by (simp add: costs_track_def unat_sat_add_small)
  have ac: "unat (sat_add (account_cost t a) adj) = account_units a B'" if "a \<in> set (writable_accounts c)" for a
    using assms(1) r b(2) [of a] that by (simp add: costs_track_def unat_sat_add_small)
  show ?thesis
    using assms(1) r bc vc ac
    by (auto simp: costs_track_def add_execution_frame account_cost_add [OF assms(4)])
qed

lemma costs_track_sub:
  assumes "costs_track B t" and "raised c (unat adj) B' B" and "distinct (writable_accounts c)"
  shows "costs_track B' (sub_transaction_execution_cost c adj t)"
proof -
  note r = assms(2) [unfolded raised_def]
  have bc: "unat (block_cost t - adj) = block_units B'"
    using assms(1) r by (simp add: costs_track_def unat_sub_small)
  have vc: "unat (sat_sub (vote_cost t) adj) = vote_units B'" if "should_track_as_simple_vote c"
    using assms(1) r that by (simp add: costs_track_def unat_sat_sub)
  have ac: "unat (sat_sub (account_cost t a) adj) = account_units a B'" if "a \<in> set (writable_accounts c)" for a
    using assms(1) r that by (simp add: costs_track_def unat_sat_sub)
  show ?thesis
    using assms(1) r bc vc ac
    by (auto simp: costs_track_def sub_execution_frame account_cost_sub [OF assms(3)])
qed

lemma counters_track_frame: "same_counters t t' \<Longrightarrow> counters_track B t' = counters_track B t"
  by (simp add: same_counters_def counters_track_def)

lemma counters_track_add:
  assumes "counters_track B t" and "block_ok (add_mset (c, n) B)" and "allocated_bytes (add_mset (c, n) B) < 2 ^ 64"
  shows "counters_track (add_mset (c, n) B) (snd (add_transaction_cost c t))"
proof -
  note b = block_ok_bounds(3-7) [OF assms(2)] and a = assms(1) [unfolded counters_track_def]
  show ?thesis
    unfolding add_transaction_cost_def counters_track_frame [OF add_execution_frame(1)]
    using a b assms(3) by (simp add: counters_track_def unat_sat_add_small)
qed

lemma counters_track_remove:
  assumes "counters_track (add_mset (c, n) B) t"
  shows "counters_track B (remove_transaction_cost c t)"
proof -
  have "counters_track (add_mset (c, n) B) (sub_transaction_execution_cost c (cost_sum c) t)"
    using assms by (simp add: counters_track_frame [OF sub_execution_frame(1)])
  then show ?thesis
    by (simp add: remove_transaction_cost_def Let_def counters_track_def unat_sat_sub)
qed

lemma costs_track_counters [simp]:
  "costs_track B (t\<lparr>allocated_accounts_data_size := a, transaction_count := n, transaction_signature_count := s,
     secp256k1_instruction_signature_count := k, ed25519_instruction_signature_count := e,
     secp256r1_instruction_signature_count := r\<rparr>) = costs_track B t"
  by (simp add: costs_track_def account_cost_def)

lemma block_ok_add:
  "block_ok (add_mset (c, n) B) \<longleftrightarrow>
     well_priced c \<and> fixed_units c \<le> n \<and> block_ok B \<and> n + block_units B < 2 ^ 64"
  by (auto simp: block_ok_def)

lemma tracks_add:
  assumes "tracks B t" and "well_priced c" and "block_units B + unat (cost_sum c) < 2 ^ 64"
    and "allocated_bytes B + unat (cost_allocated_accounts_data_size c) < 2 ^ 64"
  shows "tracks (add_mset (c, unat (cost_sum c)) B) (snd (add_transaction_cost c t))"
proof -
  have ok: "block_ok (add_mset (c, unat (cost_sum c)) B)"
    using assms by (simp add: block_ok_add tracks_def well_priced_def)
  moreover have "costs_track (add_mset (c, unat (cost_sum c)) B) (snd (add_transaction_cost c t))"
    unfolding add_transaction_cost_def
    by (rule costs_track_add [OF _ raised_add ok]) (use assms in \<open>simp_all add: tracks_def well_priced_def\<close>)
  ultimately show ?thesis
    using assms counters_track_add [OF _ ok, of t] by (simp add: tracks_def)
qed

lemma well_priced_distinct: "well_priced c \<Longrightarrow> distinct (writable_accounts c)"
  by (simp add: well_priced_def)

lemma tracks_remove:
  assumes "tracks (add_mset (c, unat (cost_sum c)) B) t"
  shows "tracks B (tracker_remove c t)"
proof -
  have "costs_track B (sub_transaction_execution_cost c (cost_sum c) t)"
    by (rule costs_track_sub [OF _ raised_add])
      (use assms in \<open>simp_all add: tracks_def block_ok_add well_priced_distinct\<close>)
  then have "costs_track B (remove_transaction_cost c t)" by (simp add: remove_transaction_cost_def Let_def)
  then show ?thesis
    using assms counters_track_remove [of c "unat (cost_sum c)" B t]
    by (simp add: tracks_def tracker_remove_def block_ok_add)
qed

lemma counters_track_replace:
  "counters_track (add_mset (c, n) B) t \<Longrightarrow> counters_track (add_mset (c, n') B) t"
  by (simp add: counters_track_def)

lemma tracks_update:
  assumes t: "tracks (add_mset (c, unat (cost_sum c)) B) t"
    and room: "fixed_units c + (unat x + unat l) + block_units B < 2 ^ 64"
  shows "tracks (add_mset (c, fixed_units c + (unat x + unat l)) B) (update_execution_cost c x l t)"
proof -
  let ?a = "sat_add x l" and ?e = "sat_add (programs_execution_cost c) (loaded_accounts_data_size_cost c)"
  let ?n = "fixed_units c + (unat x + unat l)"
  have w: "well_priced c" using t by (simp add: tracks_def block_ok_add)
  then have s: "unat (cost_sum c) = fixed_units c + load_and_execution_units c" and d: "distinct (writable_accounts c)"
    by (simp_all add: well_priced_def)
  have ok: "block_ok (add_mset (c, ?n) B)" using t room by (simp add: tracks_def block_ok_add)
  have a: "unat ?a = unat x + unat l" using room by (simp add: unat_sat_add_small)
  have e: "unat ?e = load_and_execution_units c"
    using s unsigned_less [of "cost_sum c", where 'a = nat] by (simp add: load_and_execution_units_def unat_sat_add_small)
  have c: "costs_track (add_mset (c, unat (cost_sum c)) B) t" and k: "counters_track (add_mset (c, ?n) B) t"
    using t counters_track_replace by (auto simp: tracks_def)
  consider "?a = ?e" | "?a > ?e" | "?a < ?e" by (rule linorder_cases)
  then show ?thesis
  proof cases
    case 1
    then have "?n = unat (cost_sum c)" using a e s by simp
    with 1 t show ?thesis by (simp add: update_execution_cost_def)
  next
    case 2
    then have "unat (?a - ?e) = ?n - unat (cost_sum c)" "unat (cost_sum c) \<le> ?n"
      using a e s by (simp_all add: unat_sub_small word_less_nat_alt)
    then have "costs_track (add_mset (c, ?n) B) (snd (add_transaction_execution_cost c (?a - ?e) t))"
      by (intro costs_track_add [OF c _ ok d]) (simp only: raised_replace)
    moreover have "update_execution_cost c x l t = snd (add_transaction_execution_cost c (?a - ?e) t)"
      using 2 by (auto simp: update_execution_cost_def Let_def)
    ultimately show ?thesis
      using ok k by (simp add: tracks_def counters_track_frame [OF add_execution_frame(1)])
  next
    case 3
    then have "unat (?e - ?a) = unat (cost_sum c) - ?n" "?n \<le> unat (cost_sum c)"
      using a e s by (simp_all add: unat_sub_small word_less_nat_alt)
    then have "costs_track (add_mset (c, ?n) B) (sub_transaction_execution_cost c (?e - ?a) t)"
      by (intro costs_track_sub [OF c _ d]) (simp only: raised_replace)
    moreover have "update_execution_cost c x l t = sub_transaction_execution_cost c (?e - ?a) t"
      using 3 by (auto simp: update_execution_cost_def Let_def)
    ultimately show ?thesis
      using ok k by (simp add: tracks_def counters_track_frame [OF sub_execution_frame(1)])
  qed
qed

section \<open>Admission\<close>

text \<open>The decision over the abstract block, in the order of the checks.\<close>

definition block_verdict :: "'k CostTracker \<Rightarrow> 'k block \<Rightarrow> 'k TransactionCost \<Rightarrow> CostTrackerError option" where
  "block_verdict t B c =
     (let cost = unat (cost_sum c) in
      if should_track_as_simple_vote c \<and> vote_units B + cost > unat (vote_cost_limit t)
      then Some WouldExceedVoteMaxLimit
      else if block_units B + cost > unat (block_cost_limit t) then Some WouldExceedBlockMaxLimit
      else if cost > unat (account_cost_limit t) then Some WouldExceedAccountMaxLimit
      else if allocated_bytes B + unat (cost_allocated_accounts_data_size c) > unat (allocated_data_size_limit t)
      then Some WouldExceedAccountDataBlockLimit
      else if list_ex (\<lambda>a. account_units a B + cost > unat (account_cost_limit t)) (writable_accounts c)
      then Some WouldExceedAccountMaxLimit
      else None)"

text \<open>A limit of \<open>u64::MAX\<close> can never be exceeded by a saturating sum; \<open>set_limits_max\<close> uses it to switch the checks off.\<close>

definition finite_limits :: "'k CostTracker \<Rightarrow> bool" where
  "finite_limits t \<longleftrightarrow>
     unat (account_cost_limit t) < 2 ^ 64 - 1 \<and> unat (block_cost_limit t) < 2 ^ 64 - 1 \<and>
     unat (vote_cost_limit t) < 2 ^ 64 - 1 \<and> unat (allocated_data_size_limit t) < 2 ^ 64 - 1"

lemma account_check:
  assumes "unat (account_cost t a) = account_units a B" and "unat (account_cost_limit t) < 2 ^ 64 - 1"
    and "\<not> unat cost > unat (account_cost_limit t)"
  shows "(case cost_by_writable_accounts t a of Some chained \<Rightarrow> sat_add chained cost > account_cost_limit t
      | None \<Rightarrow> False) \<longleftrightarrow> account_units a B + unat cost > unat (account_cost_limit t)"
  using assms by (cases "cost_by_writable_accounts t a") (auto simp: account_cost_def sat_add_exceeds)

lemma would_fit_exact:
  assumes "tracks B t" and "finite_limits t"
  shows "would_fit t c = (case block_verdict t B c of None \<Rightarrow> Ok () | Some e \<Rightarrow> Err e)"
proof -
  let ?cost = "cost_sum c"
  have l: "sat_add (vote_cost t) ?cost > vote_cost_limit t \<longleftrightarrow> vote_units B + unat ?cost > unat (vote_cost_limit t)"
    "sat_add (block_cost t) ?cost > block_cost_limit t \<longleftrightarrow> block_units B + unat ?cost > unat (block_cost_limit t)"
    "sat_add (allocated_accounts_data_size t) (cost_allocated_accounts_data_size c) > allocated_data_size_limit t
     \<longleftrightarrow> allocated_bytes B + unat (cost_allocated_accounts_data_size c) > unat (allocated_data_size_limit t)"
    using assms by (simp_all add: finite_limits_def sat_add_exceeds tracks_def costs_track_def counters_track_def)
  have a: "list_ex (\<lambda>a. case cost_by_writable_accounts t a of Some chained \<Rightarrow> sat_add chained ?cost > account_cost_limit t
      | None \<Rightarrow> False) as = list_ex (\<lambda>a. account_units a B + unat ?cost > unat (account_cost_limit t)) as"
    if "\<not> unat ?cost > unat (account_cost_limit t)" for as
    using assms that
    by (intro list_ex_cong refl account_check) (simp_all add: tracks_def costs_track_def finite_limits_def)
  show ?thesis
    unfolding would_fit_def block_verdict_def Let_def l word_less_nat_alt [of "account_cost_limit t" ?cost]
    using a by simp
qed

lemma costliest_exact:
  assumes "distinct accounts"
  shows "snd (add_account_costs adj accounts (m, x)) =
    fold max (map (\<lambda>a. sat_add (case m a of Some c \<Rightarrow> c | None \<Rightarrow> 0) adj) accounts) x"
  using assms
proof (induction accounts arbitrary: m x)
  case (Cons b accounts)
  have "map (\<lambda>a. sat_add (case (m(b \<mapsto> v)) a of Some c \<Rightarrow> c | None \<Rightarrow> 0) adj) accounts
      = map (\<lambda>a. sat_add (case m a of Some c \<Rightarrow> c | None \<Rightarrow> 0) adj) accounts" for v
    using Cons.prems by (intro map_cong) auto
  note same = this
  show ?case
    using Cons by (simp only: add_account_costs.simps Let_def distinct.simps same list.map fold_simps max.commute [of x])
qed simp

lemma unat_fold_max: "unat (fold max xs x) = fold max (map unat xs) (unat x)" for x :: u64
  by (induction xs arbitrary: x) (simp_all add: max_def word_le_nat_alt)

lemma account_cost_added:
  "distinct (writable_accounts c) \<Longrightarrow> a \<in> set (writable_accounts c) \<Longrightarrow>
     account_cost (snd (add_transaction_cost c t)) a = sat_add (account_cost t a) (cost_sum c)"
  unfolding add_transaction_cost_def by (simp add: account_cost_add) (simp add: account_cost_def)

lemma costliest_added:
  "fst (add_transaction_cost c t) =
     snd (add_account_costs (cost_sum c) (writable_accounts c) (cost_by_writable_accounts t, 0))"
  by (simp add: add_transaction_cost_def add_transaction_execution_cost_def split: prod.splits)

lemma costliest_units:
  assumes "costs_track B' (snd (add_transaction_cost c t))" and "distinct (writable_accounts c)"
  shows "unat (fst (add_transaction_cost c t)) = fold max (map (\<lambda>a. account_units a B') (writable_accounts c)) 0"
proof -
  have "account_units a B' = unat (sat_add (account_cost t a) (cost_sum c))" if "a \<in> set (writable_accounts c)" for a
    using assms that by (simp add: costs_track_def flip: account_cost_added)
  then have "map (\<lambda>a. account_units a B') (writable_accounts c)
      = map unat (map (\<lambda>a. sat_add (account_cost t a) (cost_sum c)) (writable_accounts c))" by simp
  moreover have "fst (add_transaction_cost c t)
      = fold max (map (\<lambda>a. sat_add (account_cost t a) (cost_sum c)) (writable_accounts c)) 0"
    unfolding costliest_added costliest_exact [OF assms(2)] account_cost_def ..
  ultimately show ?thesis by (simp only: unat_fold_max) simp
qed

lemma same_limits_add: "same_limits t (snd (add_transaction_cost c t))"
  unfolding add_transaction_cost_def add_transaction_execution_cost_def
  by (simp add: same_limits_def split: prod.split)

lemma try_add_cases:
  assumes "tracks B t" and "finite_limits t" and "well_priced c"
  obtains (rejected) e where "block_verdict t B c = Some e" "try_add c t = (Err e, t)"
  | (admitted) u t' where "block_verdict t B c = None" "try_add c t = (Ok u, t')" "t' = snd (add_transaction_cost c t)"
    "tracks (add_mset (c, unat (cost_sum c)) B) t'" "same_limits t t'"
    "unat (updated_block_cost u) = block_units B + unat (cost_sum c)"
    "unat (updated_costliest_account_cost u) =
       fold max (map (\<lambda>a. account_units a B + unat (cost_sum c)) (writable_accounts c)) 0"
proof (cases "block_verdict t B c")
  case None
  note fit = would_fit_exact [OF assms(1,2), of c]
  have "block_units B + unat (cost_sum c) \<le> unat (block_cost_limit t)"
    "allocated_bytes B + unat (cost_allocated_accounts_data_size c) \<le> unat (allocated_data_size_limit t)"
    using None by (auto simp: block_verdict_def Let_def split: if_splits)
  then have tr: "tracks (add_mset (c, unat (cost_sum c)) B) (snd (add_transaction_cost c t))"
    using assms(2) by (intro tracks_add assms) (simp_all add: finite_limits_def)
  let ?u = "\<lparr>updated_block_cost = block_cost (snd (add_transaction_cost c t)),
    updated_costliest_account_cost = fst (add_transaction_cost c t)\<rparr>"
  have "unat (fst (add_transaction_cost c t)) =
      fold max (map (\<lambda>a. account_units a B + unat (cost_sum c)) (writable_accounts c)) 0"
    using costliest_units [OF tr [unfolded tracks_def, THEN conjunct2, THEN conjunct1] well_priced_distinct [OF assms(3)]]
    by (simp add: add.commute cong: map_cong)
  moreover have "try_add c t = (Ok ?u, snd (add_transaction_cost c t))"
    using None fit by (simp add: try_add_def split: prod.split)
  ultimately show ?thesis
    using tr by (intro admitted [OF None _ refl tr same_limits_add]) (auto simp: tracks_def costs_track_def)
next
  case (Some e)
  then show ?thesis
    using would_fit_exact [OF assms(1,2), of c] by (intro rejected [OF Some]) (simp add: try_add_def)
qed

section \<open>Runs of a tracker\<close>

text \<open>
  The life of a tracker with the block it accounts for, once its limits are set. A transaction enters with its
  estimated cost and is either removed again or updated with what it used, which may be less or more than the
  estimate; the cost of the whole block fits into 64 bits.
\<close>

inductive tracker_run :: "'k block \<Rightarrow> 'k CostTracker \<Rightarrow> bool" where
  start: "t = set_limits a b v d CostTracker_default \<Longrightarrow> finite_limits t \<Longrightarrow> tracker_run {#} t"
| added: "tracker_run B t \<Longrightarrow> well_priced c \<Longrightarrow> try_add c t = (Ok u, t') \<Longrightarrow>
    tracker_run (add_mset (c, unat (cost_sum c)) B) t'"
| refused: "tracker_run B t \<Longrightarrow> well_priced c \<Longrightarrow> try_add c t = (Err e, t') \<Longrightarrow> tracker_run B t'"
| removed: "tracker_run (add_mset (c, unat (cost_sum c)) B) t \<Longrightarrow> tracker_run B (tracker_remove c t)"
| updated: "tracker_run (add_mset (c, unat (cost_sum c)) B) t \<Longrightarrow>
    fixed_units c + (unat x + unat l) + block_units B < 2 ^ 64 \<Longrightarrow>
    tracker_run (add_mset (c, fixed_units c + (unat x + unat l)) B) (update_execution_cost c x l t)"
| in_flight_added: "tracker_run B t \<Longrightarrow> tracker_run B (add_transactions_in_flight n t)"
| in_flight_removed: "tracker_run B t \<Longrightarrow> tracker_run B (sub_transactions_in_flight n t)"

definition within_limits :: "'k CostTracker \<Rightarrow> bool" where
  "within_limits t \<longleftrightarrow>
     block_cost t \<le> block_cost_limit t \<and> vote_cost t \<le> vote_cost_limit t \<and>
     (\<forall>a. account_cost t a \<le> account_cost_limit t) \<and>
     allocated_accounts_data_size t \<le> allocated_data_size_limit t"

text \<open>
  What the transactions of a block used beyond their estimates. A limit is checked when a transaction is admitted, so
  that it can be exceeded by this amount and no more.
\<close>

definition overrun :: "'k TransactionCost \<Rightarrow> nat \<Rightarrow> nat" where
  "overrun c n = n - unat (cost_sum c)"

abbreviation block_overrun :: "'k block \<Rightarrow> nat" where
  "block_overrun B \<equiv> sum_over overrun B"
abbreviation vote_overrun :: "'k block \<Rightarrow> nat" where
  "vote_overrun B \<equiv> sum_over (\<lambda>c n. if should_track_as_simple_vote c then overrun c n else 0) B"
abbreviation account_overrun :: "'k \<Rightarrow> 'k block \<Rightarrow> nat" where
  "account_overrun a B \<equiv> sum_over (\<lambda>c n. if a \<in> set (writable_accounts c) then overrun c n else 0) B"

definition within_estimates :: "'k block \<Rightarrow> bool" where
  "within_estimates B \<longleftrightarrow> (\<forall>(c, n) \<in># B. n \<le> unat (cost_sum c))"

definition units_within_limits :: "'k block \<Rightarrow> 'k CostTracker \<Rightarrow> bool" where
  "units_within_limits B t \<longleftrightarrow>
     block_units B \<le> unat (block_cost_limit t) + block_overrun B \<and>
     vote_units B \<le> unat (vote_cost_limit t) + vote_overrun B \<and>
     (\<forall>a. account_units a B \<le> unat (account_cost_limit t) + account_overrun a B) \<and>
     allocated_bytes B \<le> unat (allocated_data_size_limit t)"

lemma sum_over_zero: "(\<And>c n. (c, n) \<in># B \<Longrightarrow> f c n = 0) \<Longrightarrow> sum_over f B = 0"
  by (auto simp: sum_over_def)

lemma no_overrun:
  assumes "within_estimates B"
  shows "block_overrun B = 0" "vote_overrun B = 0" "account_overrun a B = 0"
  using assms by (auto simp: within_estimates_def overrun_def intro!: sum_over_zero)

lemma overrun_estimate [simp]: "overrun c (unat (cost_sum c)) = 0"
  by (simp add: overrun_def)

lemma within_limits_units:
  assumes "tracks B t" and "units_within_limits B t" and "within_estimates B"
  shows "within_limits t"
  using assms(1,2) no_overrun [OF assms(3)]
  by (simp add: within_limits_def units_within_limits_def tracks_def costs_track_def counters_track_def word_le_nat_alt)

lemma units_within_limits_frame: "same_limits t t' \<Longrightarrow> units_within_limits B t' = units_within_limits B t"
  by (simp add: same_limits_def units_within_limits_def)

lemma verdict_within_limits:
  assumes "units_within_limits B t" and "block_verdict t B c = None"
  shows "units_within_limits (add_mset (c, unat (cost_sum c)) B) t"
  using assms by (auto simp: units_within_limits_def block_verdict_def Let_def list_ex_iff not_less add.commute
      intro: trans_le_add1 trans_le_add2 split: if_splits)

lemma units_within_limits_replace:
  assumes "units_within_limits (add_mset (c, unat (cost_sum c)) B) t"
  shows "units_within_limits B t" "units_within_limits (add_mset (c, n) B) t"
proof -
  have b: "unat (cost_sum c) + block_units B \<le> unat (block_cost_limit t) + block_overrun B"
    and v: "(if should_track_as_simple_vote c then unat (cost_sum c) else 0) + vote_units B
      \<le> unat (vote_cost_limit t) + vote_overrun B"
    and a: "(if a \<in> set (writable_accounts c) then unat (cost_sum c) else 0) + account_units a B
      \<le> unat (account_cost_limit t) + account_overrun a B"
    and d: "unat (cost_allocated_accounts_data_size c) + allocated_bytes B \<le> unat (allocated_data_size_limit t)" for a
    using assms by (simp_all add: units_within_limits_def if_distrib cong: if_cong)
  have n: "n \<le> unat (cost_sum c) + overrun c n" by (simp add: overrun_def)
  have a': "account_units a B \<le> unat (account_cost_limit t) + account_overrun a B" for a using a [of a] by linarith
  have a'': "(if a \<in> set (writable_accounts c) then n else 0) + account_units a B
      \<le> unat (account_cost_limit t) + ((if a \<in> set (writable_accounts c) then overrun c n else 0) + account_overrun a B)" for a
    using a [of a] n by (simp split: if_splits)
  show "units_within_limits B t"
    unfolding units_within_limits_def using b v a' d by (intro conjI allI) (linarith | simp)+
  show "units_within_limits (add_mset (c, n) B) t"
    unfolding units_within_limits_def using b v a'' d n by (auto split: if_splits)
qed

lemma same_limits_remove: "same_limits t (tracker_remove c t)"
  using sub_execution_frame(2) [of t c "cost_sum c"]
  by (simp add: tracker_remove_def remove_transaction_cost_def Let_def same_limits_def)

lemma same_limits_update: "same_limits t (update_execution_cost c x l t)"
  by (auto simp: update_execution_cost_def Let_def add_execution_frame sub_execution_frame) (simp add: same_limits_def)

lemma finite_limits_frame: "same_limits t t' \<Longrightarrow> finite_limits t' = finite_limits t"
  by (simp add: same_limits_def finite_limits_def)

lemma in_flight_frame:
  "same_limits t (t\<lparr>in_flight_transaction_count := n\<rparr>)"
  "tracks B (t\<lparr>in_flight_transaction_count := n\<rparr>) = tracks B t"
  by (simp_all add: same_limits_def tracks_def costs_track_def counters_track_def account_cost_def)

lemmas limit_frames = finite_limits_frame units_within_limits_frame

lemma tracks_start: "tracks {#} (set_limits a b v d CostTracker_default)"
  by (simp add: tracks_def block_ok_def costs_track_def counters_track_def account_cost_def set_limits_def
      CostTracker_default_def)

lemma tracker_run_invariant:
  "tracker_run B t \<Longrightarrow> tracks B t \<and> finite_limits t \<and> units_within_limits B t"
proof (induction rule: tracker_run.induct)
  case (start t a b v d)
  then show ?case by (simp add: tracks_start units_within_limits_def)
next
  case (added B t c u t')
  then have i: "tracks B t" "finite_limits t" "units_within_limits B t" by simp_all
  from i(1,2) added(2) show ?case
  proof (cases rule: try_add_cases)
    case (admitted u' t'')
    then show ?thesis
      using i added(3) verdict_within_limits [of B t c] by (auto simp: limit_frames [of t])
  qed (use added(3) in simp)
next
  case (refused B t c e t')
  then have i: "tracks B t" "finite_limits t" "units_within_limits B t" by simp_all
  from i(1,2) refused(2) show ?case
    by (cases rule: try_add_cases) (use refused(3) i in simp_all)
next
  case (removed c B t)
  then show ?case
    using tracks_remove units_within_limits_replace(1) by (auto simp: limit_frames [OF same_limits_remove])
next
  case (updated c B t x l)
  then show ?case
    using tracks_update [of c B t x l] units_within_limits_replace(2)
    by (auto simp: limit_frames [OF same_limits_update])
qed (simp_all add: add_transactions_in_flight_def sub_transactions_in_flight_def in_flight_frame
    limit_frames [OF in_flight_frame(1)])

section \<open>The cost model produces well priced costs\<close>

lemma distinct_writable_accounts:
  "distinct (tx_account_keys (cost_transaction c)) \<Longrightarrow> distinct (writable_accounts c)"
  by (simp add: writable_accounts_def Let_def distinct_map_filter)

lemma signature_units_bounds:
  "unat (num_transaction_signatures d) \<le> signature_units d" "unat (num_secp256k1_instruction_signatures d) \<le> signature_units d"
  "unat (num_ed25519_instruction_signatures d) \<le> signature_units d"
  "unat (num_secp256r1_instruction_signatures d) \<le> signature_units d"
  by (simp_all add: signature_units_def)

lemma well_priced_vote: "distinct (tx_account_keys tx) \<Longrightarrow> well_priced (SimpleVote tx)"
  by (simp add: well_priced_def distinct_writable_accounts fixed_units_def load_and_execution_units_def unat_sat_mul
      cost_constants)

lemma calculate_cost_well_priced:
  assumes "defined_outcome (tx_transaction_configuration tx fs)" and "distinct (tx_account_keys tx)"
    and "0 < num_transaction_signatures (tx_signature_details tx)"
    and "non_vote_units tx (unat (tx_num_write_locks tx)) (fst (execution_units tx fs)) (snd (execution_units tx fs)) < 2 ^ 64"
    and "calculate_cost ce tx fs = Ok c"
  shows "well_priced c" and "cost_transaction c = tx"
proof -
  have "well_priced c \<and> cost_transaction c = tx"
  proof (cases rule: calculate_cost_cases [OF assms(1), where ce = ce])
    case 1
    then show ?thesis using assms well_priced_vote [OF assms(2)] by simp
  next
    case (2 x l)
    let ?d = "tx_signature_details tx" and ?locks = "unat (tx_num_write_locks tx)"
    have u: "signature_units ?d + 300 * ?locks + unat (tx_instruction_data_len tx) div 4 + unat x + unat l < 2 ^ 64"
      using assms(4) 2(2) by (simp add: non_vote_units_def)
    have c: "c = calculate_non_vote_transaction_cost ce tx (tx_program_instructions tx)
       (tx_num_write_locks tx) x l (get_instructions_data_cost tx) fs" using 2(4) assms(5) by simp
    have s: "unat (signature_cost c) = signature_units ?d" "unat (write_lock_cost c) = 300 * ?locks"
      "unat (data_bytes_cost c) = unat (tx_instruction_data_len tx) div 4"
      "unat (programs_execution_cost c) = unat x" "unat (loaded_accounts_data_size_cost c) = unat l"
      using u by (simp_all add: c calculate_non_vote_transaction_cost_def unat_signature_cost get_write_lock_cost_def
          unat_sat_mul cost_constants unat_data_cost)
    have n: "1 \<le> unat (num_transaction_signatures ?d)" using assms(3) by (simp add: word_less_nat_alt)
    have t: "unat (cost_sum c) = fixed_units c + load_and_execution_units c"
      unfolding fixed_units_def load_and_execution_units_def s
      using u by (simp add: c unat_non_vote_cost non_vote_units_def)
    have "distinct (writable_accounts c)"
      by (rule distinct_writable_accounts) (simp add: c calculate_non_vote_transaction_cost_def assms(2))
    with t n s show ?thesis
      using signature_units_bounds [of ?d] unfolding well_priced_def
      by (simp add: c calculate_non_vote_transaction_cost_def)
  qed
  then show "well_priced c" "cost_transaction c = tx" by simp_all
qed

section \<open>Properties\<close>

definition sample_cost :: "nat TransactionCost" where
  "sample_cost = calculate_non_vote_transaction_cost sample_cost_env sample_cost_tx [] 3 5000 16 12 sample_features"

definition sample_vote :: "nat TransactionCost" where
  "sample_vote = SimpleVote sample_cost_tx"

definition sample_tracker :: "nat CostTracker" where
  "sample_tracker = set_limits 15000 20000 10000 1000 CostTracker_default"

lemma sample_tracker_run: "tracker_run {#} sample_tracker"
  by (rule tracker_run.start [OF sample_tracker_def]) (simp add: sample_tracker_def finite_limits_def set_limits_def)

lemma sample_cost_is: "calculate_cost sample_cost_env sample_cost_tx sample_features = Ok sample_cost"
proof -
  have "calculate_loaded_accounts_data_size_cost 40000 = 16"
    by (rule word_unat_eq_iff [THEN iffD2]) (simp add: unat_loaded_cost)
  moreover have "get_instructions_data_cost sample_cost_tx = 12"
    by (rule word_unat_eq_iff [THEN iffD2]) (simp add: unat_data_cost sample_cost_tx_def)
  moreover have "u32_to_u64 5000 = 5000" by (rule word_unat_eq_iff [THEN iffD2]) simp
  ultimately show ?thesis
    by (simp add: calculate_cost_def get_estimated_execution_cost_def sample_cost_def) (simp add: sample_cost_tx_def)
qed

lemma sample_well_priced: "well_priced sample_cost" "well_priced sample_vote"
proof -
  show "well_priced sample_cost"
    by (rule calculate_cost_well_priced(1) [OF _ _ _ _ sample_cost_is])
      (simp_all add: sample_cost_tx_def non_vote_units_def signature_units_def execution_units_def)
  show "well_priced sample_vote"
    unfolding sample_vote_def by (rule well_priced_vote) (simp add: sample_cost_tx_def)
qed

lemma sample_units:
  "unat (cost_sum sample_cost) = 9768" "writable_accounts sample_cost = [10, 20]"
  "unat (cost_allocated_accounts_data_size sample_cost) = 0" "\<not> should_track_as_simple_vote sample_cost"
  by (simp_all add: sample_cost_def calculate_non_vote_transaction_cost_def unat_usage_sum unat_signature_cost
      signature_units_def get_write_lock_cost_def unat_sat_mul cost_constants sample_cost_tx_def writable_accounts_def
      Let_def calculate_allocated_accounts_data_size_def)

lemma sample_verdict: "block_verdict sample_tracker {#} sample_cost = None"
  using sample_units by (simp add: block_verdict_def sample_tracker_def set_limits_def)

lemma sample_admitted:
  obtains u t where "try_add sample_cost sample_tracker = (Ok u, t)" "tracker_run {#(sample_cost, 9768)#} t"
proof -
  have "tracks {#} sample_tracker" "finite_limits sample_tracker"
    using tracker_run_invariant [OF sample_tracker_run] by simp_all
  then show ?thesis
    using sample_well_priced(1)
  proof (cases rule: try_add_cases)
    case (admitted u t)
    then show ?thesis
      using that tracker_run.added [OF sample_tracker_run sample_well_priced(1) admitted(2)] sample_units by simp
  qed (simp add: sample_verdict)
qed

text \<open>
  C23: admission is exact. For a tracker that accounts for the block \<open>B\<close>, \<open>try_add\<close> takes a transaction
  exactly when, over the natural numbers, the vote limit (for votes), the block limit, the limit of every
  account it writes and the allocation limit hold with it; it reports the first violated limit in this
  order and then leaves the tracker as it is. After an admission the reported block cost and costliest
  account are those of the block with the transaction.
\<close>

theorem try_add_exact:
  assumes "tracker_run B t" and "well_priced c"
  shows "case block_verdict t B c of
      Some e \<Rightarrow> try_add c t = (Err e, t)
    | None \<Rightarrow> \<exists>u t'. try_add c t = (Ok u, t') \<and> tracker_run (add_mset (c, unat (cost_sum c)) B) t' \<and>
        unat (updated_block_cost u) = block_units B + unat (cost_sum c) \<and>
        unat (updated_costliest_account_cost u) =
          fold max (map (\<lambda>a. account_units a B + unat (cost_sum c)) (writable_accounts c)) 0"
proof -
  have i: "tracks B t" "finite_limits t" using tracker_run_invariant [OF assms(1)] by simp_all
  from i assms(2) show ?thesis
  proof (cases rule: try_add_cases)
    case (admitted u t')
    then show ?thesis using tracker_run.added [OF assms admitted(2)] by simp
  qed simp
qed

theorem try_add_exact_witness:
  "\<exists>u t'. try_add sample_cost sample_tracker = (Ok u, t') \<and> tracker_run {#(sample_cost, unat (cost_sum sample_cost))#} t' \<and>
     unat (updated_block_cost u) = 9768 \<and> unat (updated_costliest_account_cost u) = 9768"
  using try_add_exact [OF sample_tracker_run sample_well_priced(1)] sample_units sample_verdict by simp

text \<open>
  C24: the accounting invariant. Through every sequence of admissions, refusals, removals, updates with actual
  usage below or above the estimate, and in-flight changes, the tracker's costs are exactly the sums over the block -
  in total, for votes and for every account - and its counters count the transactions, allocations and signatures
  of the block. The block, the votes and every account exceed their limits by at most what their transactions used
  beyond their estimates, and the allocation limit is kept; so no limit is exceeded when every transaction of the
  block stayed within its estimate. The cost of the whole block has to fit into 64 bits at every update.
\<close>

theorem tracker_accounts_for_block:
  assumes "tracker_run B t"
  shows "unat (block_cost t) = block_units B \<and> unat (vote_cost t) = vote_units B \<and>
    (\<forall>a. unat (account_cost t a) = account_units a B) \<and> counters_track B t \<and>
    unat (block_cost t) \<le> unat (block_cost_limit t) + block_overrun B \<and>
    unat (vote_cost t) \<le> unat (vote_cost_limit t) + vote_overrun B \<and>
    (\<forall>a. unat (account_cost t a) \<le> unat (account_cost_limit t) + account_overrun a B) \<and>
    allocated_accounts_data_size t \<le> allocated_data_size_limit t \<and>
    (within_estimates B \<longrightarrow> within_limits t)"
proof -
  have i: "tracks B t" "units_within_limits B t" using tracker_run_invariant [OF assms] by simp_all
  then show ?thesis
    using within_limits_units [OF i]
    by (simp add: tracks_def costs_track_def counters_track_def units_within_limits_def word_le_nat_alt)
qed

lemma sample_fixed_units: "fixed_units sample_cost = 4752"
  by (simp add: sample_cost_def calculate_non_vote_transaction_cost_def fixed_units_def unat_signature_cost
      signature_units_def get_write_lock_cost_def unat_sat_mul cost_constants sample_cost_tx_def)

text \<open>A transaction of 9768 units that uses 24752 in the end, in a block with a limit of 20000.\<close>

theorem tracker_accounts_for_block_witness:
  "\<exists>u t. try_add sample_cost sample_tracker = (Ok u, t) \<and> within_limits t \<and> unat (block_cost t) = 9768 \<and>
     unat (vote_cost t) = 0 \<and> unat (account_cost t 20) = 9768 \<and> unat (account_cost t 30) = 0 \<and>
     unat (block_cost (update_execution_cost sample_cost 19000 1000 t)) = 24752"
proof -
  obtain u t where t: "try_add sample_cost sample_tracker = (Ok u, t)" "tracker_run {#(sample_cost, 9768)#} t"
    by (rule sample_admitted)
  have "tracker_run {#(sample_cost, fixed_units sample_cost + (unat (19000 :: u64) + unat (1000 :: u64)))#}
      (update_execution_cost sample_cost 19000 1000 t)"
    by (rule tracker_run.updated) (use t(2) sample_units(1) sample_fixed_units in simp_all)
  from tracker_accounts_for_block [OF this] tracker_accounts_for_block [OF t(2)] show ?thesis
    using t(1) sample_units sample_fixed_units by (simp add: within_estimates_def)
qed

lemma tracks_unique:
  assumes "tracks B t" and "tracks B t'"
  shows "same_counters t t'" "block_cost t' = block_cost t" "vote_cost t' = vote_cost t" "account_cost t' a = account_cost t a"
  using assms
  by (simp_all add: tracks_def costs_track_def counters_track_def same_counters_def flip: word_unat_eq_iff)
    (simp_all add: word_unat_eq_iff)

text \<open>
  C25: removing an admitted transaction undoes its admission. The tracker is the one before, field by field,
  and every account has its former cost; only zero entries may stay in the table of accounts.
\<close>

theorem try_add_remove_restores:
  assumes "tracker_run B t" and "well_priced c" and "try_add c t = (Ok u, t')"
  shows "(tracker_remove c t')\<lparr>cost_by_writable_accounts := cost_by_writable_accounts t\<rparr> = t \<and>
    (\<forall>a. account_cost (tracker_remove c t') a = account_cost t a)"
proof -
  have i: "tracks B t" "finite_limits t" using tracker_run_invariant [OF assms(1)] by simp_all
  from i assms(2) show ?thesis
  proof (cases rule: try_add_cases)
    case (admitted u' t'')
    then have t': "t' = snd (add_transaction_cost c t)" "tracks B (tracker_remove c t')" "same_limits t t'"
      using assms(3) tracks_remove by auto
    moreover have "in_flight_transaction_count (tracker_remove c t') = in_flight_transaction_count t"
      by (simp add: t'(1) tracker_remove_def remove_transaction_cost_def Let_def sub_transaction_execution_cost_def
          add_transaction_cost_def add_transaction_execution_cost_def split: prod.split)
    ultimately show ?thesis
      using tracks_unique [OF i(1) t'(2)] same_limits_remove [of t' c]
      by (simp add: same_counters_def same_limits_def)
  qed (use assms(3) in simp)
qed

theorem try_add_remove_restores_witness:
  "\<exists>u t. try_add sample_cost sample_tracker = (Ok u, t) \<and>
     (tracker_remove sample_cost t)\<lparr>cost_by_writable_accounts := Map.empty\<rparr> = sample_tracker"
proof -
  obtain u t where t: "try_add sample_cost sample_tracker = (Ok u, t)" by (rule sample_admitted)
  show ?thesis
    using try_add_remove_restores [OF sample_tracker_run sample_well_priced(1) t] t
    by (simp add: sample_tracker_def set_limits_def CostTracker_default_def)
qed

text \<open>
  C26: \<open>update_execution_cost\<close> replaces the estimate by the actual usage. Whether the transaction used
  less or more than estimated, afterwards it accounts for its fixed costs and exactly the units it used,
  in the block, vote and account costs, and nothing else changes, as long as the block cost itself fits
  into 64 bits.
\<close>

theorem update_execution_cost_exact:
  assumes "tracker_run (add_mset (c, unat (cost_sum c)) B) t"
    and "fixed_units c + (unat x + unat l) + block_units B < 2 ^ 64"
  shows "tracks (add_mset (c, fixed_units c + (unat x + unat l)) B) (update_execution_cost c x l t) \<and>
    same_counters t (update_execution_cost c x l t) \<and> same_limits t (update_execution_cost c x l t)"
proof -
  have "same_counters t (update_execution_cost c x l t)"
    by (auto simp: update_execution_cost_def Let_def add_execution_frame sub_execution_frame) (simp add: same_counters_def)
  then show ?thesis
    using tracker_run_invariant [OF assms(1)] tracks_update [OF _ assms(2)] same_limits_update by blast
qed

theorem update_execution_cost_exact_witness:
  "\<exists>t. tracks {#(sample_cost, 6052)#} (update_execution_cost sample_cost 1200 100 t)"
proof -
  obtain u t where "try_add sample_cost sample_tracker = (Ok u, t)" "tracker_run {#(sample_cost, 9768)#} t"
    by (rule sample_admitted)
  then have t: "tracker_run {#(sample_cost, unat (cost_sum sample_cost))#} t" using sample_units by simp
  show ?thesis using update_execution_cost_exact [OF t, of 1200 100] sample_fixed_units by auto
qed

end
