(* ===== verification/Qos_Service.thy ===== *)
theory Qos_Service
  imports Cost_Tracker
begin

text \<open>
  \<open>core/src/banking_stage/qos_service.rs\<close>: the block producer reserves the estimated costs of a batch in
  the cost tracker of the bank, and settles them after the batch was executed. A bank is its feature set
  and its cost tracker; a result of the source is a sum (\<open>Inl\<close> the error). The lemmas compose the cost
  model with the tracker: a batch is admitted greedily in its order, and settling it leaves exactly the
  committed transactions with their actual costs.
\<close>

section \<open>Definitions\<close>

datatype CommitTransactionDetails =
  Committed (compute_units: u64) (loaded_accounts_data_size: u32) (fee_payer_post_balance: u64)
    (commit_result: "TransactionError + unit")
| NotCommitted TransactionError

type_synonym 'k cost_result = "TransactionError + 'k TransactionCost"

text \<open>At least one page is reserved for loading the fee payer.\<close>

fun reserve_page :: "'k TransactionCost \<Rightarrow> 'k TransactionCost" where
  "reserve_page (Transaction u) =
     Transaction (u\<lparr>uc_loaded_accounts_data_size_cost :=
       max (uc_loaded_accounts_data_size_cost u) (calculate_pages_cost 1)\<rparr>)"
| "reserve_page (SimpleVote tx) = SimpleVote tx"

fun compute_transaction_costs :: "cost_env \<Rightarrow> FeatureSet \<Rightarrow> 'k cost_tx list \<Rightarrow> (TransactionError + unit) list \<Rightarrow>
    (TransactionError, 'k cost_result list) outcome" where
  "compute_transaction_costs ce fs (tx # txs) (Inl e # pre_results) =
     obind (compute_transaction_costs ce fs txs pre_results) (\<lambda>costs. Ok (Inl e # costs))"
| "compute_transaction_costs ce fs (tx # txs) (Inr _ # pre_results) =
     obind (calculate_cost ce tx fs) (\<lambda>reserving_cost.
     obind (compute_transaction_costs ce fs txs pre_results) (\<lambda>costs. Ok (Inr (reserve_page reserving_cost) # costs)))"
| "compute_transaction_costs ce fs _ _ = Ok []"

fun select_loop :: "'k cost_result list \<Rightarrow> usize \<Rightarrow> ('k CostTracker, TransactionError, 'k cost_result list \<times> usize) op" where
  "select_loop [] num_included = sreturn ([], num_included)"
| "select_loop (Inl e # costs) num_included =
     sbind (select_loop costs num_included) (\<lambda>(results, n). sreturn (Inl e # results, n))"
| "select_loop (Inr cost # costs) num_included = (\<lambda>t.
     case try_add cost t of
       (Ok _, t') \<Rightarrow> sbind (select_loop costs (num_included + 1)) (\<lambda>(results, n). sreturn (Inr cost # results, n)) t'
     | (Err e, t') \<Rightarrow>
         sbind (select_loop costs num_included) (\<lambda>(results, n). sreturn (Inl (TransactionError_from e) # results, n)) t'
     | (Panic, t') \<Rightarrow> (Panic, t')
     | (UB, t') \<Rightarrow> (UB, t'))"

definition select_transactions_per_cost ::
  "'k cost_tx list \<Rightarrow> 'k cost_result list \<Rightarrow> ('k CostTracker, TransactionError, 'k cost_result list \<times> usize) op" where
  "select_transactions_per_cost transactions transactions_costs =
     sbind (select_loop (map snd (zip transactions transactions_costs)) 0) (\<lambda>(select_results, num_included) t.
       (Ok (select_results, num_included), add_transactions_in_flight (of_nat num_included) t))"

definition select_and_accumulate_transaction_costs ::
  "cost_env \<Rightarrow> FeatureSet \<Rightarrow> 'k cost_tx list \<Rightarrow> (TransactionError + unit) list \<Rightarrow>
     ('k CostTracker, TransactionError, 'k cost_result list \<times> u64) op" where
  "select_and_accumulate_transaction_costs ce fs transactions pre_results =
     sbind (slift (compute_transaction_costs ce fs transactions pre_results)) (\<lambda>transaction_costs.
     sbind (select_transactions_per_cost transactions transaction_costs) (\<lambda>(results, num_included).
     sreturn (results, of_nat (length transactions - num_included))))"

fun settle_loop :: "('k cost_result \<times> CommitTransactionDetails) list \<Rightarrow> usize \<times> 'k CostTracker \<Rightarrow> usize \<times> 'k CostTracker" where
  "settle_loop [] s = s"
| "settle_loop ((Inl _, _) # rest) s = settle_loop rest s"
| "settle_loop ((Inr tx_cost, Committed units loaded _ _) # rest) (num_included, t) =
     settle_loop rest (num_included + 1,
       update_execution_cost tx_cost units (calculate_loaded_accounts_data_size_cost loaded) t)"
| "settle_loop ((Inr tx_cost, NotCommitted _) # rest) (num_included, t) =
     settle_loop rest (num_included + 1, tracker_remove tx_cost t)"

definition remove_or_update_recorded_transaction_costs ::
  "'k cost_result list \<Rightarrow> CommitTransactionDetails list \<Rightarrow> 'k CostTracker \<Rightarrow> 'k CostTracker" where
  "remove_or_update_recorded_transaction_costs transaction_cost_results transaction_committed_status t =
     (case settle_loop (zip transaction_cost_results transaction_committed_status) (0, t) of
        (num_included, t') \<Rightarrow> sub_transactions_in_flight (of_nat num_included) t')"

fun unrecorded_loop :: "'k cost_result list \<Rightarrow> usize \<times> 'k CostTracker \<Rightarrow> usize \<times> 'k CostTracker" where
  "unrecorded_loop [] s = s"
| "unrecorded_loop (Inl _ # rest) s = unrecorded_loop rest s"
| "unrecorded_loop (Inr tx_cost # rest) (num_included, t) =
     unrecorded_loop rest (num_included + 1, tracker_remove tx_cost t)"

definition remove_unrecorded_transaction_costs :: "'k cost_result list \<Rightarrow> 'k CostTracker \<Rightarrow> 'k CostTracker" where
  "remove_unrecorded_transaction_costs transaction_cost_results t =
     (case unrecorded_loop transaction_cost_results (0, t) of
        (num_included, t') \<Rightarrow> sub_transactions_in_flight (of_nat num_included) t')"

definition remove_or_update_costs ::
  "'k cost_result list \<Rightarrow> CommitTransactionDetails list option \<Rightarrow> 'k CostTracker \<Rightarrow> 'k CostTracker" where
  "remove_or_update_costs transaction_cost_results transaction_committed_status t =
     (case transaction_committed_status of
        Some status \<Rightarrow> remove_or_update_recorded_transaction_costs transaction_cost_results status t
      | None \<Rightarrow> remove_unrecorded_transaction_costs transaction_cost_results t)"

section \<open>The batch over the abstract block\<close>

fun admit :: "'k CostTracker \<Rightarrow> 'k block \<Rightarrow> 'k cost_result list \<Rightarrow> 'k cost_result list" where
  "admit t B [] = []"
| "admit t B (Inl e # costs) = Inl e # admit t B costs"
| "admit t B (Inr c # costs) =
     (case block_verdict t B c of
        None \<Rightarrow> Inr c # admit t (add_mset (c, unat (cost_sum c)) B) costs
      | Some e \<Rightarrow> Inl (TransactionError_from e) # admit t B costs)"

fun reserved :: "'k cost_result list \<Rightarrow> 'k block" where
  "reserved [] = {#}"
| "reserved (Inl _ # results) = reserved results"
| "reserved (Inr c # results) = add_mset (c, unat (cost_sum c)) (reserved results)"

fun settled :: "('k cost_result \<times> CommitTransactionDetails) list \<Rightarrow> 'k block" where
  "settled [] = {#}"
| "settled ((Inr c, Committed units loaded _ _) # rest) =
     add_mset (c, fixed_units c + (unat units + unat (calculate_loaded_accounts_data_size_cost loaded))) (settled rest)"
| "settled (_ # rest) = settled rest"

definition included :: "'k cost_result list \<Rightarrow> nat" where
  "included results = length (filter (\<lambda>r. \<not> isl r) results)"

lemma included_simps [simp]:
  "included [] = 0" "included (Inl e # results) = included results" "included (Inr c # results) = Suc (included results)"
  by (simp_all add: included_def)

lemma size_reserved [simp]: "size (reserved results) = included results"
  by (induction results rule: reserved.induct) simp_all

definition priced_results :: "'k cost_result list \<Rightarrow> bool" where
  "priced_results results \<longleftrightarrow> (\<forall>c. Inr c \<in> set results \<longrightarrow> well_priced c)"

lemma priced_results_simps [simp]:
  "priced_results []" "priced_results (Inl e # results) = priced_results results"
  "priced_results (Inr c # results) \<longleftrightarrow> well_priced c \<and> priced_results results"
  by (auto simp: priced_results_def)

lemma block_verdict_frame: "same_limits t t' \<Longrightarrow> block_verdict t' B c = block_verdict t B c"
  by (simp add: same_limits_def block_verdict_def Let_def)

lemma same_limits_trans [trans]: "same_limits t t' \<Longrightarrow> same_limits t' t'' \<Longrightarrow> same_limits t t''"
  by (simp add: same_limits_def)

lemma admit_frame: "same_limits t t' \<Longrightarrow> admit t' B costs = admit t B costs"
  by (induction t B costs rule: admit.induct) (simp_all add: block_verdict_frame split: option.split)

lemma in_flight_kept:
  "in_flight_transaction_count (snd (try_add c t)) = in_flight_transaction_count t"
  "in_flight_transaction_count (tracker_remove c t) = in_flight_transaction_count t"
  "in_flight_transaction_count (update_execution_cost c x l t) = in_flight_transaction_count t"
  by (simp_all add: try_add_def add_transaction_cost_def add_transaction_execution_cost_def tracker_remove_def
      remove_transaction_cost_def sub_transaction_execution_cost_def update_execution_cost_def Let_def
      split: outcome.split prod.split)

lemma select_loop_exact:
  assumes "tracker_run B t" and "priced_results costs"
  shows "\<exists>t'. select_loop costs n t = (Ok (admit t B costs, n + included (admit t B costs)), t') \<and>
    tracker_run (B + reserved (admit t B costs)) t' \<and> same_limits t t' \<and>
    in_flight_transaction_count t' = in_flight_transaction_count t"
  using assms
proof (induction costs arbitrary: B t n)
  case Nil
  then show ?case by (simp add: sreturn_def same_limits_def)
next
  case (Cons r costs)
  show ?case
  proof (cases r)
    case (Inl e)
    then show ?thesis using Cons.IH [OF Cons.prems(1), of n] Cons.prems by (auto simp: sbind_def sreturn_def)
  next
    case (Inr c)
    then have c: "well_priced c" "priced_results costs" using Cons.prems by simp_all
    have i: "tracks B t" "finite_limits t" using tracker_run_invariant [OF Cons.prems(1)] by simp_all
    from i c(1) show ?thesis
    proof (cases rule: try_add_cases)
      case (rejected e)
      then show ?thesis using Inr Cons.IH [OF Cons.prems(1) c(2), of n] by (auto simp: sbind_def sreturn_def)
    next
      case (admitted u t1)
      have "in_flight_transaction_count t1 = in_flight_transaction_count t"
        using in_flight_kept(1) [of c t] admitted(2) by simp
      moreover obtain t' where "select_loop costs (n + 1) t1 = (Ok (admit t (add_mset (c, unat (cost_sum c)) B) costs,
            n + 1 + included (admit t (add_mset (c, unat (cost_sum c)) B) costs)), t')"
          "tracker_run (add_mset (c, unat (cost_sum c)) B + reserved (admit t (add_mset (c, unat (cost_sum c)) B) costs)) t'"
          "same_limits t1 t'" "in_flight_transaction_count t' = in_flight_transaction_count t1"
        using Cons.IH [OF tracker_run.added [OF Cons.prems(1) c(1) admitted(2)] c(2), of "n + 1"]
        unfolding admit_frame [OF admitted(5)] by blast
      ultimately show ?thesis
        using Inr admitted(1,2) same_limits_trans [OF admitted(5)] by (auto simp: sbind_def sreturn_def)
    qed
  qed
qed

text \<open>A committed transaction used at most what was reserved for it.\<close>

fun within_reservation :: "'k cost_result \<times> CommitTransactionDetails \<Rightarrow> bool" where
  "within_reservation (Inr c, Committed units loaded _ _) \<longleftrightarrow>
     unat units + unat (calculate_loaded_accounts_data_size_cost loaded) \<le> load_and_execution_units c"
| "within_reservation _ = True"

lemma within_reservation_not_committed [simp]: "within_reservation (r, NotCommitted e)"
  by (cases r) simp_all

lemma settle_loop_exact:
  assumes "tracker_run (B + reserved (map fst rs)) t" and "list_all within_reservation rs"
  shows "\<exists>t'. settle_loop rs (n, t) = (n + included (map fst rs), t') \<and> tracker_run (B + settled rs) t' \<and>
    same_limits t t' \<and> in_flight_transaction_count t' = in_flight_transaction_count t"
  using assms
proof (induction rs arbitrary: B t n)
  case Nil
  then show ?case by (simp add: same_limits_def)
next
  case (Cons rd rs)
  have w: "within_reservation rd" "list_all within_reservation rs" using Cons.prems(2) by simp_all
  note IH = Cons.IH [OF _ w(2)]
  obtain r d where rd: "rd = (r, d)" by (cases rd)
  show ?case
  proof (cases r)
    case (Inl e)
    then show ?thesis using IH [of B t n] Cons.prems(1) by (cases d) (simp_all add: rd)
  next
    case (Inr c)
    then have run: "tracker_run (add_mset (c, unat (cost_sum c)) (B + reserved (map fst rs))) t"
      using Cons.prems(1) by (simp add: rd)
    show ?thesis
    proof (cases d)
      case (Committed x l p q)
      let ?l = "calculate_loaded_accounts_data_size_cost l"
      have "unat x + unat ?l \<le> load_and_execution_units c" using w(1) Inr Committed by (simp add: rd)
      then have "fixed_units c + (unat x + unat ?l) + block_units (B + reserved (map fst rs)) < 2 ^ 64"
        using tracker_run_invariant [OF run] by (simp add: tracks_def block_ok_add well_priced_def)
      from tracker_run.updated [OF run this]
      obtain t' where "settle_loop rs (n + 1, update_execution_cost c x ?l t) = (n + 1 + included (map fst rs), t')"
        "tracker_run (add_mset (c, fixed_units c + (unat x + unat ?l)) B + settled rs) t'"
        "same_limits (update_execution_cost c x ?l t) t'"
        "in_flight_transaction_count t' = in_flight_transaction_count t"
        using IH [of "add_mset (c, fixed_units c + (unat x + unat ?l)) B" "update_execution_cost c x ?l t" "n + 1"]
        by (auto simp: in_flight_kept)
      then show ?thesis
        using Inr Committed same_limits_trans [OF same_limits_update [of t c x ?l]] by (auto simp: rd)
    next
      case (NotCommitted e)
      from tracker_run.removed [OF run]
      obtain t' where "settle_loop rs (n + 1, tracker_remove c t) = (n + 1 + included (map fst rs), t')"
        "tracker_run (B + settled rs) t'" "same_limits (tracker_remove c t) t'"
        "in_flight_transaction_count t' = in_flight_transaction_count t"
        using IH [of B "tracker_remove c t" "n + 1"] by (auto simp: in_flight_kept)
      then show ?thesis
        using Inr NotCommitted same_limits_trans [OF same_limits_remove [of t c]] by (auto simp: rd)
    qed
  qed
qed

text \<open>Removing an unrecorded batch is settling it with nothing committed.\<close>

lemma unrecorded_loop_settle:
  "unrecorded_loop results s = settle_loop (map (\<lambda>r. (r, NotCommitted e)) results) s"
  by (induction results s rule: unrecorded_loop.induct) simp_all

lemma settled_not_committed [simp]: "settled (map (\<lambda>r. (r, NotCommitted e)) results) = {#}"
proof (induction results)
  case (Cons r results)
  then show ?case by (cases r) simp_all
qed simp

section \<open>Reserving costs for a batch\<close>

definition costable :: "FeatureSet \<Rightarrow> 'k cost_tx \<Rightarrow> bool" where
  "costable fs tx \<longleftrightarrow> defined_outcome (tx_transaction_configuration tx fs) \<and> distinct (tx_account_keys tx) \<and>
     0 < num_transaction_signatures (tx_signature_details tx) \<and>
     non_vote_units tx (unat (tx_num_write_locks tx)) (fst (execution_units tx fs)) (snd (execution_units tx fs)) + 8 < 2 ^ 64"

lemma unat_max_word: "unat (max a b) = max (unat a) (unat b)" for a b :: u64
  by (simp add: max_def word_le_nat_alt)

lemma reserve_page_priced:
  assumes "well_priced c" and "unat (cost_sum c) + 8 < 2 ^ 64"
  shows "well_priced (reserve_page c)"
proof (cases c)
  case (Transaction u)
  have "unat (calculate_pages_cost 1) = 8" by (simp add: calculate_pages_cost_def unat_sat_mul cost_constants)
  then show ?thesis
    using assms Transaction
    by (auto simp: well_priced_def fixed_units_def load_and_execution_units_def unat_usage_sum unat_max_word
        writable_accounts_def)
qed (use assms in simp)

lemma calculate_cost_costable:
  assumes "costable fs tx"
  obtains c where "calculate_cost ce tx fs = Ok c" "well_priced (reserve_page c)"
proof -
  have d: "defined_outcome (tx_transaction_configuration tx fs)" using assms by (simp add: costable_def)
  obtain c where c: "calculate_cost ce tx fs = Ok c" "unat (cost_sum c) + 8 < 2 ^ 64"
    using assms
    by (cases rule: calculate_cost_cases [OF d, where ce = ce])
      (auto simp: costable_def unat_non_vote_cost SIMPLE_VOTE_USAGE_COST_def)
  have "well_priced c"
    by (rule calculate_cost_well_priced(1) [OF d _ _ _ c(1)]) (use assms in \<open>simp_all add: costable_def\<close>)
  with c show thesis by (intro that reserve_page_priced)
qed

lemma compute_transaction_costs_priced:
  assumes "list_all (costable fs) txs" and "length pre_results = length txs"
  shows "\<exists>costs. compute_transaction_costs ce fs txs pre_results = Ok costs \<and> priced_results costs \<and>
    length costs = length txs \<and> map isl costs = map isl pre_results"
  using assms
proof (induction txs arbitrary: pre_results)
  case (Cons tx txs)
  obtain p ps where ps: "pre_results = p # ps" "length ps = length txs" using Cons.prems by (cases pre_results) auto
  obtain costs where "compute_transaction_costs ce fs txs ps = Ok costs" "priced_results costs"
    "length costs = length txs" "map isl costs = map isl ps"
    using Cons.IH [of ps] Cons.prems ps by auto
  moreover obtain c where "calculate_cost ce tx fs = Ok c" "well_priced (reserve_page c)"
    using calculate_cost_costable [of fs tx ce] Cons.prems by auto
  ultimately show ?case by (cases p) (auto simp: ps)
qed simp

lemma length_admit [simp]: "length (admit t B costs) = length costs"
  by (induction t B costs rule: admit.induct) (simp_all split: option.split)

lemma in_flight_run:
  "tracker_run B t \<Longrightarrow> tracker_run B (add_transactions_in_flight n t)"
  "tracker_run B t \<Longrightarrow> tracker_run B (sub_transactions_in_flight n t)"
  by (rule tracker_run.in_flight_added tracker_run.in_flight_removed, assumption)+

lemma select_exact:
  assumes "tracker_run B t" and "priced_results costs" and "length costs = length txs"
  obtains t' where "select_transactions_per_cost txs costs t = (Ok (admit t B costs, included (admit t B costs)), t')"
    "tracker_run (B + reserved (admit t B costs)) t'" "same_limits t t'"
    "in_flight_transaction_count t' = sat_add (in_flight_transaction_count t) (of_nat (included (admit t B costs)))"
proof -
  let ?rs = "admit t B costs"
  obtain t1 where l: "select_loop costs 0 t = (Ok (?rs, included ?rs), t1)" "tracker_run (B + reserved ?rs) t1"
    "same_limits t t1" "in_flight_transaction_count t1 = in_flight_transaction_count t"
    using select_loop_exact [OF assms(1,2), of 0] by auto
  let ?t' = "add_transactions_in_flight (of_nat (included ?rs)) t1"
  have "select_transactions_per_cost txs costs t = (Ok (?rs, included ?rs), ?t')"
    using l(1) assms(3) by (simp add: select_transactions_per_cost_def sbind_def map_snd_zip)
  moreover have "in_flight_transaction_count ?t' = sat_add (in_flight_transaction_count t) (of_nat (included ?rs))"
    "same_limits t ?t'"
    using l(3,4) by (simp_all add: add_transactions_in_flight_def same_limits_def)
  ultimately show thesis using that in_flight_run(1) [OF l(2)] by blast
qed

text \<open>
  C30: a batch is admitted greedily in its order. For transactions with a defined budget, distinct accounts
  and a cost below the 64 bit range, computing and reserving the costs never panics; each transaction of
  the batch gets its cost, its earlier error or the error of the first limit that it would exceed given the
  block and the transactions admitted before it; the tracker then accounts for the block with exactly the
  admitted transactions, all of them in flight.
\<close>

theorem batch_admission_exact:
  assumes "tracker_run B t" and "list_all (costable fs) txs" and "length pre_results = length txs"
  shows "\<exists>costs t'. compute_transaction_costs ce fs txs pre_results = Ok costs \<and>
    select_and_accumulate_transaction_costs ce fs txs pre_results t =
      (Ok (admit t B costs, of_nat (length txs - included (admit t B costs))), t') \<and>
    tracker_run (B + reserved (admit t B costs)) t' \<and>
    in_flight_transaction_count t' = sat_add (in_flight_transaction_count t) (of_nat (included (admit t B costs)))"
proof -
  obtain costs where c: "compute_transaction_costs ce fs txs pre_results = Ok costs" "priced_results costs"
    "length costs = length txs"
    using compute_transaction_costs_priced [OF assms(2,3)] by blast
  obtain t' where "select_transactions_per_cost txs costs t = (Ok (admit t B costs, included (admit t B costs)), t')"
    "tracker_run (B + reserved (admit t B costs)) t'"
    "in_flight_transaction_count t' = sat_add (in_flight_transaction_count t) (of_nat (included (admit t B costs)))"
    by (rule select_exact [OF assms(1) c(2,3)])
  with c(1) show ?thesis
    by (auto simp: select_and_accumulate_transaction_costs_def sbind_def slift_def sreturn_def)
qed

definition sample_batch :: "nat cost_tx list" where
  "sample_batch = [sample_cost_tx, sample_cost_tx, sample_cost_tx]"

lemma sample_costable: "list_all (costable fs) sample_batch"
  by (simp add: sample_batch_def costable_def sample_cost_tx_def non_vote_units_def signature_units_def execution_units_def)

lemma sample_costs:
  "compute_transaction_costs sample_cost_env sample_features sample_batch [Inr (), Inl SanitizeFailure, Inr ()] =
     Ok [Inr sample_cost, Inl SanitizeFailure, Inr sample_cost]"
proof -
  have "reserve_page sample_cost = sample_cost"
    by (simp add: sample_cost_def calculate_non_vote_transaction_cost_def calculate_pages_cost_def max_def
        word_le_nat_alt unat_sat_mul cost_constants)
  then show ?thesis by (simp add: sample_batch_def sample_cost_is)
qed

lemma sample_admit:
  "admit sample_tracker {#} [Inr sample_cost, Inl SanitizeFailure, Inr sample_cost]
     = [Inr sample_cost, Inl SanitizeFailure, Inl WouldExceedMaxAccountCostLimit]"
  using sample_units sample_verdict by (simp add: block_verdict_def sample_tracker_def set_limits_def)

theorem batch_admission_exact_witness:
  "\<exists>t'. select_and_accumulate_transaction_costs sample_cost_env sample_features sample_batch
      [Inr (), Inl SanitizeFailure, Inr ()] sample_tracker =
      (Ok ([Inr sample_cost, Inl SanitizeFailure, Inl WouldExceedMaxAccountCostLimit], 2), t') \<and>
    tracker_run {#(sample_cost, 9768)#} t'"
proof -
  have "length [Inr (), Inl SanitizeFailure, Inr ()] = length sample_batch" "length sample_batch = 3"
    by (simp_all add: sample_batch_def)
  then show ?thesis
    using batch_admission_exact [OF sample_tracker_run sample_costable [of sample_features],
        of "[Inr (), Inl SanitizeFailure, Inr ()]" sample_cost_env]
    unfolding sample_costs by (auto simp: sample_units(1) sample_admit simp del: admit.simps)
qed

section \<open>Settling a batch\<close>

lemma settle_exact:
  assumes "tracker_run (B + reserved rs) t" and "length status = length rs"
    and "list_all within_reservation (zip rs status)"
  shows "tracker_run (B + settled (zip rs status)) (remove_or_update_costs rs (Some status) t)"
    and "in_flight_transaction_count (remove_or_update_costs rs (Some status) t) =
      sat_sub (in_flight_transaction_count t) (of_nat (included rs))"
    and "same_limits t (remove_or_update_costs rs (Some status) t)"
proof -
  have z: "map fst (zip rs status) = rs" using assms(2) by simp
  obtain t' where t': "settle_loop (zip rs status) (0, t) = (included rs, t')" "tracker_run (B + settled (zip rs status)) t'"
    "same_limits t t'" "in_flight_transaction_count t' = in_flight_transaction_count t"
    using settle_loop_exact [of B "zip rs status" t 0] assms(1,3) unfolding z by auto
  then have r: "remove_or_update_costs rs (Some status) t = sub_transactions_in_flight (of_nat (included rs)) t'"
    by (simp add: remove_or_update_costs_def remove_or_update_recorded_transaction_costs_def)
  show "tracker_run (B + settled (zip rs status)) (remove_or_update_costs rs (Some status) t)"
    unfolding r by (rule in_flight_run(2) [OF t'(2)])
  show "in_flight_transaction_count (remove_or_update_costs rs (Some status) t) =
      sat_sub (in_flight_transaction_count t) (of_nat (included rs))"
    "same_limits t (remove_or_update_costs rs (Some status) t)"
    using t'(3,4) by (simp_all add: r sub_transactions_in_flight_def same_limits_def)
qed

text \<open>A batch that stayed within its reservations adds no transaction beyond its estimate.\<close>

lemma settled_within_estimates:
  assumes "within_estimates B" and "list_all within_reservation rs" and "block_ok (B + settled rs)"
  shows "within_estimates (B + settled rs)"
  using assms
proof (induction rs arbitrary: B rule: settled.induct)
  case (2 c units loaded p q rest)
  let ?n = "fixed_units c + (unat units + unat (calculate_loaded_accounts_data_size_cost loaded))"
  have "well_priced c" using "2.prems"(3) by (simp add: block_ok_add)
  then have "within_estimates (add_mset (c, ?n) B)"
    using "2.prems"(1,2) by (simp add: within_estimates_def well_priced_def)
  then show ?case using "2.IH" [of "add_mset (c, ?n) B"] "2.prems"(2,3) by simp
qed simp_all

lemma unrecorded_exact:
  "remove_or_update_costs rs None t = remove_or_update_costs rs (Some (map (\<lambda>r. NotCommitted e) rs)) t"
  by (simp add: remove_or_update_costs_def remove_unrecorded_transaction_costs_def unrecorded_loop_settle [of _ _ e]
      remove_or_update_recorded_transaction_costs_def zip_map2 zip_same_conv_map o_def)

lemma in_flight_restored:
  "unat n + k < 2 ^ 64 \<Longrightarrow> sat_sub (sat_add n (of_nat k)) (of_nat k) = n" for n :: u64
  by (rule word_unat_eq_iff [THEN iffD2]) (simp add: unat_sat_sub unat_sat_add unat_of_nat)

text \<open>
  C31: settling an executed batch is exact. When every committed transaction stayed within its reservation,
  the tracker accounts afterwards for the block with exactly the committed transactions of the batch, each
  with its fixed costs and the units it used; every other reservation is given back, no limit is exceeded
  (unless transactions that were in the block before used more than their estimates), and the number of transactions
  in flight is the one before the batch.
\<close>

theorem batch_settlement_exact:
  assumes "tracker_run B t" and "priced_results costs" and "length costs = length txs"
    and "length status = length costs" and "list_all within_reservation (zip (admit t B costs) status)"
    and "unat (in_flight_transaction_count t) + length costs < 2 ^ 64"
  shows "\<exists>rs n t1 t2. select_transactions_per_cost txs costs t = (Ok (rs, n), t1) \<and>
    t2 = remove_or_update_costs rs (Some status) t1 \<and> tracker_run (B + settled (zip rs status)) t2 \<and>
    (within_estimates B \<longrightarrow> within_limits t2) \<and> in_flight_transaction_count t2 = in_flight_transaction_count t"
proof -
  let ?rs = "admit t B costs"
  obtain t1 where t1: "select_transactions_per_cost txs costs t = (Ok (?rs, included ?rs), t1)"
    "tracker_run (B + reserved ?rs) t1"
    "in_flight_transaction_count t1 = sat_add (in_flight_transaction_count t) (of_nat (included ?rs))"
    by (rule select_exact [OF assms(1-3)])
  have "included ?rs \<le> length costs" using length_filter_le [of _ ?rs] by (simp add: included_def)
  then have "unat (in_flight_transaction_count t) + included ?rs < 2 ^ 64" using assms(6) by linarith
  then have "in_flight_transaction_count (remove_or_update_costs ?rs (Some status) t1) = in_flight_transaction_count t"
    using settle_exact(2) [OF t1(2), of status] assms(4,5) t1(3) in_flight_restored by simp
  moreover have r: "tracker_run (B + settled (zip ?rs status)) (remove_or_update_costs ?rs (Some status) t1)"
    using settle_exact(1) [OF t1(2), of status] assms(4,5) by simp
  moreover have "within_limits (remove_or_update_costs ?rs (Some status) t1)" if "within_estimates B"
  proof -
    have i: "tracks (B + settled (zip ?rs status)) (remove_or_update_costs ?rs (Some status) t1)"
      "units_within_limits (B + settled (zip ?rs status)) (remove_or_update_costs ?rs (Some status) t1)"
      using tracker_run_invariant [OF r] by simp_all
    then show ?thesis
      using within_limits_units [OF i] settled_within_estimates [OF that assms(5)] by (simp add: tracks_def)
  qed
  ultimately show ?thesis using t1(1) by blast
qed

theorem batch_settlement_exact_witness:
  "\<exists>rs n t1 t2. select_transactions_per_cost sample_batch [Inr sample_cost, Inl SanitizeFailure, Inr sample_cost] sample_tracker
      = (Ok (rs, n), t1) \<and>
    t2 = remove_or_update_costs rs (Some [Committed 1200 300 7 (Inr ()), NotCommitted SanitizeFailure,
      NotCommitted WouldExceedMaxAccountCostLimit]) t1 \<and>
    tracker_run (settled (zip rs [Committed 1200 300 7 (Inr ()), NotCommitted SanitizeFailure,
      NotCommitted WouldExceedMaxAccountCostLimit])) t2 \<and>
    within_limits t2 \<and> in_flight_transaction_count t2 = in_flight_transaction_count sample_tracker"
proof -
  let ?costs = "[Inr sample_cost, Inl SanitizeFailure, Inr sample_cost]"
  let ?status = "[Committed 1200 300 7 (Inr ()), NotCommitted SanitizeFailure, NotCommitted WouldExceedMaxAccountCostLimit]"
  have a: "admit sample_tracker {#} ?costs = [Inr sample_cost, Inl SanitizeFailure, Inl WouldExceedMaxAccountCostLimit]"
    by (rule sample_admit)
  have "load_and_execution_units sample_cost = 5016"
    by (simp add: load_and_execution_units_def sample_cost_def calculate_non_vote_transaction_cost_def)
  then have w: "list_all within_reservation (zip (admit sample_tracker {#} ?costs) ?status)"
    unfolding a by (simp add: unat_loaded_cost)
  have "unat (in_flight_transaction_count sample_tracker) + length ?costs < 2 ^ 64"
    by (simp add: sample_tracker_def set_limits_def CostTracker_default_def)
  from batch_settlement_exact [OF sample_tracker_run _ _ _ w this, of sample_batch] show ?thesis
    by (simp add: sample_well_priced sample_batch_def within_estimates_def)
qed

text \<open>
  An unrecorded batch leaves no trace. When a batch that was admitted could not be recorded, removing its
  costs restores the tracker field by field, every account cost and the number of transactions in flight.
\<close>

theorem unrecorded_batch_restores:
  assumes "tracker_run B t" and "priced_results costs" and "length costs = length txs"
    and "unat (in_flight_transaction_count t) + length costs < 2 ^ 64"
    and "select_transactions_per_cost txs costs t = (Ok (rs, n), t1)"
  shows "(remove_or_update_costs rs None t1)\<lparr>cost_by_writable_accounts := cost_by_writable_accounts t\<rparr> = t \<and>
    (\<forall>a. account_cost (remove_or_update_costs rs None t1) a = account_cost t a)"
proof -
  let ?e = "SanitizeFailure"
  let ?t2 = "remove_or_update_costs rs None t1"
  note n = unrecorded_exact [of rs t1 ?e]
  have t1: "rs = admit t B costs" "tracker_run (B + reserved rs) t1" "same_limits t t1"
    "in_flight_transaction_count t1 = sat_add (in_flight_transaction_count t) (of_nat (included rs))"
    using select_exact [OF assms(1-3)] assms(5) by auto
  have "list_all within_reservation (zip rs (map (\<lambda>r. NotCommitted ?e) rs))"
    by (simp add: zip_map2 zip_same_conv_map o_def list_all_iff)
  note s = settle_exact [OF t1(2) _ this, simplified, folded n]
  have "included rs \<le> length costs"
    using length_filter_le [of _ rs] t1(1) by (simp add: included_def)
  then have "in_flight_transaction_count ?t2 = in_flight_transaction_count t"
    using s(2) t1(4) assms(4) in_flight_restored by simp
  moreover have "settled (zip rs (map (\<lambda>r. NotCommitted ?e) rs)) = {#}"
    using settled_not_committed [of ?e rs] by (simp add: zip_map2 zip_same_conv_map o_def)
  then have "tracks B ?t2" using tracker_run_invariant [OF s(1)] by simp
  moreover have "tracks B t" using tracker_run_invariant [OF assms(1)] by simp
  ultimately show ?thesis
    using tracks_unique [of B t ?t2] same_limits_trans [OF t1(3) s(3)]
    by (simp add: same_counters_def same_limits_def)
qed

theorem unrecorded_batch_restores_witness:
  "\<exists>rs n t1. select_transactions_per_cost sample_batch [Inr sample_cost, Inl SanitizeFailure, Inr sample_cost] sample_tracker
      = (Ok (rs, n), t1) \<and>
    (remove_or_update_costs rs None t1)\<lparr>cost_by_writable_accounts := Map.empty\<rparr> = sample_tracker"
proof -
  let ?costs = "[Inr sample_cost, Inl SanitizeFailure, Inr sample_cost]"
  have l: "length ?costs = length sample_batch" and p: "priced_results ?costs"
    by (simp_all add: sample_batch_def sample_well_priced)
  obtain rs n t1 where s: "select_transactions_per_cost sample_batch ?costs sample_tracker = (Ok (rs, n), t1)"
    by (rule select_exact [OF sample_tracker_run p l]) blast
  have "unat (in_flight_transaction_count sample_tracker) + length ?costs < 2 ^ 64"
    "cost_by_writable_accounts sample_tracker = Map.empty"
    by (simp_all add: sample_tracker_def set_limits_def CostTracker_default_def)
  then show ?thesis using unrecorded_batch_restores [OF sample_tracker_run p l _ s] s by auto
qed

end
