(* ===== verification/Packet_Intake.thy ===== *)
theory Packet_Intake
  imports Qos_Service
begin

text \<open>
  From the bytes of a packet to a buffered transaction with its priority and cost:
  \<open>core/src/banking_stage/transaction_scheduler/receive_and_buffer.rs\<close>, with the checks it calls in
  \<open>accounts-db/src/account_locks.rs\<close>, the address lookups of \<open>runtime/src/bank/address_lookup_table.rs\<close> and
  \<open>accounts-db/src/accounts.rs\<close>, and the reward of \<open>runtime/src/bank/fee_distribution.rs\<close>. A bank is the
  record of what these functions read of it; loading an account and decoding a lookup table are parameters.
  The lemmas compose the whole pipeline: a packet is either refused with an error or gives a transaction
  that is well formed, lockable and has an exact cost and priority; it never panics.
\<close>

section \<open>Definitions\<close>

subsection \<open>Address lookups\<close>

datatype AddressLookupError =
  LookupTableAccountNotFound | InvalidAccountOwner | InvalidAccountData | InvalidLookupIndex

datatype AddressLoaderError =
  LoaderLookupTableAccountNotFound | LoaderInvalidAccountOwner | LoaderInvalidAccountData
| LoaderInvalidLookupIndex | SlotHashesSysvarNotFound

fun into_address_loader_error :: "AddressLookupError \<Rightarrow> AddressLoaderError" where
  "into_address_loader_error LookupTableAccountNotFound = LoaderLookupTableAccountNotFound"
| "into_address_loader_error InvalidAccountOwner = LoaderInvalidAccountOwner"
| "into_address_loader_error InvalidAccountData = LoaderInvalidAccountData"
| "into_address_loader_error InvalidLookupIndex = LoaderInvalidLookupIndex"

text \<open>
  Accounts as the bank sees them (owner and data) and the decoder of lookup tables; the current slot and the
  slot hashes that \<open>lookup_iter\<close> takes are those of the bank.
\<close>

record 't lookup_env =
  load_with_fixed_root :: "bytes \<Rightarrow> (bytes \<times> bytes) option"
  lookup_table_program_id :: bytes
  table_deserialize :: "bytes \<Rightarrow> 't option"
  lookup_iter :: "'t \<Rightarrow> bytes \<Rightarrow> (AddressLookupError, bytes option list) outcome"
  table_deactivation_slot :: "'t \<Rightarrow> u64"

fun push_addresses :: "bytes option list \<Rightarrow> bytes list \<Rightarrow> (AddressLookupError, bytes list) outcome" where
  "push_addresses [] acc = Ok acc"
| "push_addresses (Some address # rest) acc = push_addresses rest (acc @ [address])"
| "push_addresses (None # rest) acc = Err InvalidLookupIndex"

definition load_lookup_table_addresses_into ::
  "'t lookup_env \<Rightarrow> SVMMessageAddressTableLookup \<Rightarrow> LoadedAddresses \<Rightarrow>
     (AddressLookupError, u64 \<times> LoadedAddresses) outcome" where
  "load_lookup_table_addresses_into le lookup loaded =
     obind (ok_or LookupTableAccountNotFound (load_with_fixed_root le (lk_account_key lookup))) (\<lambda>(owner, data).
     if owner = lookup_table_program_id le
     then obind (ok_or InvalidAccountData (table_deserialize le data)) (\<lambda>table.
          obind (lookup_iter le table (lk_writable_indexes lookup)) (\<lambda>writable_addresses.
          obind (lookup_iter le table (lk_readonly_indexes lookup)) (\<lambda>readonly_addresses.
          obind (push_addresses writable_addresses (la_writable loaded)) (\<lambda>writable.
          obind (push_addresses readonly_addresses (la_readonly loaded)) (\<lambda>readonly.
          Ok (table_deactivation_slot le table, \<lparr>la_writable = writable, la_readonly = readonly\<rparr>))))))
     else Err InvalidAccountOwner)"

subsection \<open>Banks and errors\<close>

record 't bank =
  bank_feature_set :: FeatureSet
  vote_only_bank :: bool
  reserved_account_keys :: "bytes set"
  lamports_per_signature :: u64
  bank_slot :: u64
  bank_epoch :: u64
  has_slot_hashes :: bool
  bank_lookup :: "'t lookup_env"

datatype PacketHandlingError = Sanitization | LockValidation | ComputeBudget | ALTResolution | FilterKey

text \<open>\<open>let Ok(x) = e else { return Err(err) }\<close>, and a plain value whose computation may panic.\<close>

fun or_err :: "'e \<Rightarrow> ('f, 'a) outcome \<Rightarrow> ('e, 'a) outcome" where
  "or_err e (Ok a) = Ok a"
| "or_err e (Err _) = Err e"
| "or_err e Panic = Panic"
| "or_err e UB = UB"

fun plain :: "('f, 'a) outcome \<Rightarrow> ('e, 'a) outcome" where
  "plain (Ok a) = Ok a"
| "plain (Err _) = Panic"
| "plain Panic = Panic"
| "plain UB = UB"

text \<open>The loop of \<open>load_addresses_from_ref\<close>.\<close>

fun load_addresses_loop :: "'t lookup_env \<Rightarrow> SVMMessageAddressTableLookup list \<Rightarrow> u64 \<Rightarrow> LoadedAddresses \<Rightarrow>
    (AddressLoaderError, LoadedAddresses \<times> u64) outcome" where
  "load_addresses_loop le [] deactivation_slot loaded = Ok (loaded, deactivation_slot)"
| "load_addresses_loop le (lookup # lookups) deactivation_slot loaded =
     (case load_lookup_table_addresses_into le lookup loaded of
        Ok (slot, loaded') \<Rightarrow> load_addresses_loop le lookups (min deactivation_slot slot) loaded'
      | Err e \<Rightarrow> Err (into_address_loader_error e)
      | Panic \<Rightarrow> Panic
      | UB \<Rightarrow> UB)"

definition load_addresses_from_ref ::
  "'t bank \<Rightarrow> SVMMessageAddressTableLookup list \<Rightarrow> (AddressLoaderError, LoadedAddresses \<times> u64) outcome" where
  "load_addresses_from_ref b lookups =
     (if has_slot_hashes b
      then load_addresses_loop (bank_lookup b) lookups (- 1) \<lparr>la_writable = [], la_readonly = []\<rparr>
      else Err SlotHashesSysvarNotFound)"

definition load_addresses_for_view ::
  "'t bank \<Rightarrow> TransactionView \<Rightarrow> (PacketHandlingError, LoadedAddresses option \<times> u64) outcome" where
  "load_addresses_for_view b v =
     (case view_version v of
        V0 \<Rightarrow>
          obind (plain (lookup_fold (address_table_lookup_iter v) (\<lambda>ls l. Ok (ls @ [l])) [])) (\<lambda>lookups.
          obind (or_err ALTResolution (load_addresses_from_ref b lookups)) (\<lambda>(loaded, slot).
          Ok (Some loaded, slot)))
      | _ \<Rightarrow> Ok (None, - 1))"

subsection \<open>Account locks\<close>

text \<open>The two ways of finding duplicates, by a set and by comparing all pairs.\<close>

fun inserted_twice :: "'k set \<Rightarrow> 'k list \<Rightarrow> bool" where
  "inserted_twice seen [] = False"
| "inserted_twice seen (key # keys) = (if key \<in> seen then True else inserted_twice (insert key seen) keys)"

definition has_duplicates :: "'k list \<Rightarrow> bool" where
  "has_duplicates account_keys =
     (if length account_keys \<ge> 32 then inserted_twice {} account_keys
      else list_ex (\<lambda>idx. list_ex (\<lambda>jdx. account_keys ! idx = account_keys ! jdx) [idx + 1..<length account_keys])
             [0..<length account_keys])"

definition validate_account_locks :: "'k list \<Rightarrow> usize \<Rightarrow> (TransactionError, unit) outcome" where
  "validate_account_locks account_keys tx_account_lock_limit =
     (if length account_keys > tx_account_lock_limit then Err TooManyAccountLocks
      else if has_duplicates account_keys then Err AccountLoadedTwice
      else Ok ())"

subsection \<open>Rewards\<close>

record FeeDistribution =
  deposit :: u64
  burn :: u64

definition calculate_reward_and_burn_fee_details :: "u64 \<Rightarrow> FeeDetails \<Rightarrow> FeeDistribution" where
  "calculate_reward_and_burn_fee_details burn_percent fee_details =
     (if transaction_fee fee_details = 0 then \<lparr>deposit = 0, burn = 0\<rparr>
      else let b = transaction_fee fee_details * burn_percent div 100 in
           \<lparr>deposit = sat_add (prioritization_fee fee_details) (sat_sub (transaction_fee fee_details) b), burn = b\<rparr>)"

text \<open>The trait methods of a runtime transaction delegate to its view and its metadata.\<close>

definition inner_view :: "(ResolvedTransactionView, 'h) RuntimeTransaction \<Rightarrow> (TransactionView, 'h) RuntimeTransaction" where
  "inner_view tx = \<lparr>rt_transaction = rv_view (rt_transaction tx), rt_meta = rt_meta tx\<rparr>"

definition calculate_reward_for_transaction ::
  "u64 \<Rightarrow> 't bank \<Rightarrow> (ResolvedTransactionView, 'h) RuntimeTransaction \<Rightarrow> TransactionConfiguration \<Rightarrow> u64" where
  "calculate_reward_for_transaction burn_percent b tx config =
     deposit (calculate_reward_and_burn_fee_details burn_percent
       (calculate_fee_details (inner_view tx) (lamports_per_signature b) (tc_priority_fee_lamports config)))"

subsection \<open>The intake\<close>

text \<open>What is read from crates outside the repository, and the environments of the components below.\<close>

record 'h intake_env =
  ie_runtime :: "'h runtime_env"
  ie_params :: sanitize_params
  ie_keys_iter :: account_keys_iter
  ie_loader :: bytes
  ie_cost :: cost_env
  ie_burn_percent :: u64
  estimate_last_valid_slot :: "u64 \<Rightarrow> u64"

definition cost_tx_of ::
  "'h intake_env \<Rightarrow> (ResolvedTransactionView, 'h) RuntimeTransaction \<Rightarrow> ('e, bytes cost_tx) outcome" where
  "cost_tx_of env tx =
     obind (plain (program_instructions_iter (rv_view (rt_transaction tx)))) (\<lambda>instructions.
     obind (plain (rv_account_keys (ie_keys_iter env) (rt_transaction tx))) (\<lambda>keys.
     Ok \<lparr>tx_is_simple_vote_transaction = is_simple_vote_transaction (rt_meta tx),
         tx_signature_details = signature_details (rt_meta tx),
         tx_transaction_configuration =
           (\<lambda>fs. transaction_configuration (re_budget (ie_runtime env)) fs tx),
         tx_instruction_data_len = instruction_data_len (rt_meta tx),
         tx_program_instructions = instructions,
         tx_num_write_locks = num_requested_write_locks (rv_view (rt_transaction tx)),
         tx_account_keys = keys,
         tx_is_writable = is_writable (rt_transaction tx)\<rparr>))"

definition translate_to_runtime_view ::
  "'h intake_env \<Rightarrow> bytes \<Rightarrow> 't bank \<Rightarrow> usize \<Rightarrow> bool \<Rightarrow>
     (PacketHandlingError, (ResolvedTransactionView, 'h) RuntimeTransaction \<times> u64) outcome" where
  "translate_to_runtime_view env data b transaction_account_lock_limit enable_instruction_accounts_limit =
     obind (or_err Sanitization (try_new_sanitized (ie_params env) data enable_instruction_accounts_limit)) (\<lambda>view.
     obind (or_err Sanitization (RuntimeTransaction_try_new (ie_runtime env) view Compute None)) (\<lambda>tx.
     if vote_only_bank b \<and> \<not> is_simple_vote_transaction (rt_meta tx) then Err Sanitization
     else if unat (total_num_accounts view) > transaction_account_lock_limit then Err LockValidation
     else obind (load_addresses_for_view b view) (\<lambda>(loaded_addresses, deactivation_slot).
          obind (or_err Sanitization (RuntimeTransaction_resolve (ie_keys_iter env) (ie_loader env) tx loaded_addresses
                   (reserved_account_keys b))) (\<lambda>tx.
          obind (plain (rv_account_keys (ie_keys_iter env) (rt_transaction tx))) (\<lambda>keys.
          obind (or_err LockValidation (validate_account_locks keys transaction_account_lock_limit)) (\<lambda>_.
          Ok (tx, deactivation_slot)))))))"

record MaxAge =
  sanitized_epoch :: u64
  alt_invalidation_slot :: u64

definition calculate_max_age :: "(u64 \<Rightarrow> u64) \<Rightarrow> u64 \<Rightarrow> u64 \<Rightarrow> u64 \<Rightarrow> MaxAge" where
  "calculate_max_age estimate epoch deactivation_slot current_slot =
     \<lparr>sanitized_epoch = epoch, alt_invalidation_slot = estimate (min deactivation_slot current_slot)\<rparr>"

definition MULTIPLIER :: u64 where "MULTIPLIER = 1000000"

definition calculate_priority_and_cost ::
  "'h intake_env \<Rightarrow> (ResolvedTransactionView, 'h) RuntimeTransaction \<Rightarrow> TransactionConfiguration \<Rightarrow> 't bank \<Rightarrow>
     (PacketHandlingError, u64 \<times> u64) outcome" where
  "calculate_priority_and_cost env tx config b =
     obind (cost_tx_of env tx) (\<lambda>ctx.
     obind (plain (calculate_cost (ie_cost env) ctx (bank_feature_set b))) (\<lambda>c.
     let cost = cost_sum c;
         reward = calculate_reward_for_transaction (ie_burn_percent env) b tx config in
     Ok (sat_mul reward MULTIPLIER div sat_add cost 1, cost)))"

record 'tx TransactionState =
  ts_transaction :: "'tx option"
  ts_max_age :: MaxAge
  ts_priority :: u64
  ts_cost :: u64

definition TransactionState_new :: "'tx \<Rightarrow> MaxAge \<Rightarrow> u64 \<Rightarrow> u64 \<Rightarrow> 'tx TransactionState" where
  "TransactionState_new tx max_age priority cost =
     \<lparr>ts_transaction = Some tx, ts_max_age = max_age, ts_priority = priority, ts_cost = cost\<rparr>"

definition try_handle_packet ::
  "'h intake_env \<Rightarrow> bytes \<Rightarrow> 't bank \<Rightarrow> 't bank \<Rightarrow> usize \<Rightarrow> bool \<Rightarrow> bytes set \<Rightarrow>
     (PacketHandlingError, (ResolvedTransactionView, 'h) RuntimeTransaction TransactionState) outcome" where
  "try_handle_packet env data root_bank working_bank transaction_account_lock_limit
      enable_instruction_accounts_limit filter_keys =
     obind (translate_to_runtime_view env data root_bank transaction_account_lock_limit
              enable_instruction_accounts_limit) (\<lambda>(view, deactivation_slot).
     obind (plain (rv_account_keys (ie_keys_iter env) (rt_transaction view))) (\<lambda>keys.
     if filter_keys \<noteq> {} \<and> list_ex (\<lambda>key. key \<in> filter_keys) keys then Err FilterKey
     else obind (or_err ComputeBudget
                   (transaction_configuration (re_budget (ie_runtime env)) (bank_feature_set working_bank) view)) (\<lambda>config.
          let max_age = calculate_max_age (estimate_last_valid_slot env) (bank_epoch root_bank) deactivation_slot
                          (bank_slot root_bank) in
          obind (calculate_priority_and_cost env view config working_bank) (\<lambda>(priority, cost).
          Ok (TransactionState_new view max_age priority cost)))))"

section \<open>Duplicate accounts\<close>

lemma inserted_twice_iff: "inserted_twice seen keys \<longleftrightarrow> \<not> (distinct keys \<and> set keys \<inter> seen = {})"
  by (induction keys arbitrary: seen) auto

lemma equal_pair_iff:
  "list_ex (\<lambda>i. list_ex (\<lambda>j. keys ! i = keys ! j) [i + 1..<length keys]) [0..<length keys] \<longleftrightarrow> \<not> distinct keys"
    (is "?pair \<longleftrightarrow> _")
proof
  assume ?pair
  then obtain i j where "i < length keys" "i < j" "j < length keys" "keys ! i = keys ! j"
    unfolding list_ex_iff set_upt by (auto simp: Suc_le_eq)
  then show "\<not> distinct keys" using nth_eq_iff_index_eq [of keys i j] by auto
next
  assume "\<not> distinct keys"
  then obtain i' j' where "i' < length keys" "j' < length keys" "i' \<noteq> j'" "keys ! i' = keys ! j'"
    unfolding distinct_conv_nth by blast
  then obtain i j where "i < j" "j < length keys" "keys ! i = keys ! j"
    by (cases "i' < j'") (auto simp: not_less le_less)
  then show ?pair unfolding list_ex_iff by (intro bexI [of _ i] bexI [of _ j]) simp_all
qed

lemma has_duplicates_iff: "has_duplicates keys \<longleftrightarrow> \<not> distinct keys"
  unfolding has_duplicates_def equal_pair_iff by (simp add: inserted_twice_iff)

lemma validate_account_locks_Ok:
  "validate_account_locks keys limit = Ok u \<longleftrightarrow> length keys \<le> limit \<and> distinct keys"
  by (simp add: validate_account_locks_def has_duplicates_iff)

section \<open>No panics\<close>

lemma defined_or_err [simp]: "defined_outcome (or_err e r) = defined_outcome r"
  by (cases r) simp_all

lemma or_err_Ok [simp]: "or_err e r = Ok a \<longleftrightarrow> r = Ok a"
  by (cases r) simp_all

text \<open>The decoder of lookup tables reports its failures as errors.\<close>

definition lookup_total :: "'t lookup_env \<Rightarrow> bool" where
  "lookup_total le \<longleftrightarrow> (\<forall>t ixs. defined_outcome (lookup_iter le t ixs))"

lemma push_addresses_defined: "defined_outcome (push_addresses xs acc)"
  by (induction xs acc rule: push_addresses.induct) simp_all

lemma ok_or_defined: "defined_outcome (ok_or e x)"
  by (cases x) simp_all

lemma load_lookup_defined:
  assumes "lookup_total le"
  shows "defined_outcome (load_lookup_table_addresses_into le lookup loaded)"
  using assms
  by (auto simp: load_lookup_table_addresses_into_def lookup_total_def
      intro!: defined_obind ok_or_defined push_addresses_defined split: prod.splits)

lemma load_loop_defined:
  assumes "lookup_total le"
  shows "defined_outcome (load_addresses_loop le lookups slot loaded)"
proof (induction lookups arbitrary: slot loaded)
  case (Cons l lookups)
  show ?case
    using load_lookup_defined [OF assms, of l loaded] Cons.IH
    by (cases "load_lookup_table_addresses_into le l loaded") auto
qed simp

lemma load_addresses_for_view_defined:
  assumes "lookup_total (bank_lookup b)" and "parsed_view v"
  shows "defined_outcome (load_addresses_for_view b v)"
  using assms
  by (auto simp: load_addresses_for_view_def view_lookup_fold fold_outcome_collect load_addresses_from_ref_def
      load_loop_defined intro!: defined_obind split: TransactionVersion.split)

lemma resolve_cases:
  assumes "account_keys_spec keys_iter" and "parsed_view v" and "sanitized_constraints p limit v"
  obtains "ResolvedTransactionView_try_new keys_iter loader v resolved keys_reserved = Err AddressLookupMismatch"
    "\<not> lookups_match v resolved"
  | r static where "ResolvedTransactionView_try_new keys_iter loader v resolved keys_reserved = Ok r" "rv_view r = v"
    "static_account_keys v = Ok static" "rv_account_keys keys_iter r = Ok (keys_iter static resolved)"
    "length (keys_iter static resolved) = num_accounts v"
proof -
  obtain static where k: "static_account_keys v = Ok static" "length static = unat (num_static_account_keys v)"
    using frame_keys_exist [OF parsed_in_bounds [OF assms(2)]]
    by (metis static_account_keys_def num_static_account_keys_def)
  show thesis
  proof (cases "lookups_match v resolved")
    case False
    then show thesis using that(1) by (simp add: resolved_try_new_eq)
  next
    case True
    then have len: "length (keys_iter static resolved) = num_accounts v"
      using resolved_keys_length [OF assms(1) k(2)] by blast
    then have "length (keys_iter static resolved) \<le> 256"
      using assms(3) by (auto simp: sanitized_constraints_def split: if_splits)
    then obtain cache where "cache_is_writable keys_iter loader v resolved keys_reserved = Ok cache"
      using cache_is_writable_eq [where keys_iter = keys_iter, OF assms(2,3) k(1)] by blast
    with True k len show thesis
      by (intro that(2) [of "\<lparr>rv_view = v, rv_resolved_addresses = resolved, rv_writable_cache = cache\<rparr>" static])
        (simp_all add: resolved_try_new_eq rv_account_keys_def)
  qed
qed

section \<open>Bounds on the metadata\<close>

lemma precompile_count_bound: "unat (default_precompile_signature_count k ixs) \<le> 255 * length ixs"
proof (induction ixs)
  case (Cons pi ixs)
  obtain program_id ix where pi: "pi = (program_id, ix)" by (cases pi)
  have "unat (ucast b :: u64) \<le> 255" for b :: u8
  proof -
    have "take_bit 64 (unat b) = unat b"
      by (rule take_bit_nat_eq_self, rule order_less_trans [OF byte_less_256]) simp
    then show ?thesis using byte_less_256 [of b] by (simp add: unsigned_ucast_eq del: byte_less_256)
  qed
  then have g: "unat (get_num_signatures_in_instruction ix) \<le> 255"
    by (simp add: get_num_signatures_in_instruction_def split: list.split)
  have "unat (a + c) \<le> unat a + unat c" for a c :: u64 by (simp add: unat_word_ariths)
  from order_trans [OF this] show ?case
    using Cons.IH g by (simp add: pi)
qed simp

lemma config_caps:
  assumes "try_into_config e fs c = Ok t"
  shows "unat (tc_compute_unit_limit t) \<le> 1400000" "unat (tc_loaded_accounts_data_size_limit t) \<le> 67108864"
proof -
  have "unat (tc_compute_unit_limit t) \<le> 1400000 \<and> unat (tc_loaded_accounts_data_size_limit t) \<le> 67108864"
  proof (cases c)
    case (V1Config x)
    from v1_config_Ok [OF assms [unfolded this]] show ?thesis by (simp add: capped)
  next
    case (LegacyAndV0Config d)
    then obtain l where l: "sanitize_and_convert_to_compute_budget_limits e fs d = Ok l"
      "tc_compute_unit_limit t = limits_compute_unit_limit l" "tc_loaded_accounts_data_size_limit t = loaded_accounts_bytes l"
      using assms by (auto simp: try_into_config_def)
    from l(1) show ?thesis by (rule convert_limits_Ok) (simp add: l(2,3) capped)
  qed
  then show "unat (tc_compute_unit_limit t) \<le> 1400000" "unat (tc_loaded_accounts_data_size_limit t) \<le> 67108864"
    by simp_all
qed

lemma config_defined:
  assumes "consistent keys ixs" and "length ixs \<le> 64"
    and "\<And>d. c = LegacyAndV0Config d \<Longrightarrow> details_try_from e ixs = Ok d"
  shows "defined_outcome (try_into_config e fs c)"
proof (cases c)
  case (LegacyAndV0Config d)
  show ?thesis
  proof (cases rule: try_from_cases [OF assms(1,2), where e = e and fs = fs])
    case (1 d')
    then have "d' = d" using assms(3) [OF LegacyAndV0Config] by simp
    then show ?thesis
      using convert_limits_spec [OF 1(2,3)] LegacyAndV0Config
      by (cases "sanitize_and_convert_to_compute_budget_limits e fs d") (auto simp: try_into_config_def)
  next
    case (2 err)
    then show ?thesis using assms(3) [OF LegacyAndV0Config] by simp
  qed
qed (simp add: try_into_config_def)

section \<open>The pipeline\<close>

text \<open>What the crates outside the repository promise, and the facts of the packet buffer.\<close>

definition intake_env_ok :: "'h intake_env \<Rightarrow> bool" where
  "intake_env_ok env \<longleftrightarrow> account_keys_spec (ie_keys_iter env) \<and> v1_MAX_TRANSACTION_SIZE (ie_params env) < 65536 \<and>
     precompiles_distinct (be_ids (re_budget (ie_runtime env)))"

text \<open>A transaction that came through the pipeline, with its instructions and account keys.\<close>

definition taken_in ::
  "'h intake_env \<Rightarrow> bool \<Rightarrow> (ResolvedTransactionView, 'h) RuntimeTransaction \<Rightarrow> program_instructions \<Rightarrow> bytes list \<Rightarrow> bool" where
  "taken_in env limit tx ixs keys \<longleftrightarrow>
     sanitized_constraints (ie_params env) limit (rv_view (rt_transaction tx)) \<and>
     program_instructions_iter (rv_view (rt_transaction tx)) = Ok ixs \<and> length ixs \<le> 64 \<and>
     rv_account_keys (ie_keys_iter env) (rt_transaction tx) = Ok keys \<and>
     signature_details (rt_meta tx) = metadata_details (ie_runtime env) (rv_view (rt_transaction tx)) ixs \<and>
     unat (instruction_data_len (rt_meta tx)) = min 65535 (data_bytes ixs) \<and>
     (\<forall>fs. defined_outcome (transaction_configuration (re_budget (ie_runtime env)) fs tx))"

lemma v1_config_defined [simp]: "defined_outcome (try_into_config e fs (V1Config x))"
  by (simp add: try_into_config_def)

lemma meta_cases:
  assumes "fits_slice data" and "intake_env_ok env" and "try_new_sanitized (ie_params env) data limit = Ok v"
  obtains e where "from_sanitized_transaction_view (ie_runtime env) v hash vote = Err e"
  | meta ixs where "from_sanitized_transaction_view (ie_runtime env) v hash vote = Ok meta"
    "program_instructions_iter v = Ok ixs" "length ixs \<le> 64"
    "signature_details meta = metadata_details (ie_runtime env) v ixs"
    "unat (instruction_data_len meta) = min 65535 (data_bytes ixs)"
    "\<And>fs. defined_outcome (try_into_config (re_budget (ie_runtime env)) fs (versioned_transaction_config meta))"
proof -
  let ?e = "re_budget (ie_runtime env)"
  have "v1_MAX_TRANSACTION_SIZE (ie_params env) < 65536" "precompiles_distinct (be_ids ?e)"
    using assms(2) by (simp_all add: intake_env_ok_def)
  then obtain keys ixs h b n where m: "program_instructions_iter v = Ok ixs" "consistent keys ixs" "length ixs \<le> 64"
    "unat n = min 65535 (data_bytes ixs)"
    "from_sanitized_transaction_view (ie_runtime env) v hash vote =
       obind (case transaction_config v of
              Some c \<Rightarrow> obind (config_of_view ?e c) (\<lambda>c. Ok (V1Config c))
            | None \<Rightarrow> obind (details_try_from ?e ixs) (\<lambda>d. Ok (LegacyAndV0Config d)))
       (\<lambda>config.
         Ok \<lparr>message_hash = h, is_simple_vote_transaction = b,
             signature_details = metadata_details (ie_runtime env) v ixs,
             versioned_transaction_config = config, instruction_data_len = n\<rparr>)"
    by (rule runtime_meta_run [OF assms(1) _ assms(3)])
  note d = config_defined [OF m(2,3), where e = ?e]
  let ?meta = "\<lambda>config. \<lparr>message_hash = h, is_simple_vote_transaction = b,
    signature_details = metadata_details (ie_runtime env) v ixs,
    versioned_transaction_config = config, instruction_data_len = n\<rparr>"
  show thesis
  proof (cases "transaction_config v")
    case (Some c)
    obtain x where "config_of_view ?e c = Ok x"
      using config_of_view_ok [OF sanitized_parsed(2) [OF assms(1,3)] Some] by blast
    with Some show thesis by (intro that(2) [OF _ m(1,3), of "?meta (V1Config x)"]) (simp_all add: m d)
  next
    case None
    consider (1) dt where "details_try_from ?e ixs = Ok dt" | (2) err where "details_try_from ?e ixs = Err err"
      using try_from_cases [OF m(2,3), where e = ?e] by metis
    then show thesis
    proof cases
      case (1 dt)
      have "defined_outcome (try_into_config ?e fs (LegacyAndV0Config dt))" for fs by (rule d) (use 1 in simp)
      with 1 None show thesis by (intro that(2) [OF _ m(1,3), of "?meta (LegacyAndV0Config dt)"]) (simp_all add: m)
    next
      case (2 err)
      with None show thesis by (intro that(1)) (simp add: m)
    qed
  qed
qed

lemma resolve_and_lock_cases:
  fixes meta :: "'h CachedTransactionMeta" and lock_limit :: usize
  assumes "account_keys_spec (ie_keys_iter env)" and "lookup_total (bank_lookup b)" and "parsed_view v"
    and "sanitized_constraints p limit v"
  defines "tail \<equiv> obind (load_addresses_for_view b v) (\<lambda>(loaded_addresses, deactivation_slot).
          obind (or_err Sanitization (RuntimeTransaction_resolve (ie_keys_iter env) (ie_loader env)
                   \<lparr>rt_transaction = v, rt_meta = meta\<rparr> loaded_addresses (reserved_account_keys b))) (\<lambda>tx.
          obind (plain (rv_account_keys (ie_keys_iter env) (rt_transaction tx))) (\<lambda>keys.
          obind (or_err LockValidation (validate_account_locks keys lock_limit)) (\<lambda>_.
          Ok (tx, deactivation_slot)))))"
  obtains e where "tail = Err e"
  | r slot keys where "tail = Ok (\<lparr>rt_transaction = r, rt_meta = meta\<rparr>, slot)" "rv_view r = v"
    "rv_account_keys (ie_keys_iter env) r = Ok keys" "distinct keys" "length keys \<le> lock_limit"
proof (cases "load_addresses_for_view b v")
  case (Ok ls)
  obtain loaded slot where ls: "ls = (loaded, slot)" by (cases ls)
  note t = tail_def [unfolded Ok ls obind.simps prod.case RuntimeTransaction_resolve_def RuntimeTransaction.simps]
  show thesis
  proof (cases rule: resolve_cases [OF assms(1,3,4), of "ie_loader env" loaded "reserved_account_keys b"])
    case 1
    then show thesis by (intro that(1)) (simp add: t)
  next
    case (2 r static)
    let ?keys = "ie_keys_iter env static loaded"
    show thesis
    proof (cases "validate_account_locks ?keys lock_limit")
      case (Ok u)
      with 2 show thesis by (intro that(2) [of r slot ?keys]) (simp_all add: t validate_account_locks_Ok)
    next
      case (Err e)
      with 2 show thesis by (intro that(1)) (simp add: t)
    qed (auto simp: validate_account_locks_def split: if_splits)
  qed
next
  case (Err e)
  then show thesis by (intro that(1)) (simp add: tail_def)
qed (use load_addresses_for_view_defined [OF assms(2,3)] in simp_all)

lemma try_new_sanitized_defined:
  assumes "fits_slice data"
  shows "defined_outcome (try_new_sanitized p data limit)"
proof -
  have "defined_outcome (try_new_unsanitized data)"
    using try_new_defined [OF assms] by (auto simp: try_new_unsanitized_def intro: defined_obind)
  then show ?thesis
    by (auto simp: try_new_sanitized_def view_sanitize_def try_new_unsanitized_parsed [OF assms] sanitize_eq
        intro!: defined_obind)
qed

lemma translate_cases:
  assumes "fits_slice data" and "intake_env_ok env" and "lookup_total (bank_lookup b)"
  obtains e where "translate_to_runtime_view env data b lock_limit limit = Err e"
  | tx slot ixs keys where "translate_to_runtime_view env data b lock_limit limit = Ok (tx, slot)"
    "taken_in env limit tx ixs keys" "distinct keys" "length keys \<le> lock_limit"
proof (cases "try_new_sanitized (ie_params env) data limit")
  case (Ok v)
  note def = translate_to_runtime_view_def [of env data b lock_limit limit, unfolded Ok or_err.simps obind.simps
      RuntimeTransaction_try_new_def]
  note s = sanitized_parsed [OF assms(1) Ok]
  have spec: "account_keys_spec (ie_keys_iter env)" using assms(2) by (simp add: intake_env_ok_def)
  show thesis
  proof (cases rule: meta_cases [OF assms(1,2) Ok, where hash = Compute and vote = None])
    case (1 e)
    with Ok show thesis by (intro that(1)) (simp add: def)
  next
    case (2 meta ixs)
    note run = def [unfolded 2(1) or_err.simps obind.simps RuntimeTransaction.simps]
    show thesis
    proof (cases rule: resolve_and_lock_cases [OF spec assms(3) s(2,3), where meta = meta and lock_limit = lock_limit])
      case (1 e)
      then have "\<exists>e. translate_to_runtime_view env data b lock_limit limit = Err e" by (auto simp: run)
      then show thesis using that(1) by blast
    next
      case t: (2 r slot keys)
      show thesis
      proof (cases "vote_only_bank b \<and> \<not> is_simple_vote_transaction meta \<or> unat (total_num_accounts v) > lock_limit")
        case True
        then have "\<exists>e. translate_to_runtime_view env data b lock_limit limit = Err e" by (auto simp: run)
        then show thesis using that(1) by blast
      next
        case False
        have "taken_in env limit \<lparr>rt_transaction = r, rt_meta = meta\<rparr> ixs keys"
          using t 2 s(3) by (simp add: taken_in_def transaction_configuration_def)
        with False t show thesis by (intro that(2)) (auto simp: run)
      qed
    qed
  qed
qed (use that(1) try_new_sanitized_defined [OF assms(1), of "ie_params env" limit] in \<open>auto simp: translate_to_runtime_view_def\<close>)

lemma taken_in_costs:
  assumes "taken_in env limit tx ixs keys" and "distinct keys"
  obtains ctx where "cost_tx_of env tx = (Ok ctx :: (PacketHandlingError, _) outcome)" "tx_account_keys ctx = keys"
    "tx_is_writable ctx = is_writable (rt_transaction tx)"
    "defined_outcome (tx_transaction_configuration ctx fs)"
    "0 < num_transaction_signatures (tx_signature_details ctx)"
    "non_vote_units ctx (unat (tx_num_write_locks ctx)) (fst (execution_units ctx fs)) (snd (execution_units ctx fs)) < 2 ^ 28"
proof -
  let ?v = "rv_view (rt_transaction tx)" and ?env = "ie_runtime env"
  note t = assms(1) [unfolded taken_in_def]
  have c: "sanitized_constraints (ie_params env) limit ?v" using t by blast
  obtain ctx where ctx: "cost_tx_of env tx = (Ok ctx :: (PacketHandlingError, _) outcome)" "tx_account_keys ctx = keys"
    "tx_is_writable ctx = is_writable (rt_transaction tx)" "tx_signature_details ctx = metadata_details ?env ?v ixs"
    "tx_transaction_configuration ctx = (\<lambda>fs. transaction_configuration (re_budget ?env) fs tx)"
    "tx_num_write_locks ctx = num_requested_write_locks ?v" "tx_instruction_data_len ctx = instruction_data_len (rt_meta tx)"
    using t by (simp add: cost_tx_of_def)
  have n: "unat (ucast (num_required_signatures ?v) :: u64) = unat (num_required_signatures ?v)"
    by (simp add: unsigned_ucast_eq take_bit_nat_eq_self order_less_trans [OF byte_less_256])
  have req: "1 \<le> unat (num_required_signatures ?v)" "unat (num_required_signatures ?v) \<le> 12"
    using c by (simp_all add: sanitized_constraints_def header_ok_def)
  have p: "unat (default_precompile_signature_count k ixs) \<le> 16320" for k
    using precompile_count_bound [of k ixs] t by linarith
  have s: "signature_units (tx_signature_details ctx) \<le> 226693440"
    using req(2) p [of "secp256k1_program_id (be_ids (re_budget ?env))"] p [of "ed25519_program_id (be_ids (re_budget ?env))"]
      p [of "secp256r1_program_id (be_ids (re_budget ?env))"]
    by (simp add: ctx(4) signature_units_def metadata_details_def Let_def n)
  have l: "unat (tx_num_write_locks ctx) \<le> 256"
    using counts_exact(4) [OF c] c by (auto simp: ctx(6) sanitized_constraints_def split: if_splits)
  have d: "unat (tx_instruction_data_len ctx) div 4 \<le> 16383"
    using t by (simp add: ctx(7))
  have x: "fst (execution_units ctx fs) \<le> 1400000 \<and> snd (execution_units ctx fs) \<le> 16384"
  proof (cases "transaction_configuration (re_budget ?env) fs tx")
    case (Ok conf)
    have caps: "unat (tc_compute_unit_limit conf) \<le> 1400000" "unat (tc_loaded_accounts_data_size_limit conf) \<le> 67108864"
      using config_caps [OF Ok [unfolded transaction_configuration_def]] by blast+
    have "(unat (tc_loaded_accounts_data_size_limit conf) + 32767) div 32768 \<le> (67108864 + 32767) div 32768"
      using caps(2) by (intro div_le_mono) simp
    with caps(1) Ok show ?thesis by (simp add: execution_units_def ctx(5))
  qed (simp_all add: execution_units_def ctx(5))
  show thesis
  proof (rule that [OF ctx(1-3)])
    show "defined_outcome (tx_transaction_configuration ctx fs)" using t by (simp add: ctx(5))
    show "0 < num_transaction_signatures (tx_signature_details ctx)"
      using req(1) n by (simp add: ctx(4) metadata_details_def Let_def word_less_nat_alt)
    show "non_vote_units ctx (unat (tx_num_write_locks ctx)) (fst (execution_units ctx fs)) (snd (execution_units ctx fs)) < 2 ^ 28"
      using s l d x by (simp add: non_vote_units_def)
  qed
qed

lemma cost_in_range:
  assumes "defined_outcome (tx_transaction_configuration ctx fs)"
    and "0 < num_transaction_signatures (tx_signature_details ctx)"
    and "non_vote_units ctx (unat (tx_num_write_locks ctx)) (fst (execution_units ctx fs)) (snd (execution_units ctx fs)) < 2 ^ 28"
    and "calculate_cost ce ctx fs = Ok c"
  shows "720 \<le> unat (cost_sum c)" "unat (cost_sum c) < 2 ^ 28"
proof -
  have "1 \<le> unat (num_transaction_signatures (tx_signature_details ctx))"
    using assms(2) by (simp add: word_less_nat_alt)
  then have "720 \<le> non_vote_units ctx k x l" for k x l by (simp add: non_vote_units_def signature_units_def)
  then have "720 \<le> unat (cost_sum c) \<and> unat (cost_sum c) < 2 ^ 28"
    using assms(3,4)
    by (cases rule: calculate_cost_cases [OF assms(1), where ce = ce])
      (auto simp: unat_non_vote_cost SIMPLE_VOTE_USAGE_COST_def)
  then show "720 \<le> unat (cost_sum c)" "unat (cost_sum c) < 2 ^ 28" by simp_all
qed

lemma unat_priority:
  assumes "unat cost < 2 ^ 28"
  shows "unat (sat_mul reward MULTIPLIER div sat_add cost 1) = min (unat reward * 1000000) (2 ^ 64 - 1) div (unat cost + 1)"
  using assms by (simp add: unat_div unat_sat_mul unat_sat_add MULTIPLIER_def)

text \<open>A buffered transaction, as the scheduler relies on it.\<close>

definition well_formed_state ::
  "'h intake_env \<Rightarrow> 't bank \<Rightarrow> usize \<Rightarrow> bytes set \<Rightarrow> (ResolvedTransactionView, 'h) RuntimeTransaction TransactionState \<Rightarrow> bool" where
  "well_formed_state env b lock_limit filter_keys st \<longleftrightarrow>
     (\<exists>tx keys ctx config c. ts_transaction st = Some tx \<and>
        rv_account_keys (ie_keys_iter env) (rt_transaction tx) = Ok keys \<and>
        distinct keys \<and> length keys \<le> lock_limit \<and> set keys \<inter> filter_keys = {} \<and>
        transaction_configuration (re_budget (ie_runtime env)) (bank_feature_set b) tx = Ok config \<and>
        cost_tx_of env tx = (Ok ctx :: (PacketHandlingError, _) outcome) \<and> costable (bank_feature_set b) ctx \<and>
        calculate_cost (ie_cost env) ctx (bank_feature_set b) = Ok c \<and> well_priced c \<and>
        ts_cost st = cost_sum c \<and> 720 \<le> unat (ts_cost st) \<and> unat (ts_cost st) < 2 ^ 28 \<and>
        unat (ts_priority st) =
          min (unat (calculate_reward_for_transaction (ie_burn_percent env) b tx config) * 1000000) (2 ^ 64 - 1)
            div (unat (ts_cost st) + 1))"

lemma taken_in_state:
  assumes "taken_in env limit tx ixs keys" and "distinct keys" and "length keys \<le> lock_limit"
    and "set keys \<inter> filter_keys = {}"
    and "transaction_configuration (re_budget (ie_runtime env)) (bank_feature_set b) tx = Ok config"
  shows "\<exists>priority cost. calculate_priority_and_cost env tx config b = Ok (priority, cost) \<and>
    (\<forall>max_age. well_formed_state env b lock_limit filter_keys (TransactionState_new tx max_age priority cost))"
proof -
  obtain ctx where ctx: "cost_tx_of env tx = (Ok ctx :: (PacketHandlingError, _) outcome)" "tx_account_keys ctx = keys"
    "defined_outcome (tx_transaction_configuration ctx (bank_feature_set b))"
    "0 < num_transaction_signatures (tx_signature_details ctx)"
    "non_vote_units ctx (unat (tx_num_write_locks ctx)) (fst (execution_units ctx (bank_feature_set b)))
       (snd (execution_units ctx (bank_feature_set b))) < 2 ^ 28"
    by (rule taken_in_costs [OF assms(1,2), where fs = "bank_feature_set b"])
  then have cc: "costable (bank_feature_set b) ctx" using assms(2) by (simp add: costable_def)
  then obtain c where c: "calculate_cost (ie_cost env) ctx (bank_feature_set b) = Ok c"
    by (rule calculate_cost_costable)
  have "well_priced c"
    by (rule calculate_cost_well_priced(1) [OF ctx(3) _ ctx(4) _ c]) (use ctx(2,5) assms(2) in simp_all)
  moreover note cost_in_range [OF ctx(3-5) c]
  moreover have "rv_account_keys (ie_keys_iter env) (rt_transaction tx) = Ok keys"
    using assms(1) by (simp add: taken_in_def)
  ultimately show ?thesis
    using assms ctx(1) c cc
    by (auto simp: calculate_priority_and_cost_def Let_def well_formed_state_def TransactionState_new_def unat_priority)
qed

text \<open>
  C32: the intake of packets is safe and typed. Whatever bytes a packet holds, handling it neither panics
  nor reads out of bounds; it is refused with an error, or gives a state whose transaction has at most the
  allowed number of accounts, no account twice and no filtered account, a valid configuration, a cost
  between 720 and 2^28 units that is the exact, unsaturated cost of the cost model, and the priority that
  the reward per unit of cost gives. Such a transaction satisfies everything that admission to a block
  relies on.
\<close>

theorem packet_intake_well_formed:
  assumes "fits_slice data" and "intake_env_ok env" and "lookup_total (bank_lookup root_bank)"
  shows "case try_handle_packet env data root_bank working_bank lock_limit limit filter_keys of
      Ok st \<Rightarrow> well_formed_state env working_bank lock_limit filter_keys st
    | Err e \<Rightarrow> True
    | _ \<Rightarrow> False"
proof (cases rule: translate_cases [OF assms, of lock_limit limit])
  case (1 e)
  then show ?thesis by (simp add: try_handle_packet_def)
next
  case (2 tx slot ixs keys)
  have k: "rv_account_keys (ie_keys_iter env) (rt_transaction tx) = Ok keys"
    "defined_outcome (transaction_configuration (re_budget (ie_runtime env)) (bank_feature_set working_bank) tx)"
    using 2(2) by (simp_all add: taken_in_def)
  note run = try_handle_packet_def [of env data root_bank working_bank lock_limit limit filter_keys,
      unfolded 2(1) obind.simps prod.case k(1) plain.simps]
  show ?thesis
  proof (cases "filter_keys \<noteq> {} \<and> list_ex (\<lambda>key. key \<in> filter_keys) keys")
    case True
    then show ?thesis by (simp add: run)
  next
    case False
    then have f: "set keys \<inter> filter_keys = {}" by (auto simp: list_ex_iff)
    show ?thesis
    proof (cases "transaction_configuration (re_budget (ie_runtime env)) (bank_feature_set working_bank) tx")
      case (Ok config)
      obtain priority cost where "calculate_priority_and_cost env tx config working_bank = Ok (priority, cost)"
        "\<And>a. well_formed_state env working_bank lock_limit filter_keys (TransactionState_new tx a priority cost)"
        using taken_in_state [OF 2(2-4) f Ok] by blast
      with False Ok show ?thesis by (simp add: run Let_def)
    qed (use False k(2) in \<open>simp_all add: run\<close>)
  qed
qed

section \<open>A packet\<close>

definition sample_lookup_env :: "nat lookup_env" where
  "sample_lookup_env = \<lparr>load_with_fixed_root = (\<lambda>k. if k = replicate 32 4 then Some ([77], []) else None),
     lookup_table_program_id = [77], table_deserialize = (\<lambda>_. Some 3),
     lookup_iter = (\<lambda>_ ixs. Ok (map (\<lambda>_. Some (replicate 32 6)) ixs)), table_deactivation_slot = (\<lambda>_. 500)\<rparr>"

definition sample_bank :: "nat bank" where
  "sample_bank = \<lparr>bank_feature_set = sample_features, vote_only_bank = False, reserved_account_keys = {},
     lamports_per_signature = 5000, bank_slot = 400, bank_epoch = 2, has_slot_hashes = True,
     bank_lookup = sample_lookup_env\<rparr>"

definition sample_intake_env :: "nat intake_env" where
  "sample_intake_env = \<lparr>ie_runtime = sample_runtime_env, ie_params = sample_params, ie_keys_iter = sample_keys_iter,
     ie_loader = [4], ie_cost = sample_cost_env, ie_burn_percent = 50, estimate_last_valid_slot = (\<lambda>s. s + 512)\<rparr>"

lemma sample_intake_ok: "intake_env_ok sample_intake_env" "lookup_total (bank_lookup sample_bank)"
  by (simp_all add: intake_env_ok_def sample_intake_env_def account_keys_spec_def sample_keys_iter_def sample_params_def
      precompiles_distinct_def sample_runtime_env_def sample_env_def sample_ids_def lookup_total_def sample_bank_def
      sample_lookup_env_def)

lemma sample_static: "static_account_keys sample_view = Ok [replicate 32 1, replicate 32 2]"
  using view_of_parsed(3) [OF sample_view_parsed', of sample_wire] try_new_encoded(2) [OF sample_wire_wf sample_wire_length]
  by (simp add: sample_view_def sample_wire_def)

lemma sample_program_instructions:
  "program_instructions_iter sample_view = Ok [(replicate 32 2, \<lparr>ix_program_id_index = 1, ix_accounts = [0, 2], ix_data = [5]\<rparr>)]"
proof -
  obtain keys where "static_account_keys sample_view = Ok keys" "program_instructions_iter sample_view =
      Ok (map (\<lambda>ix. (keys ! unat (ix_program_id_index ix), ix)) (view_instructions sample_view))"
    using sanitized_program_instructions [OF sample_view_parsed' sample_view_constraints] by blast
  then show ?thesis by (auto simp: sample_static sample_view_contents sample_wire_def)
qed

lemma sample_version: "view_version sample_view = V0" "transaction_config sample_view = None"
  by (simp_all add: view_version_def frame_version_def sample_view_def frame_of_wire_def sample_wire_def
      transaction_config_def is_present_def not_applicable_def)

lemma sample_no_requests:
  "tx_requests sample_env [(replicate 32 2, \<lparr>ix_program_id_index = 1, ix_accounts = [0, 2], ix_data = [5]\<rparr>)] = []"
  by (auto simp: sample_env_def sample_ids_def dest: arg_cong [where f = length])

lemma sample_meta:
  obtains meta where "from_sanitized_transaction_view sample_runtime_env sample_view Compute None = Ok meta"
    "\<exists>t. try_into_config sample_env sample_features (versioned_transaction_config meta) = Ok t"
proof -
  let ?ixs = "[(replicate 32 2, \<lparr>ix_program_id_index = 1, ix_accounts = [0, 2], ix_data = [5]\<rparr>)]"
  have r: "re_budget sample_runtime_env = sample_env" by (simp add: sample_runtime_env_def)
  have "v1_MAX_TRANSACTION_SIZE sample_params < 65536" "precompiles_distinct (be_ids (re_budget sample_runtime_env))"
    using sample_intake_ok(1) by (simp_all add: intake_env_ok_def sample_intake_env_def)
  then obtain keys ixs h b n where m: "program_instructions_iter sample_view = Ok ixs" "consistent keys ixs" "length ixs \<le> 64"
    "from_sanitized_transaction_view sample_runtime_env sample_view Compute None =
       obind (case transaction_config sample_view of
              Some c \<Rightarrow> obind (config_of_view (re_budget sample_runtime_env) c) (\<lambda>c. Ok (V1Config c))
            | None \<Rightarrow> obind (details_try_from (re_budget sample_runtime_env) ixs) (\<lambda>d. Ok (LegacyAndV0Config d)))
       (\<lambda>config. Ok \<lparr>message_hash = h, is_simple_vote_transaction = b,
             signature_details = metadata_details sample_runtime_env sample_view ixs,
             versioned_transaction_config = config, instruction_data_len = n\<rparr>)"
    by (rule runtime_meta_run [OF sample_view_fits _ sample_sanitized])
  have i: "ixs = ?ixs" using m(1) sample_program_instructions by simp
  show thesis
  proof (cases rule: try_from_cases [OF m(2,3), where e = sample_env and fs = sample_features])
    case (1 d)
    have "budget_valid sample_env ixs" unfolding budget_valid_def i sample_no_requests by (simp add: requests_ok_def)
    then obtain l where "sanitize_and_convert_to_compute_budget_limits sample_env sample_features d = Ok l"
      using convert_limits_spec [OF 1(2,3)]
      by (cases "sanitize_and_convert_to_compute_budget_limits sample_env sample_features d") auto
    with 1(1) show thesis
      by (intro that [OF m(4) [unfolded sample_version(2) option.case r 1(1) obind.simps]])
        (simp add: try_into_config_def)
  next
    case (2 err)
    then show thesis unfolding i sample_no_requests by (simp add: first_offence_def)
  qed
qed

lemma sample_resolved:
  obtains r where "load_addresses_for_view sample_bank sample_view =
      Ok (Some \<lparr>la_writable = [replicate 32 6], la_readonly = []\<rparr>, 500)"
    "ResolvedTransactionView_try_new sample_keys_iter [4] sample_view
       (Some \<lparr>la_writable = [replicate 32 6], la_readonly = []\<rparr>) {} = Ok r"
    "rv_account_keys sample_keys_iter r = Ok [replicate 32 1, replicate 32 2, replicate 32 6]"
proof -
  let ?l = "Some \<lparr>la_writable = [replicate 32 6], la_readonly = []\<rparr>"
  have "account_keys_spec sample_keys_iter" using sample_intake_ok(1) by (simp add: intake_env_ok_def sample_intake_env_def)
  moreover have "lookups_match sample_view ?l"
    by (simp add: lookups_match_def sample_view_def sample_wire_def frame_of_wire_def num_writable_def
        num_readonly_def total_writable_lookup_accounts_def total_readonly_lookup_accounts_def)
  ultimately obtain r static where r: "ResolvedTransactionView_try_new sample_keys_iter [4] sample_view ?l {} = Ok r"
    "static_account_keys sample_view = Ok static" "rv_account_keys sample_keys_iter r = Ok (sample_keys_iter static ?l)"
    by (cases rule: resolve_cases [OF _ sample_view_parsed' sample_view_constraints, where keys_iter = sample_keys_iter
          and loader = "[4]" and resolved = ?l and keys_reserved = "{}"]) simp_all
  have "load_addresses_for_view sample_bank sample_view = Ok (?l, 500)"
    by (simp add: load_addresses_for_view_def sample_version view_lookup_fold [OF sample_view_parsed'] fold_outcome_collect
        sample_view_contents sample_wire_def load_addresses_from_ref_def sample_bank_def load_lookup_table_addresses_into_def
        sample_lookup_env_def)
  moreover have "static = [replicate 32 1, replicate 32 2]" using r(2) sample_static by simp
  ultimately show thesis using r by (intro that) (simp_all add: sample_keys_iter_def)
qed

lemma sample_handled:
  "\<exists>st. try_handle_packet sample_intake_env (tv_data sample_view) sample_bank sample_bank 64 True {[9]} = Ok st"
proof -
  let ?keys = "[replicate 32 1, replicate 32 2, replicate 32 6] :: bytes list"
  obtain meta t where m: "from_sanitized_transaction_view sample_runtime_env sample_view Compute None = Ok meta"
    "try_into_config sample_env sample_features (versioned_transaction_config meta) = Ok t"
    using sample_meta by blast
  obtain r where r: "load_addresses_for_view sample_bank sample_view =
      Ok (Some \<lparr>la_writable = [replicate 32 6], la_readonly = []\<rparr>, 500)"
    "ResolvedTransactionView_try_new sample_keys_iter [4] sample_view
       (Some \<lparr>la_writable = [replicate 32 6], la_readonly = []\<rparr>) {} = Ok r"
    "rv_account_keys sample_keys_iter r = Ok ?keys"
    by (rule sample_resolved)
  let ?tx = "\<lparr>rt_transaction = r, rt_meta = meta\<rparr>"
  have n: "unat (total_num_accounts sample_view) \<le> 64"
    using counts_exact(1) [OF sample_view_constraints] sample_counts by simp
  have d: "validate_account_locks ?keys 64 = Ok ()"
    by (simp add: validate_account_locks_Ok)
  have e: "ie_runtime sample_intake_env = sample_runtime_env" "ie_params sample_intake_env = sample_params"
    "ie_keys_iter sample_intake_env = sample_keys_iter" "ie_loader sample_intake_env = [4]"
    "reserved_account_keys sample_bank = {}" "vote_only_bank sample_bank = False"
    "re_budget sample_runtime_env = sample_env" "bank_feature_set sample_bank = sample_features"
    by (simp_all add: sample_intake_env_def sample_bank_def sample_runtime_env_def)
  have tr: "translate_to_runtime_view sample_intake_env (tv_data sample_view) sample_bank 64 True = Ok (?tx, 500)"
    using n by (simp add: translate_to_runtime_view_def e sample_sanitized RuntimeTransaction_try_new_def m(1) r d
        RuntimeTransaction_resolve_def)
  obtain ixs keys where k: "taken_in sample_intake_env True ?tx ixs keys" "distinct keys"
    by (cases rule: translate_cases [OF sample_view_fits sample_intake_ok, where lock_limit = 64 and limit = True])
      (use tr in auto)
  then have "keys = ?keys" using r(3) by (simp add: taken_in_def e)
  then have f: "set keys \<inter> {[9]} = {}" "length keys \<le> 64" by (auto dest: arg_cong [where f = length])
  have c: "transaction_configuration (re_budget (ie_runtime sample_intake_env)) (bank_feature_set sample_bank) ?tx = Ok t"
    using m(2) by (simp add: transaction_configuration_def e)
  from taken_in_state [OF k f(2,1) c] obtain pr cost where
    "calculate_priority_and_cost sample_intake_env ?tx t sample_bank = Ok (pr, cost)" by blast
  then show ?thesis
    using c f by (auto simp: try_handle_packet_def tr e r(3) Let_def dest: arg_cong [where f = length])
qed

theorem packet_intake_well_formed_witness:
  "\<exists>st. try_handle_packet sample_intake_env (tv_data sample_view) sample_bank sample_bank 64 True {[9]} = Ok st \<and>
     well_formed_state sample_intake_env sample_bank 64 {[9]} st"
  using packet_intake_well_formed [OF sample_view_fits sample_intake_ok, where working_bank = sample_bank and
      lock_limit = 64 and limit = True and filter_keys = "{[9]}"] sample_handled
  by (auto split: outcome.splits)

end
