(* ===== verification/Batch_Locks.thy ===== *)
theory Batch_Locks
  imports Compute_Budget "HOL-Library.Multiset"
begin

text \<open>
  \<open>accounts-db/src/account_locks.rs\<close>: the account locks of a bank, taken for whole batches. A lock table
  counts the read and the write locks of every key. The lemmas show that a batch is granted exactly the
  transactions that do not conflict with the locks held before it, that the table counts the held locks, and
  that unlocking in any order restores it.
\<close>

section \<open>Definitions\<close>

record 'k BankAccountLocks =
  write_locks :: "'k \<rightharpoonup> u64"
  readonly_locks :: "'k \<rightharpoonup> u64"

definition AccountLocks_default :: "'k BankAccountLocks" where
  "AccountLocks_default = \<lparr>write_locks = Map.empty, readonly_locks = Map.empty\<rparr>"

definition is_locked_readonly :: "'k BankAccountLocks \<Rightarrow> 'k \<Rightarrow> bool" where
  "is_locked_readonly t key = (case readonly_locks t key of Some n \<Rightarrow> n > 0 | None \<Rightarrow> False)"

definition is_locked_write :: "'k BankAccountLocks \<Rightarrow> 'k \<Rightarrow> bool" where
  "is_locked_write t key = (case write_locks t key of Some n \<Rightarrow> n > 0 | None \<Rightarrow> False)"

definition can_read_lock :: "'k BankAccountLocks \<Rightarrow> 'k \<Rightarrow> bool" where
  "can_read_lock t key = (\<not> is_locked_write t key)"

definition can_write_lock :: "'k BankAccountLocks \<Rightarrow> 'k \<Rightarrow> bool" where
  "can_write_lock t key = (\<not> is_locked_readonly t key \<and> \<not> is_locked_write t key)"

fun can_lock_accounts :: "'k BankAccountLocks \<Rightarrow> ('k \<times> bool) list \<Rightarrow> (TransactionError, unit) outcome" where
  "can_lock_accounts t [] = Ok ()"
| "can_lock_accounts t ((key, writable) # keys) =
     (if writable
      then (if \<not> can_write_lock t key then Err AccountInUse else can_lock_accounts t keys)
      else if \<not> can_read_lock t key then Err AccountInUse else can_lock_accounts t keys)"

text \<open>\<open>*entry.or_default() += 1\<close>, and the decrement that removes an entry at zero.\<close>

definition increment_entry :: "'k \<Rightarrow> ('k \<rightharpoonup> u64) \<Rightarrow> ('k \<rightharpoonup> u64)" where
  "increment_entry key m = m(key \<mapsto> (case m key of Some n \<Rightarrow> n | None \<Rightarrow> 0) + 1)"

definition decrement_entry :: "'k \<Rightarrow> ('k \<rightharpoonup> u64) \<Rightarrow> ('k \<rightharpoonup> u64)" where
  "decrement_entry key m =
     (case m key of
        Some n \<Rightarrow> if n - 1 = 0 then m(key := None) else m(key \<mapsto> n - 1)
      | None \<Rightarrow> m)"

definition bank_lock_readonly :: "'k \<Rightarrow> 'k BankAccountLocks \<Rightarrow> 'k BankAccountLocks" where
  "bank_lock_readonly key t = t\<lparr>readonly_locks := increment_entry key (readonly_locks t)\<rparr>"

definition bank_lock_write :: "'k \<Rightarrow> 'k BankAccountLocks \<Rightarrow> 'k BankAccountLocks" where
  "bank_lock_write key t = t\<lparr>write_locks := increment_entry key (write_locks t)\<rparr>"

definition bank_unlock_readonly :: "'k \<Rightarrow> 'k BankAccountLocks \<Rightarrow> 'k BankAccountLocks" where
  "bank_unlock_readonly key t = t\<lparr>readonly_locks := decrement_entry key (readonly_locks t)\<rparr>"

definition bank_unlock_write :: "'k \<Rightarrow> 'k BankAccountLocks \<Rightarrow> 'k BankAccountLocks" where
  "bank_unlock_write key t = t\<lparr>write_locks := decrement_entry key (write_locks t)\<rparr>"

fun bank_lock_accounts :: "('k \<times> bool) list \<Rightarrow> 'k BankAccountLocks \<Rightarrow> 'k BankAccountLocks" where
  "bank_lock_accounts [] t = t"
| "bank_lock_accounts ((key, writable) # keys) t =
     bank_lock_accounts keys (if writable then bank_lock_write key t else bank_lock_readonly key t)"

fun bank_unlock_accounts :: "('k \<times> bool) list \<Rightarrow> 'k BankAccountLocks \<Rightarrow> 'k BankAccountLocks" where
  "bank_unlock_accounts [] t = t"
| "bank_unlock_accounts ((key, writable) # keys) t =
     bank_unlock_accounts keys (if writable then bank_unlock_write key t else bank_unlock_readonly key t)"

type_synonym 'k batch_keys = "TransactionError + ('k \<times> bool) list"

text \<open>The two passes of \<open>try_lock_transaction_batch\<close>: all checks come before the first lock.\<close>

definition available_keys :: "'k BankAccountLocks \<Rightarrow> 'k batch_keys \<Rightarrow> 'k batch_keys" where
  "available_keys t validated =
     (case validated of
        Inr keys \<Rightarrow> (case can_lock_accounts t keys of Err e \<Rightarrow> Inl e | _ \<Rightarrow> Inr keys)
      | Inl e \<Rightarrow> Inl e)"

fun lock_available :: "'k batch_keys list \<Rightarrow> 'k BankAccountLocks \<Rightarrow> (TransactionError + unit) list \<times> 'k BankAccountLocks" where
  "lock_available [] t = ([], t)"
| "lock_available (Inl e # rest) t = (case lock_available rest t of (results, t') \<Rightarrow> (Inl e # results, t'))"
| "lock_available (Inr keys # rest) t =
     (case lock_available rest (bank_lock_accounts keys t) of (results, t') \<Rightarrow> (Inr () # results, t'))"

definition try_lock_transaction_batch ::
  "'k batch_keys list \<Rightarrow> 'k BankAccountLocks \<Rightarrow> (TransactionError + unit) list \<times> 'k BankAccountLocks" where
  "try_lock_transaction_batch validated_batch_keys t =
     lock_available (map (available_keys t) validated_batch_keys) t"

section \<open>The locks that a table counts\<close>

definition entry_count :: "('k \<rightharpoonup> u64) \<Rightarrow> 'k \<Rightarrow> nat" where
  "entry_count m key = (case m key of Some n \<Rightarrow> unat n | None \<Rightarrow> 0)"

definition locks_held :: "'k BankAccountLocks \<Rightarrow> 'k \<times> bool \<Rightarrow> nat" where
  "locks_held t = (\<lambda>(key, writable). entry_count (if writable then write_locks t else readonly_locks t) key)"

definition no_zero_entries :: "'k BankAccountLocks \<Rightarrow> bool" where
  "no_zero_entries t \<longleftrightarrow> (\<forall>key. write_locks t key \<noteq> Some 0 \<and> readonly_locks t key \<noteq> Some 0)"

definition conflicting :: "'k BankAccountLocks \<Rightarrow> 'k \<times> bool \<Rightarrow> bool" where
  "conflicting t = (\<lambda>(key, writable). locks_held t (key, True) > 0 \<or> writable \<and> locks_held t (key, False) > 0)"

lemma locked_iff:
  "is_locked_write t key \<longleftrightarrow> locks_held t (key, True) > 0"
  "is_locked_readonly t key \<longleftrightarrow> locks_held t (key, False) > 0"
  by (simp_all add: is_locked_write_def is_locked_readonly_def locks_held_def entry_count_def word_less_nat_alt
      split: option.split)

lemma can_lock_accounts_eq:
  "can_lock_accounts t keys = (if list_ex (conflicting t) keys then Err AccountInUse else Ok ())"
  by (induction t keys rule: can_lock_accounts.induct)
    (auto simp: can_write_lock_def can_read_lock_def locked_iff conflicting_def)

lemma entry_count_increment:
  assumes "entry_count m key + 1 < 2 ^ 64"
  shows "entry_count (increment_entry key m) k = entry_count m k + (if k = key then 1 else 0)"
  using assms by (auto simp: entry_count_def increment_entry_def unat_word_ariths split: option.splits)

lemma entry_count_decrement:
  assumes "\<And>k. m k \<noteq> Some 0" and "entry_count m key > 0"
  shows "entry_count (decrement_entry key m) k = entry_count m k - (if k = key then 1 else 0)"
proof -
  obtain c where c: "m key = Some c" using assms(2) by (cases "m key") (auto simp: entry_count_def)
  have "unat (c - 1) = unat c - 1" using assms(1) [of key] c by (simp add: unat_minus_one)
  then show ?thesis using c by (auto simp: entry_count_def decrement_entry_def unat_eq_zero)
qed

lemma increment_nonzero:
  assumes "m k \<noteq> Some 0" and "entry_count m key + 1 < 2 ^ 64"
  shows "increment_entry key m k \<noteq> Some 0"
  using assms entry_count_increment [OF assms(2), of key]
  by (auto simp: increment_entry_def entry_count_def split: if_splits)

lemma decrement_nonzero: "m k \<noteq> Some 0 \<Longrightarrow> decrement_entry key m k \<noteq> Some 0"
  by (auto simp: decrement_entry_def split: option.splits if_splits)

lemma lock_accounts_held:
  assumes "no_zero_entries t" and "\<And>l. locks_held t l + count_list keys l < 2 ^ 64"
  shows "no_zero_entries (bank_lock_accounts keys t)"
    and "locks_held (bank_lock_accounts keys t) l = locks_held t l + count_list keys l"
proof -
  have "no_zero_entries (bank_lock_accounts keys t) \<and>
      (\<forall>l. locks_held (bank_lock_accounts keys t) l = locks_held t l + count_list keys l)"
    using assms
  proof (induction keys arbitrary: t)
    case (Cons kw keys)
    obtain key w where kw: "kw = (key, w)" by (cases kw)
    let ?t = "if w then bank_lock_write key t else bank_lock_readonly key t"
    have room: "entry_count (if w then write_locks t else readonly_locks t) key + 1 < 2 ^ 64"
      using Cons.prems(2) [of kw] by (simp add: kw locks_held_def)
    have h: "locks_held ?t l = locks_held t l + (if l = kw then 1 else 0)" for l
      using entry_count_increment [OF room]
      by (cases l) (auto simp: kw locks_held_def bank_lock_write_def bank_lock_readonly_def)
    have "no_zero_entries ?t"
      using Cons.prems(1) increment_nonzero [OF _ room]
      by (cases w) (simp_all add: no_zero_entries_def bank_lock_write_def bank_lock_readonly_def)
    moreover have "locks_held ?t l + count_list keys l < 2 ^ 64" for l
      using Cons.prems(2) [of l] h [of l] by (auto split: if_splits)
    ultimately show ?case
      using Cons.IH [of ?t] h by (auto simp: kw)
  qed simp
  then show "no_zero_entries (bank_lock_accounts keys t)"
    "locks_held (bank_lock_accounts keys t) l = locks_held t l + count_list keys l" by blast+
qed

lemma unlock_accounts_held:
  assumes "no_zero_entries t" and "\<And>l. count_list keys l \<le> locks_held t l"
  shows "no_zero_entries (bank_unlock_accounts keys t)"
    and "locks_held (bank_unlock_accounts keys t) l = locks_held t l - count_list keys l"
proof -
  have "no_zero_entries (bank_unlock_accounts keys t) \<and>
      (\<forall>l. locks_held (bank_unlock_accounts keys t) l = locks_held t l - count_list keys l)"
    using assms
  proof (induction keys arbitrary: t)
    case (Cons kw keys)
    obtain key w where kw: "kw = (key, w)" by (cases kw)
    define t1 where "t1 = (if w then bank_unlock_write key t else bank_unlock_readonly key t)"
    let ?m = "if w then write_locks t else readonly_locks t"
    have pos: "entry_count ?m key > 0" using Cons.prems(2) [of kw] by (simp add: kw locks_held_def)
    have nz: "?m k \<noteq> Some 0" for k using Cons.prems(1) by (simp add: no_zero_entries_def)
    have h: "locks_held t1 l = locks_held t l - (if l = kw then 1 else 0)" for l
      using entry_count_decrement [OF nz pos, of "fst l"]
      by (cases l; cases w) (auto simp: t1_def kw locks_held_def bank_unlock_write_def bank_unlock_readonly_def)
    have "no_zero_entries t1"
      using Cons.prems(1)
      by (cases w) (simp_all add: t1_def no_zero_entries_def bank_unlock_write_def bank_unlock_readonly_def decrement_nonzero)
    moreover have "count_list keys l \<le> locks_held t1 l" for l
      using Cons.prems(2) [of l] unfolding h by (simp split: if_splits)
    ultimately have IH: "no_zero_entries (bank_unlock_accounts keys t1)"
      "\<forall>l. locks_held (bank_unlock_accounts keys t1) l = locks_held t1 l - count_list keys l"
      using Cons.IH [of t1] by blast+
    have e: "bank_unlock_accounts (kw # keys) t = bank_unlock_accounts keys t1" by (simp add: kw t1_def)
    show ?case
    proof (intro conjI allI)
      fix l
      show "locks_held (bank_unlock_accounts (kw # keys) t) l = locks_held t l - count_list (kw # keys) l"
        unfolding e IH(2) [rule_format] h by simp
    qed (unfold e, rule IH(1))
  qed simp
  then show "no_zero_entries (bank_unlock_accounts keys t)"
    "locks_held (bank_unlock_accounts keys t) l = locks_held t l - count_list keys l" by blast+
qed

lemma entry_count_inj:
  assumes "\<And>k. m k \<noteq> Some 0" and "\<And>k. m' k \<noteq> Some 0" and "\<And>k. entry_count m k = entry_count m' k"
  shows "m = m'"
proof
  fix k
  show "m k = m' k"
    using assms(1) [of k] assms(2) [of k] assms(3) [of k]
    by (cases "m k"; cases "m' k") (simp_all add: entry_count_def unat_eq_zero, simp only: word_unat_eq_iff)
qed

lemma locks_held_inj:
  assumes "no_zero_entries t" and "no_zero_entries t'" and "\<And>l. locks_held t l = locks_held t' l"
  shows "t = t'"
proof -
  have "write_locks t = write_locks t'"
    using assms(1,2) assms(3) [of "(k, True)" for k] by (intro entry_count_inj) (auto simp: no_zero_entries_def locks_held_def)
  moreover have "readonly_locks t = readonly_locks t'"
    using assms(1,2) assms(3) [of "(k, False)" for k] by (intro entry_count_inj) (auto simp: no_zero_entries_def locks_held_def)
  ultimately show ?thesis by simp
qed

section \<open>Batches\<close>

definition batch_verdict :: "'k BankAccountLocks \<Rightarrow> 'k batch_keys \<Rightarrow> TransactionError + unit" where
  "batch_verdict t v =
     (case v of Inl e \<Rightarrow> Inl e | Inr keys \<Rightarrow> if list_ex (conflicting t) keys then Inl AccountInUse else Inr ())"

definition granted_keys :: "'k BankAccountLocks \<Rightarrow> 'k batch_keys list \<Rightarrow> ('k \<times> bool) list" where
  "granted_keys t batch =
     concat (map (\<lambda>v. case v of Inl _ \<Rightarrow> [] | Inr keys \<Rightarrow> if list_ex (conflicting t) keys then [] else keys) batch)"

lemma bank_lock_accounts_append: "bank_lock_accounts (xs @ ys) t = bank_lock_accounts ys (bank_lock_accounts xs t)"
  by (induction xs t rule: bank_lock_accounts.induct) simp_all

lemma lock_available_eq:
  "lock_available vs t =
     (map (\<lambda>v. case v of Inl e \<Rightarrow> Inl e | Inr _ \<Rightarrow> Inr ()) vs,
      bank_lock_accounts (concat (map (\<lambda>v. case v of Inl _ \<Rightarrow> [] | Inr keys \<Rightarrow> keys) vs)) t)"
  by (induction vs t rule: lock_available.induct) (simp_all add: bank_lock_accounts_append)

lemma try_lock_batch_eq:
  "try_lock_transaction_batch batch t = (map (batch_verdict t) batch, bank_lock_accounts (granted_keys t batch) t)"
proof -
  have "(case available_keys t v of Inl e \<Rightarrow> Inl e | Inr _ \<Rightarrow> Inr ()) = batch_verdict t v"
    "(case available_keys t v of Inl _ \<Rightarrow> [] | Inr keys \<Rightarrow> keys) =
       (case v of Inl _ \<Rightarrow> [] | Inr keys \<Rightarrow> if list_ex (conflicting t) keys then [] else keys)" for v
    by (cases v; simp add: available_keys_def can_lock_accounts_eq batch_verdict_def)+
  then show ?thesis by (simp add: try_lock_transaction_batch_def lock_available_eq granted_keys_def o_def)
qed

text \<open>
  C33: a batch is granted exactly the transactions that conflict with no lock held before the batch: none of
  their accounts is write locked, and none of the accounts they write is read locked. Earlier errors are
  kept, conflicting transactions fail with \<open>AccountInUse\<close>, conflicts within the batch are no reason to refuse,
  and afterwards the table counts the locks held before and those of the granted transactions.
\<close>

theorem try_lock_batch_exact:
  assumes "no_zero_entries t" and "\<forall>l. locks_held t l + count_list (granted_keys t batch) l < 2 ^ 64"
  shows "\<exists>t'. try_lock_transaction_batch batch t = (map (batch_verdict t) batch, t') \<and> no_zero_entries t' \<and>
    (\<forall>l. locks_held t' l = locks_held t l + count_list (granted_keys t batch) l)"
  using lock_accounts_held [OF assms(1), of "granted_keys t batch"] assms(2) by (auto simp: try_lock_batch_eq)

definition sample_lock_table :: "nat BankAccountLocks" where
  "sample_lock_table = \<lparr>write_locks = [10 \<mapsto> 1], readonly_locks = [20 \<mapsto> 2]\<rparr>"

definition sample_lock_batch :: "nat batch_keys list" where
  "sample_lock_batch = [Inr [(20, False), (30, True)], Inr [(30, True), (20, False)], Inr [(20, True)],
     Inr [(10, False)], Inl AccountLoadedTwice]"

lemma sample_lock_facts:
  "no_zero_entries sample_lock_table"
  "locks_held sample_lock_table l = (if l = (10, True) then 1 else if l = (20, False) then 2 else 0)"
  by (simp_all add: no_zero_entries_def sample_lock_table_def locks_held_def entry_count_def split: prod.split)

lemma sample_granted: "granted_keys sample_lock_table sample_lock_batch = [(20, False), (30, True), (30, True), (20, False)]"
  by (simp add: granted_keys_def sample_lock_batch_def conflicting_def sample_lock_facts)

theorem try_lock_batch_exact_witness:
  "\<exists>t'. try_lock_transaction_batch sample_lock_batch sample_lock_table =
      ([Inr (), Inr (), Inl AccountInUse, Inl AccountInUse, Inl AccountLoadedTwice], t') \<and>
    locks_held t' (30, True) = 2 \<and> locks_held t' (20, False) = 4 \<and> locks_held t' (10, True) = 1"
proof -
  let ?b = sample_lock_batch and ?t = sample_lock_table
  have v: "map (batch_verdict ?t) ?b = [Inr (), Inr (), Inl AccountInUse, Inl AccountInUse, Inl AccountLoadedTwice]"
    by (simp add: sample_lock_batch_def batch_verdict_def conflicting_def sample_lock_facts(2))
  have "\<forall>l. locks_held ?t l + count_list (granted_keys ?t ?b) l < 2 ^ 64"
    by (simp add: sample_lock_facts sample_granted)
  from try_lock_batch_exact [OF sample_lock_facts(1) this] obtain t' where
    t': "try_lock_transaction_batch ?b ?t = (map (batch_verdict ?t) ?b, t')"
    and h: "\<forall>l. locks_held t' l = locks_held ?t l + count_list (granted_keys ?t ?b) l"
    by (elim exE conjE)
  have "locks_held t' (30, True) = 2" unfolding h [rule_format] sample_granted by (simp add: sample_lock_facts)
  moreover have "locks_held t' (20, False) = 4" unfolding h [rule_format] sample_granted by (simp add: sample_lock_facts)
  moreover have "locks_held t' (10, True) = 1" unfolding h [rule_format] sample_granted by (simp add: sample_lock_facts)
  ultimately show ?thesis using t' [unfolded v] by (intro exI [of _ t'] conjI)
qed

text \<open>
  C34: unlocking the granted transactions, in whatever order, restores the table, with no entry left over and
  no foreign lock released.
\<close>

theorem unlock_batch_restores:
  assumes "no_zero_entries t" and "\<forall>l. locks_held t l + count_list (granted_keys t batch) l < 2 ^ 64"
    and "mset keys = mset (granted_keys t batch)"
  shows "bank_unlock_accounts keys (snd (try_lock_transaction_batch batch t)) = t"
proof -
  let ?t = "bank_lock_accounts (granted_keys t batch) t"
  have "locks_held t l + count_list (granted_keys t batch) l < 2 ^ 64" for l using assms(2) by blast
  note held = lock_accounts_held [OF assms(1) this]
  have c: "count_list keys l = count_list (granted_keys t batch) l" for l
    using assms(3) by (metis count_mset)
  have "count_list keys l \<le> locks_held ?t l" for l by (simp add: held(2) c)
  note u = unlock_accounts_held [OF held(1) this]
  have "bank_unlock_accounts keys ?t = t"
    by (rule locks_held_inj [OF u(1) assms(1)]) (simp add: u(2) held(2) c)
  then show ?thesis by (simp add: try_lock_batch_eq)
qed

theorem unlock_batch_restores_witness:
  "bank_unlock_accounts [(30, True), (20, False), (20, False), (30, True)]
     (snd (try_lock_transaction_batch sample_lock_batch sample_lock_table)) = sample_lock_table"
  by (rule unlock_batch_restores) (simp_all add: sample_lock_facts sample_granted)

end
