(* ===== verification/Thread_Set.thy ===== *)
theory Thread_Set
  imports Prelude
begin

text \<open>
  \<open>ThreadSet\<close> of \<open>scheduling-utils/src/thread_aware_account_locks.rs\<close>: a set of at most 64 thread
  identifiers in one machine word. The locale \<open>id_set\<close> is what the lock table relies on; it is
  interpreted on the bit operations of the sources. A shift takes its amount modulo 64, as the release
  build does.
\<close>

section \<open>Definitions\<close>

type_synonym ThreadId = nat
type_synonym ThreadSet = u64

definition MAX_THREADS :: usize where "MAX_THREADS = 64"

definition as_flag :: "ThreadId \<Rightarrow> u64" where
  "as_flag thread_id = push_bit (thread_id mod 64) 1"

definition ts_none :: ThreadSet where "ts_none = 0"

definition ts_any :: "usize \<Rightarrow> ThreadSet" where
  "ts_any num_threads = (if num_threads = MAX_THREADS then - 1 else as_flag num_threads - 1)"

definition ts_only :: "ThreadId \<Rightarrow> ThreadSet" where "ts_only thread_id = as_flag thread_id"

definition ts_num_threads :: "ThreadSet \<Rightarrow> nat" where "ts_num_threads s = count_ones s"

definition only_one_contained :: "ThreadSet \<Rightarrow> ThreadId option" where
  "only_one_contained s = (if ts_num_threads s = 1 then Some (trailing_zeros s) else None)"

definition ts_is_empty :: "ThreadSet \<Rightarrow> bool" where "ts_is_empty s \<longleftrightarrow> s = ts_none"

definition ts_contains :: "ThreadSet \<Rightarrow> ThreadId \<Rightarrow> bool" where
  "ts_contains s thread_id \<longleftrightarrow> s AND as_flag thread_id \<noteq> 0"

definition ts_insert :: "ThreadSet \<Rightarrow> ThreadId \<Rightarrow> ThreadSet" where
  "ts_insert s thread_id = s OR as_flag thread_id"

definition ts_remove :: "ThreadSet \<Rightarrow> ThreadId \<Rightarrow> ThreadSet" where
  "ts_remove s thread_id = s AND NOT (as_flag thread_id)"

definition ts_bitand :: "ThreadSet \<Rightarrow> ThreadSet \<Rightarrow> ThreadSet" where "ts_bitand s t = s AND t"

definition ts_sub :: "ThreadSet \<Rightarrow> ThreadSet \<Rightarrow> ThreadSet" where "ts_sub s t = s AND NOT t"

definition ThreadSetIterator_next :: "u64 \<Rightarrow> ThreadId option \<times> u64" where
  "ThreadSetIterator_next s =
     (if s = 0 then (None, s) else (Some (trailing_zeros s), s AND (s - 1)))"

section \<open>The abstract set\<close>

definition threads :: "ThreadSet \<Rightarrow> ThreadId set" where
  "threads s = {t. bit s t}"

lemma threads_lt: "t \<in> threads s \<Longrightarrow> t < 64"
  by (auto simp: threads_def dest: bit_imp_le_length)

lemma finite_threads [simp]: "finite (threads s)"
  by (simp add: threads_def)

lemma threads_eq_iff: "threads s = threads t \<longleftrightarrow> s = t"
  by (auto simp: threads_def set_eq_iff intro: bit_eqI)

lemma bit_as_flag: "bit (as_flag t) n \<longleftrightarrow> n = t mod 64"
  by (auto simp: as_flag_def push_bit_eq_mult bit_exp_iff)

lemma bit_not_u64: "bit (NOT s) n \<longleftrightarrow> n < 64 \<and> \<not> bit s n" for s :: u64
  by (simp add: bit_not_iff)

lemma threads_as_flag: "threads (as_flag t) = {t mod 64}"
  by (simp add: threads_def bit_as_flag)

lemma threads_none [simp]: "threads ts_none = {}"
  by (simp add: threads_def ts_none_def)

lemma threads_only: "t < 64 \<Longrightarrow> threads (ts_only t) = {t}"
  by (simp add: ts_only_def threads_as_flag)

lemma threads_any: "n \<le> 64 \<Longrightarrow> threads (ts_any n) = {..<n}"
proof (cases "n = 64")
  case False
  assume "n \<le> 64"
  with False have "as_flag n - 1 = mask n"
    by (simp add: as_flag_def mask_eq_exp_minus_1 push_bit_eq_mult)
  with False \<open>n \<le> 64\<close> show ?thesis
    by (auto simp: threads_def ts_any_def MAX_THREADS_def bit_mask_iff)
qed (auto simp: threads_def ts_any_def MAX_THREADS_def)

lemma threads_insert: "t < 64 \<Longrightarrow> threads (ts_insert s t) = insert t (threads s)"
  by (auto simp: threads_def ts_insert_def bit_or_iff bit_as_flag)

lemma threads_remove: "t < 64 \<Longrightarrow> threads (ts_remove s t) = threads s - {t}"
  using threads_lt [of _ s]
  by (auto simp: threads_def ts_remove_def bit_and_iff bit_not_u64 bit_as_flag)

lemma threads_bitand: "threads (ts_bitand s t) = threads s \<inter> threads t"
  by (auto simp: threads_def ts_bitand_def bit_and_iff)

lemma threads_sub: "threads (ts_sub s t) = threads s - threads t"
  using threads_lt [of _ s] by (auto simp: threads_def ts_sub_def bit_and_iff bit_not_u64)

lemma ts_is_empty_iff: "ts_is_empty s \<longleftrightarrow> threads s = {}"
  using threads_eq_iff [of s ts_none] by (simp add: ts_is_empty_def)

lemma ts_contains_iff: "t < 64 \<Longrightarrow> ts_contains s t \<longleftrightarrow> t \<in> threads s"
proof -
  assume t: "t < 64"
  have "ts_contains s t \<longleftrightarrow> threads (ts_bitand s (as_flag t)) \<noteq> {}"
    using ts_is_empty_iff [of "ts_bitand s (as_flag t)"]
    by (simp add: ts_contains_def ts_is_empty_def ts_none_def ts_bitand_def)
  then show ?thesis using t by (auto simp: threads_bitand threads_as_flag)
qed

lemma ts_num_threads_card: "ts_num_threads s = card (threads s)"
  by (simp add: ts_num_threads_def count_ones_card threads_def)

lemma trailing_zeros_Min: "threads s \<noteq> {} \<Longrightarrow> trailing_zeros s = Min (threads s)"
proof (rule trailing_zeros_first)
  assume ne: "threads s \<noteq> {}"
  then have "Min (threads s) \<in> threads s" by (intro Min_in) auto
  then show "bit s (Min (threads s))" by (simp add: threads_def)
  fix i assume "i < Min (threads s)"
  then have "i \<notin> threads s" using ne by auto
  then show "\<not> bit s i" by (simp add: threads_def)
qed

lemma only_one_contained_iff: "only_one_contained s = Some t \<longleftrightarrow> threads s = {t}"
proof
  assume "only_one_contained s = Some t"
  then have "card (threads s) = 1" "trailing_zeros s = t"
    by (auto simp: only_one_contained_def ts_num_threads_card split: if_splits)
  moreover from this obtain u where "threads s = {u}" by (metis card_1_singletonE)
  ultimately show "threads s = {t}" using trailing_zeros_Min [of s] by simp
next
  assume "threads s = {t}"
  then show "only_one_contained s = Some t"
    using trailing_zeros_Min [of s] by (simp add: only_one_contained_def ts_num_threads_card)
qed

lemma only_one_contained_None: "only_one_contained s = None \<longleftrightarrow> (\<nexists>t. threads s = {t})"
  using only_one_contained_iff [of s] by (cases "only_one_contained s") auto

section \<open>The interface of a set of identifiers\<close>

locale id_set =
  fixes elems :: "'s \<Rightarrow> nat set"
    and limit :: nat
    and none :: 's
    and any :: "nat \<Rightarrow> 's"
    and only :: "nat \<Rightarrow> 's"
    and ins :: "'s \<Rightarrow> nat \<Rightarrow> 's"
    and rem :: "'s \<Rightarrow> nat \<Rightarrow> 's"
    and inter :: "'s \<Rightarrow> 's \<Rightarrow> 's"
    and contains :: "'s \<Rightarrow> nat \<Rightarrow> bool"
    and empty :: "'s \<Rightarrow> bool"
    and single :: "'s \<Rightarrow> nat option"
  assumes elems_limit: "t \<in> elems s \<Longrightarrow> t < limit"
    and elems_inj: "elems s = elems s' \<Longrightarrow> s = s'"
    and elems_none: "elems none = {}"
    and elems_any: "n \<le> limit \<Longrightarrow> elems (any n) = {..<n}"
    and elems_only: "t < limit \<Longrightarrow> elems (only t) = {t}"
    and elems_ins: "t < limit \<Longrightarrow> elems (ins s t) = insert t (elems s)"
    and elems_rem: "t < limit \<Longrightarrow> elems (rem s t) = elems s - {t}"
    and elems_inter: "elems (inter s s') = elems s \<inter> elems s'"
    and contains_iff: "t < limit \<Longrightarrow> contains s t \<longleftrightarrow> t \<in> elems s"
    and empty_iff: "empty s \<longleftrightarrow> elems s = {}"
    and single_iff: "single s = Some t \<longleftrightarrow> elems s = {t}"
begin

lemma single_only: "t < limit \<Longrightarrow> single (only t) = Some t"
  by (simp add: single_iff elems_only)

lemma ins_only: "t < limit \<Longrightarrow> ins (only t) t = only t"
  by (intro elems_inj) (simp add: elems_ins elems_only)

lemma rem_ins: "t < limit \<Longrightarrow> t \<notin> elems s \<Longrightarrow> rem (ins s t) t = s"
  by (intro elems_inj) (simp add: elems_ins elems_rem)

lemma ins_absorb: "t \<in> elems s \<Longrightarrow> ins s t = s"
  by (intro elems_inj) (use elems_limit in \<open>auto simp: elems_ins\<close>)

lemma single_ins: "t < limit \<Longrightarrow> single s = Some t \<Longrightarrow> single (ins s t) = Some t"
  by (simp add: single_iff elems_ins)

lemma single_or_none:
  "elems (case single s of Some t \<Rightarrow> only t | None \<Rightarrow> none) = (if \<exists>t. elems s = {t} then elems s else {})"
proof (cases "single s")
  case None
  then have "\<nexists>t. elems s = {t}" by (metis single_iff option.distinct(1))
  with None show ?thesis by (simp add: elems_none)
next
  case (Some t)
  then have "elems s = {t}" by (simp add: single_iff)
  with Some show ?thesis using elems_limit [of t s] by (simp add: elems_only)
qed

end

interpretation ts: id_set threads 64 ts_none ts_any ts_only ts_insert ts_remove ts_bitand ts_contains
  ts_is_empty only_one_contained
  by unfold_locales
    (simp_all add: threads_lt threads_eq_iff threads_any threads_only threads_insert threads_remove
      threads_bitand ts_contains_iff ts_is_empty_iff only_one_contained_iff)

section \<open>Iteration\<close>

lemma clear_lowest:
  assumes "s \<noteq> (0 :: u64)"
  shows "threads (s AND (s - 1)) = threads s - {trailing_zeros s}"
proof -
  have ne: "threads s \<noteq> {}" using assms ts_is_empty_iff [of s] by (simp add: ts_is_empty_def ts_none_def)
  define k where "k = trailing_zeros s"
  have k: "k \<in> threads s" "\<And>i. i < k \<Longrightarrow> i \<notin> threads s"
    using trailing_zeros_Min [OF ne] ne Min_in [of "threads s"] by (auto simp: k_def)
  have k64: "k < 64" using k(1) by (rule threads_lt)
  define r where "r = s AND NOT (mask (Suc k))"
  have br: "bit r n \<longleftrightarrow> bit s n \<and> k < n" for n
    using bit_imp_le_length [of s n]
    by (auto simp: r_def bit_and_iff bit_not_iff bit_mask_iff simp del: mask_Suc_exp)
  have bk: "bit (2 ^ k :: u64) n \<longleftrightarrow> n = k" for n
    using k64 by (auto simp: bit_exp_iff)
  have "s = r OR 2 ^ k"
  proof (rule bit_eqI)
    fix n
    consider "n < k" | "n = k" | "k < n" by linarith
    then show "bit s n \<longleftrightarrow> bit (r OR 2 ^ k) n"
      unfolding bit_or_iff br bk using k by cases (simp_all add: threads_def)
  qed
  also have "\<dots> = r + 2 ^ k"
    by (rule disjunctive_add [symmetric]) (simp add: br bk)
  finally have s: "s = r + 2 ^ k" .
  have "s - 1 = r + mask k"
    by (subst s) (simp add: mask_eq_exp_minus_1)
  also have "\<dots> = r OR mask k"
    by (rule disjunctive_add) (auto simp: br bit_mask_iff)
  finally have m: "bit (s - 1) n \<longleftrightarrow> bit r n \<or> n < k" for n
    using k64 by (auto simp: bit_or_iff bit_mask_iff)
  show ?thesis
  proof (rule set_eqI)
    fix n
    consider "n < k" | "n = k" | "k < n" by linarith
    then show "n \<in> threads (s AND (s - 1)) \<longleftrightarrow> n \<in> threads s - {trailing_zeros s}"
      unfolding k_def [symmetric]
      by cases (use k(2) [of n] in \<open>simp_all add: threads_def bit_and_iff m br\<close>)
  qed
qed

function iterate_threads :: "u64 \<Rightarrow> ThreadId list" where
  "iterate_threads s =
     (case ThreadSetIterator_next s of (None, _) \<Rightarrow> [] | (Some t, s') \<Rightarrow> t # iterate_threads s')"
  by pat_completeness auto
termination
proof (relation "measure (\<lambda>s. card (threads s))")
  fix s x y x2
  assume "(x, y) = ThreadSetIterator_next s" and "x = Some x2"
  then have s: "s \<noteq> 0" and y: "y = s AND (s - 1)"
    by (auto simp: ThreadSetIterator_next_def split: if_splits)
  have "threads s \<noteq> {}" using s ts_is_empty_iff [of s] by (simp add: ts_is_empty_def ts_none_def)
  then have "trailing_zeros s \<in> threads s"
    unfolding trailing_zeros_Min [OF \<open>threads s \<noteq> {}\<close>] by (intro Min_in) simp_all
  then have "card (threads y) < card (threads s)"
    unfolding y clear_lowest [OF s] by (intro card_Diff1_less) simp_all
  then show "(y, s) \<in> measure (\<lambda>s. card (threads s))" by simp
qed simp

declare iterate_threads.simps [simp del]

text \<open>
  C15: iterating a thread set ends and yields exactly its members, each once, in increasing order:
  clearing the lowest bit with \<open>s & (s - 1)\<close> removes exactly the thread just returned.
\<close>

theorem iterate_threads_sorted_members: "iterate_threads s = sorted_list_of_set (threads s)"
proof (induction s rule: iterate_threads.induct)
  case (1 s)
  show ?case
  proof (cases "s = 0")
    case True
    then show ?thesis
      by (simp add: iterate_threads.simps [of 0] ThreadSetIterator_next_def threads_def)
  next
    case False
    then have ne: "threads s \<noteq> {}" using ts_is_empty_iff [of s] by (simp add: ts_is_empty_def ts_none_def)
    have "iterate_threads s = trailing_zeros s # iterate_threads (s AND (s - 1))"
      using False by (subst iterate_threads.simps) (simp add: ThreadSetIterator_next_def)
    also have "iterate_threads (s AND (s - 1)) = sorted_list_of_set (threads s - {trailing_zeros s})"
      using 1 [of "Some (trailing_zeros s)" "s AND (s - 1)"] False clear_lowest [OF False]
      by (simp add: ThreadSetIterator_next_def)
    finally show ?thesis
      using ne by (simp add: trailing_zeros_Min sorted_list_of_set_nonempty)
  qed
qed

end
