(* ===== verification/Account_Locks.thy ===== *)
theory Account_Locks
  imports Thread_Set "HOL-Library.Multiset"
begin

text \<open>
  \<open>ThreadAwareAccountLocks\<close> of \<open>scheduling-utils/src/thread_aware_account_locks.rs\<close>: the lock table of
  the transaction scheduler. Each assertion and \<open>unreachable!\<close> of the sources is a \<open>Panic\<close> of the
  model. \<open>held\<close> abstracts a table to the number of locks of each kind that each thread holds on each
  account; the lemmas show that the operations implement counting up and down on that abstraction and
  keep the table well formed, so that a write lock always excludes the other threads.
\<close>

section \<open>Definitions\<close>

record AccountWriteLocks =
  wl_thread_id :: ThreadId
  wl_lock_count :: u32

record AccountReadLocks =
  rl_thread_set :: ThreadSet
  rl_lock_counts :: "u32 list"

record AccountLocks =
  write_locks :: "AccountWriteLocks option"
  read_locks :: "AccountReadLocks option"

datatype TryLockError = MultipleConflicts | ThreadNotAllowed

record 'k ThreadAwareAccountLocks =
  num_threads :: usize
  locks :: "'k \<rightharpoonup> AccountLocks"

type_synonym ('k, 'a) lock_op = "('k ThreadAwareAccountLocks, TryLockError, 'a) op"

definition default_locks :: AccountLocks where
  "default_locks = \<lparr>write_locks = None, read_locks = None\<rparr>"

definition locks_new :: "usize \<Rightarrow> (TryLockError, 'k ThreadAwareAccountLocks) outcome" where
  "locks_new n =
     obind (assert_or_panic (n > 0)) (\<lambda>_.
     obind (assert_or_panic (n \<le> MAX_THREADS)) (\<lambda>_.
       Ok \<lparr>num_threads = n, locks = Map.empty\<rparr>))"

definition schedulable_threads ::
  "bool \<Rightarrow> 'k ThreadAwareAccountLocks \<Rightarrow> 'k \<Rightarrow> (TryLockError, ThreadSet) outcome" where
  "schedulable_threads WRITE s account =
     (case locks s account of
        None \<Rightarrow> Ok (ts_any (num_threads s))
      | Some l \<Rightarrow>
          (case (write_locks l, read_locks l) of
             (None, Some r) \<Rightarrow>
               if WRITE
               then Ok (case only_one_contained (rl_thread_set r) of
                          Some t \<Rightarrow> ts_only t | None \<Rightarrow> ts_none)
               else Ok (ts_any (num_threads s))
           | (Some w, None) \<Rightarrow> Ok (ts_only (wl_thread_id w))
           | (Some w, Some r) \<Rightarrow>
               obind (assert_or_panic (only_one_contained (rl_thread_set r) = Some (wl_thread_id w)))
                 (\<lambda>_. Ok (rl_thread_set r))
           | (None, None) \<Rightarrow> Panic))"

text \<open>One of the two loops of \<open>accounts_schedulable_threads\<close>.\<close>

fun narrow :: "('k \<Rightarrow> (TryLockError, ThreadSet) outcome) \<Rightarrow> 'k list \<Rightarrow> ThreadSet \<Rightarrow>
    (TryLockError, ThreadSet option) outcome" where
  "narrow sched [] ts = Ok (Some ts)"
| "narrow sched (account # accounts) ts =
     obind (sched account) (\<lambda>t.
     let ts = ts_bitand ts t in
     if ts_is_empty ts then Ok None else narrow sched accounts ts)"

definition accounts_schedulable_threads ::
  "'k ThreadAwareAccountLocks \<Rightarrow> 'k list \<Rightarrow> 'k list \<Rightarrow> (TryLockError, ThreadSet option) outcome" where
  "accounts_schedulable_threads s write_accounts read_accounts =
     obind (narrow (schedulable_threads True s) write_accounts (ts_any (num_threads s))) (\<lambda>r.
     case r of None \<Rightarrow> Ok None
     | Some ts \<Rightarrow> narrow (schedulable_threads False s) read_accounts ts)"

definition write_lock_account :: "'k \<Rightarrow> ThreadId \<Rightarrow> ('k, unit) lock_op" where
  "write_lock_account account thread_id s =
     (let l = (case locks s account of Some l \<Rightarrow> l | None \<Rightarrow> default_locks);
          s0 = s\<lparr>locks := (locks s)(account \<mapsto> l)\<rparr> in
      case obind (case read_locks l of
                    Some r \<Rightarrow> assert_or_panic (only_one_contained (rl_thread_set r) = Some thread_id)
                  | None \<Rightarrow> Ok ()) (\<lambda>_.
           case write_locks l of
             Some w \<Rightarrow> obind (assert_or_panic (wl_thread_id w = thread_id))
               (\<lambda>_. Ok (w\<lparr>wl_lock_count := wl_lock_count w + 1\<rparr>))
           | None \<Rightarrow> Ok \<lparr>wl_thread_id = thread_id, wl_lock_count = 1\<rparr>) of
        Ok w \<Rightarrow> (Ok (), s\<lparr>locks := (locks s)(account \<mapsto> l\<lparr>write_locks := Some w\<rparr>)\<rparr>)
      | Err e \<Rightarrow> (Err e, s0) | Panic \<Rightarrow> (Panic, s0) | UB \<Rightarrow> (UB, s0))"

definition write_unlock_account :: "'k \<Rightarrow> ThreadId \<Rightarrow> ('k, unit) lock_op" where
  "write_unlock_account account thread_id s =
     (case locks s account of
        None \<Rightarrow> (Panic, s)
      | Some l \<Rightarrow>
          (case write_locks l of
             None \<Rightarrow> (Panic, s)
           | Some w \<Rightarrow>
               if wl_thread_id w \<noteq> thread_id then (Panic, s)
               else (let w' = w\<lparr>wl_lock_count := wl_lock_count w - 1\<rparr> in
                 if wl_lock_count w' = 0
                 then (Ok (), s\<lparr>locks :=
                   if read_locks l = None then (locks s)(account := None)
                   else (locks s)(account \<mapsto> l\<lparr>write_locks := None\<rparr>)\<rparr>)
                 else (Ok (), s\<lparr>locks := (locks s)(account \<mapsto> l\<lparr>write_locks := Some w'\<rparr>)\<rparr>))))"

definition read_lock_account :: "'k \<Rightarrow> ThreadId \<Rightarrow> ('k, unit) lock_op" where
  "read_lock_account account thread_id s =
     (let l = (case locks s account of Some l \<Rightarrow> l | None \<Rightarrow> default_locks);
          s0 = s\<lparr>locks := (locks s)(account \<mapsto> l)\<rparr> in
      case obind (case write_locks l of
                    Some w \<Rightarrow> assert_or_panic (wl_thread_id w = thread_id)
                  | None \<Rightarrow> Ok ()) (\<lambda>_.
           case read_locks l of
             Some r \<Rightarrow>
               obind (index_or_panic (rl_lock_counts r) thread_id) (\<lambda>c.
               Ok \<lparr>rl_thread_set = ts_insert (rl_thread_set r) thread_id,
                   rl_lock_counts = (rl_lock_counts r)[thread_id := c + 1]\<rparr>)
           | None \<Rightarrow>
               obind (index_or_panic (replicate MAX_THREADS 0 :: u32 list) thread_id) (\<lambda>_.
               Ok \<lparr>rl_thread_set = ts_only thread_id,
                   rl_lock_counts = (replicate MAX_THREADS 0)[thread_id := 1]\<rparr>)) of
        Ok r \<Rightarrow> (Ok (), s\<lparr>locks := (locks s)(account \<mapsto> l\<lparr>read_locks := Some r\<rparr>)\<rparr>)
      | Err e \<Rightarrow> (Err e, s0) | Panic \<Rightarrow> (Panic, s0) | UB \<Rightarrow> (UB, s0))"

definition read_unlock_account :: "'k \<Rightarrow> ThreadId \<Rightarrow> ('k, unit) lock_op" where
  "read_unlock_account account thread_id s =
     (case locks s account of
        None \<Rightarrow> (Panic, s)
      | Some l \<Rightarrow>
          (case read_locks l of
             None \<Rightarrow> (Panic, s)
           | Some r \<Rightarrow>
               if \<not> ts_contains (rl_thread_set r) thread_id then (Panic, s)
               else if \<not> thread_id < length (rl_lock_counts r) then (Panic, s)
               else (let c = rl_lock_counts r ! thread_id - 1;
                         r' = r\<lparr>rl_lock_counts := (rl_lock_counts r)[thread_id := c]\<rparr> in
                 if c = 0
                 then (let r'' = r'\<lparr>rl_thread_set := ts_remove (rl_thread_set r) thread_id\<rparr> in
                   if ts_is_empty (rl_thread_set r'')
                   then (Ok (), s\<lparr>locks :=
                     if write_locks l = None then (locks s)(account := None)
                     else (locks s)(account \<mapsto> l\<lparr>read_locks := None\<rparr>)\<rparr>)
                   else (Ok (), s\<lparr>locks := (locks s)(account \<mapsto> l\<lparr>read_locks := Some r''\<rparr>)\<rparr>))
                 else (Ok (), s\<lparr>locks := (locks s)(account \<mapsto> l\<lparr>read_locks := Some r'\<rparr>)\<rparr>))))"

fun for_each :: "('k \<Rightarrow> ('s, 'e, unit) op) \<Rightarrow> 'k list \<Rightarrow> ('s, 'e, unit) op" where
  "for_each f [] = sreturn ()"
| "for_each f (account # accounts) = sbind (f account) (\<lambda>_. for_each f accounts)"

definition lock_accounts :: "'k list \<Rightarrow> 'k list \<Rightarrow> ThreadId \<Rightarrow> ('k, unit) lock_op" where
  "lock_accounts write_accounts read_accounts thread_id =
     sbind sget (\<lambda>s. sbind (slift (assert_or_panic (thread_id < num_threads s))) (\<lambda>_.
     sbind (for_each (\<lambda>a. write_lock_account a thread_id) write_accounts) (\<lambda>_.
       for_each (\<lambda>a. read_lock_account a thread_id) read_accounts)))"

definition unlock_accounts :: "'k list \<Rightarrow> 'k list \<Rightarrow> ThreadId \<Rightarrow> ('k, unit) lock_op" where
  "unlock_accounts write_accounts read_accounts thread_id =
     sbind (for_each (\<lambda>a. write_unlock_account a thread_id) write_accounts) (\<lambda>_.
       for_each (\<lambda>a. read_unlock_account a thread_id) read_accounts)"

definition try_lock_accounts ::
  "'k list \<Rightarrow> 'k list \<Rightarrow> ThreadSet \<Rightarrow> (ThreadSet \<Rightarrow> ThreadId) \<Rightarrow> ('k, ThreadId) lock_op" where
  "try_lock_accounts write_accounts read_accounts allowed_threads thread_selector =
     sbind sget (\<lambda>s.
     sbind (slift (accounts_schedulable_threads s write_accounts read_accounts)) (\<lambda>r.
     sbind (slift (ok_or MultipleConflicts r)) (\<lambda>schedulable.
     let schedulable = ts_bitand schedulable allowed_threads in
     if ts_is_empty schedulable then sfail ThreadNotAllowed
     else (let thread_id = thread_selector schedulable in
       sbind (lock_accounts write_accounts read_accounts thread_id) (\<lambda>_. sreturn thread_id)))))"

section \<open>The abstract table: locks held by kind, account and thread\<close>

type_synonym 'k lock = "bool \<times> 'k \<times> ThreadId"

definition entry_held :: "AccountLocks \<Rightarrow> bool \<Rightarrow> ThreadId \<Rightarrow> nat" where
  "entry_held l w t =
     (if w then (case write_locks l of
                   Some wl \<Rightarrow> if wl_thread_id wl = t then unat (wl_lock_count wl) else 0
                 | None \<Rightarrow> 0)
      else (case read_locks l of
              Some rl \<Rightarrow> if t < 64 then unat (rl_lock_counts rl ! t) else 0
            | None \<Rightarrow> 0))"

definition held :: "'k ThreadAwareAccountLocks \<Rightarrow> 'k lock \<Rightarrow> nat" where
  "held s = (\<lambda>(w, a, t). case locks s a of None \<Rightarrow> 0 | Some l \<Rightarrow> entry_held l w t)"

definition wf_entry :: "nat \<Rightarrow> AccountLocks \<Rightarrow> bool" where
  "wf_entry n l \<longleftrightarrow>
     (write_locks l \<noteq> None \<or> read_locks l \<noteq> None) \<and>
     (\<forall>w. write_locks l = Some w \<longrightarrow> wl_thread_id w < n \<and> wl_lock_count w \<noteq> 0) \<and>
     (\<forall>r. read_locks l = Some r \<longrightarrow>
        length (rl_lock_counts r) = 64 \<and>
        threads (rl_thread_set r) = {t. t < 64 \<and> rl_lock_counts r ! t \<noteq> 0} \<and>
        threads (rl_thread_set r) \<noteq> {} \<and> threads (rl_thread_set r) \<subseteq> {..<n} \<and>
        (\<forall>w. write_locks l = Some w \<longrightarrow> threads (rl_thread_set r) = {wl_thread_id w}))"

definition locks_inv :: "nat \<Rightarrow> 'k ThreadAwareAccountLocks \<Rightarrow> bool" where
  "locks_inv n s \<longleftrightarrow>
     num_threads s = n \<and> 0 < n \<and> n \<le> 64 \<and> (\<forall>a l. locks s a = Some l \<longrightarrow> wf_entry n l)"

text \<open>
  The abstract scheduling rule: a thread may take a read lock when no other thread has a write lock,
  and a write lock when no other thread has any lock.
\<close>

definition may_lock :: "bool \<Rightarrow> ('k lock \<Rightarrow> nat) \<Rightarrow> 'k \<Rightarrow> ThreadId \<Rightarrow> bool" where
  "may_lock w h a t \<longleftrightarrow> (\<forall>u. u \<noteq> t \<longrightarrow> h (True, a, u) = 0 \<and> (w \<longrightarrow> h (False, a, u) = 0))"

lemma held_None: "locks s a = None \<Longrightarrow> held s (w, a, t) = 0"
  by (simp add: held_def)

lemma u32_pos: "c \<noteq> 0 \<Longrightarrow> 0 < unat c" for c :: u32
  by (simp add: unat_gt_0)

lemma sole_members:
  fixes X :: "nat set"
  assumes "X \<noteq> {}" and "X \<subseteq> {..<n}"
  shows "(if \<exists>t. X = {t} then X else {}) = {t. t < n \<and> (\<forall>u. u \<noteq> t \<longrightarrow> u \<notin> X)}"
proof (cases "\<exists>t. X = {t}")
  case False
  have "X = {t}" if "\<forall>u. u \<noteq> t \<longrightarrow> u \<notin> X" for t
  proof -
    from that have "X \<subseteq> {t}" by blast
    with assms(1) show ?thesis by blast
  qed
  with False show ?thesis by auto
next
  case True
  then obtain t where "X = {t}" by blast
  moreover have "(\<forall>v. v \<noteq> u \<longrightarrow> v \<noteq> t) \<longleftrightarrow> u = t" for u by metis
  moreover have "t < n" using assms(2) \<open>X = {t}\<close> by simp
  ultimately show ?thesis by auto
qed

lemma others_differ:
  "(\<forall>u. u \<noteq> x \<longrightarrow> u \<noteq> c \<and> (P \<longrightarrow> Q u)) \<longleftrightarrow> x = c \<and> (\<forall>u. u \<noteq> c \<longrightarrow> P \<longrightarrow> Q u)"
  by metis

lemma wf_entry_read:
  assumes "wf_entry n l" and "read_locks l = Some r"
  shows "length (rl_lock_counts r) = 64"
    and "threads (rl_thread_set r) = {t. t < 64 \<and> rl_lock_counts r ! t \<noteq> 0}"
    and "threads (rl_thread_set r) \<noteq> {}" and "threads (rl_thread_set r) \<subseteq> {..<n}"
    and "write_locks l = Some w \<Longrightarrow> threads (rl_thread_set r) = {wl_thread_id w}"
  using assms unfolding wf_entry_def by blast+

lemma wf_entry_set_write:
  assumes "read_locks l = None \<or> wf_entry n l" and "t < n" and "c \<noteq> 0"
    and "\<And>r. read_locks l = Some r \<Longrightarrow> threads (rl_thread_set r) = {t}"
  shows "wf_entry n (l\<lparr>write_locks := Some \<lparr>wl_thread_id = t, wl_lock_count = c\<rparr>\<rparr>)"
proof (cases "read_locks l")
  case (Some r)
  with assms(1) have "wf_entry n l" by simp
  note r = wf_entry_read(1,2) [OF this Some] and t = assms(4) [OF Some]
  show ?thesis
    unfolding wf_entry_def
    by (simp add: Some r(1) t assms(2,3) r(2) [unfolded t, symmetric] del: Collect_empty_eq)
qed (use assms(2,3) in \<open>simp add: wf_entry_def\<close>)

lemma wf_entry_clear_write:
  assumes "wf_entry n l" and "read_locks l = Some r"
  shows "wf_entry n (l\<lparr>write_locks := None\<rparr>)"
  using wf_entry_read [OF assms] unfolding wf_entry_def by (simp add: assms(2))

lemma schedulable_threads_eq:
  assumes "locks_inv n s"
  shows "\<exists>ts. schedulable_threads w s a = Ok ts \<and> threads ts = {t. t < n \<and> may_lock w (held s) a t}"
proof (cases "locks s a")
  case None
  then show ?thesis
    using assms by (auto simp: schedulable_threads_def locks_inv_def threads_any may_lock_def held_None)
next
  case (Some l)
  then have wf: "wf_entry n l" and n: "n \<le> 64" "num_threads s = n" using assms by (auto simp: locks_inv_def)
  show ?thesis
  proof (cases "write_locks l")
    case None
    then obtain r where r: "read_locks l = Some r" using wf by (auto simp: wf_entry_def)
    let ?X = "threads (rl_thread_set r)"
    have th: "?X = {t. t < 64 \<and> rl_lock_counts r ! t \<noteq> 0}" "?X \<noteq> {}" "?X \<subseteq> {..<n}"
      using wf_entry_read [OF wf r] by blast+
    have h: "held s (True, a, u) = 0" "held s (False, a, u) = 0 \<longleftrightarrow> u \<notin> ?X" for u
      using Some None r th(1) by (simp_all add: held_def entry_held_def unat_eq_zero)
    show ?thesis
    proof (cases w)
      case True
      have "threads (case only_one_contained (rl_thread_set r) of Some t \<Rightarrow> ts_only t | None \<Rightarrow> ts_none) =
          {t. t < n \<and> may_lock w (held s) a t}"
        unfolding ts.single_or_none sole_members [OF th(2,3)] using h True by (simp add: may_lock_def)
      then show ?thesis using Some None r True by (simp add: schedulable_threads_def)
    next
      case False
      then show ?thesis
        using Some None r h(1) n by (simp add: schedulable_threads_def may_lock_def threads_any lessThan_def)
    qed
  next
    case (Some wl)
    note ent = \<open>locks s a = Some l\<close>
    have wl: "wl_thread_id wl < n" "wl_lock_count wl \<noteq> 0" using wf Some by (simp_all add: wf_entry_def)
    have h: "held s (True, a, u) = 0 \<longleftrightarrow> u \<noteq> wl_thread_id wl" for u
      using ent Some wl(2) by (auto simp: held_def entry_held_def unat_eq_zero)
    show ?thesis
    proof (cases "read_locks l")
      case None
      have "held s (False, a, u) = 0" for u using ent None by (simp add: held_def entry_held_def)
      then have "{t. t < n \<and> may_lock w (held s) a t} = {wl_thread_id wl}"
        unfolding may_lock_def h others_differ using wl(1) by auto
      then show ?thesis using ent Some None wl(1) n by (simp add: schedulable_threads_def threads_only)
    next
      case (Some r)
      have th: "threads (rl_thread_set r) = {wl_thread_id wl}"
        "threads (rl_thread_set r) = {t. t < 64 \<and> rl_lock_counts r ! t \<noteq> 0}"
        using wf_entry_read [OF wf Some] \<open>write_locks l = Some wl\<close> by blast+
      have "held s (False, a, u) = 0 \<longleftrightarrow> u \<notin> threads (rl_thread_set r)" for u
        using ent Some th(2) by (simp add: held_def entry_held_def unat_eq_zero)
      then have "{t. t < n \<and> may_lock w (held s) a t} = {wl_thread_id wl}"
        unfolding may_lock_def h others_differ using wl(1) th(1) by auto
      then show ?thesis
        using ent Some \<open>write_locks l = Some wl\<close> th(1)
        by (simp add: schedulable_threads_def only_one_contained_iff)
    qed
  qed
qed

section \<open>Locking and unlocking one account\<close>

lemma held_update:
  "held (s\<lparr>locks := (locks s)(a \<mapsto> l)\<rparr>) =
     (\<lambda>(w, b, t). if b = a then entry_held l w t else held s (w, b, t))"
  by (auto simp: held_def)

lemma held_delete:
  "held (s\<lparr>locks := (locks s)(a := None)\<rparr>) = (\<lambda>(w, b, t). if b = a then 0 else held s (w, b, t))"
  by (auto simp: held_def)

lemma locks_inv_update:
  "locks_inv n s \<Longrightarrow> wf_entry n l \<Longrightarrow> locks_inv n (s\<lparr>locks := (locks s)(a \<mapsto> l)\<rparr>)"
  by (auto simp: locks_inv_def)

lemma locks_inv_delete: "locks_inv n s \<Longrightarrow> locks_inv n (s\<lparr>locks := (locks s)(a := None)\<rparr>)"
  by (auto simp: locks_inv_def)

lemma locks_inv_entry: "locks_inv n s \<Longrightarrow> locks s a = Some l \<Longrightarrow> wf_entry n l"
  by (simp add: locks_inv_def)

lemma held_entry: "locks s a = Some l \<Longrightarrow> held s (w, a, t) = entry_held l w t"
  by (simp add: held_def)

lemma may_lock_writer:
  assumes "locks_inv n s" and "may_lock w (held s) a t"
    and "locks s a = Some l" and "write_locks l = Some wl"
  shows "wl_thread_id wl = t"
proof (rule ccontr)
  assume "wl_thread_id wl \<noteq> t"
  then have "held s (True, a, wl_thread_id wl) = 0" using assms(2) by (simp add: may_lock_def)
  moreover have "wl_lock_count wl \<noteq> 0"
    using locks_inv_entry [OF assms(1,3)] assms(4) by (simp add: wf_entry_def)
  ultimately show False using assms(3,4) by (simp add: held_entry entry_held_def unat_eq_zero)
qed

lemma may_lock_readers:
  assumes "locks_inv n s" and "may_lock True (held s) a t"
    and "locks s a = Some l" and "read_locks l = Some r"
  shows "threads (rl_thread_set r) = {t}"
proof -
  note wf = wf_entry_read [OF locks_inv_entry [OF assms(1,3)] assms(4)]
  have "u = t" if "u \<in> threads (rl_thread_set r)" for u
  proof (rule ccontr)
    assume "u \<noteq> t"
    then have "held s (False, a, u) = 0" using assms(2) by (simp add: may_lock_def)
    with that wf(2) show False using assms(3,4) by (simp add: held_entry entry_held_def unat_eq_zero)
  qed
  with wf(3) show ?thesis by blast
qed

lemma u32_inc: "unat c + 1 < 2 ^ 32 \<Longrightarrow> unat (c + 1) = unat c + 1 \<and> c + 1 \<noteq> 0" for c :: u32
proof -
  assume c: "unat c + 1 < 2 ^ 32"
  then have "unat (c + 1) = unat c + 1" by (simp add: unat_word_ariths)
  moreover from this have "c + 1 \<noteq> 0" by (metis add_eq_0_iff_both_eq_0 one_neq_zero unat_0)
  ultimately show ?thesis by simp
qed

lemma wl_count_update:
  "(w :: AccountWriteLocks)\<lparr>wl_lock_count := c\<rparr> = \<lparr>wl_thread_id = wl_thread_id w, wl_lock_count = c\<rparr>"
  by (cases w) simp

lemma write_lock_ok:
  assumes "locks_inv n s" and "t < n" and "may_lock True (held s) a t"
    and "held s (True, a, t) + 1 < 2 ^ 32"
  shows "\<exists>s'. write_lock_account a t s = (Ok (), s') \<and> locks_inv n s' \<and>
    held s' = (held s)((True, a, t) := held s (True, a, t) + 1)"
proof -
  let ?l = "case locks s a of Some l \<Rightarrow> l | None \<Rightarrow> default_locks"
  let ?c = "case write_locks ?l of Some w \<Rightarrow> wl_lock_count w | None \<Rightarrow> 0"
  let ?l' = "?l\<lparr>write_locks := Some \<lparr>wl_thread_id = t, wl_lock_count = ?c + 1\<rparr>\<rparr>"
  have w: "wl_thread_id wl = t" if "write_locks ?l = Some wl" for wl
    using may_lock_writer [OF assms(1,3)] that
    by (cases "locks s a") (simp_all add: default_locks_def)
  have r: "threads (rl_thread_set r) = {t}" if "read_locks ?l = Some r" for r
    using may_lock_readers [OF assms(1,3)] that
    by (cases "locks s a") (simp_all add: default_locks_def)
  have h: "held s (w, a, u) = entry_held ?l w u" for w u
    by (cases "locks s a") (simp_all add: held_def default_locks_def entry_held_def)
  have "unat ?c + 1 < 2 ^ 32" using assms(4) w by (simp add: h entry_held_def split: option.splits)
  then have c: "unat (?c + 1) = unat ?c + 1" "?c + 1 \<noteq> 0" using u32_inc by blast+
  have "write_lock_account a t s = (Ok (), s\<lparr>locks := (locks s)(a \<mapsto> ?l')\<rparr>)"
    using w r
    by (auto simp: write_lock_account_def Let_def only_one_contained_iff wl_count_update split: option.split)
  moreover have "wf_entry n ?l'"
    using c(2) r assms(2) locks_inv_entry [OF assms(1), of a]
    by (intro wf_entry_set_write) (auto simp: default_locks_def split: option.split)
  moreover have "held (s\<lparr>locks := (locks s)(a \<mapsto> ?l')\<rparr>) = (held s)((True, a, t) := held s (True, a, t) + 1)"
    unfolding held_update
    using c(1) w by (auto simp: fun_eq_iff h entry_held_def split: option.split)
  ultimately show ?thesis using locks_inv_update [OF assms(1)] by blast
qed

lemma write_unlock_ok:
  assumes "locks_inv n s" and "0 < held s (True, a, t)"
  shows "\<exists>s'. write_unlock_account a t s = (Ok (), s') \<and> locks_inv n s' \<and>
    held s' = (held s)((True, a, t) := held s (True, a, t) - 1)"
proof -
  obtain l wl where l: "locks s a = Some l" "write_locks l = Some wl" "wl_thread_id wl = t"
    using assms(2) by (auto simp: held_def entry_held_def split: option.splits if_splits)
  note wf = locks_inv_entry [OF assms(1) l(1)]
  have h: "held s (w, a, u) = entry_held l w u" for w u using l(1) by (simp add: held_entry)
  have "wl_lock_count wl \<noteq> 0" using wf l(2) by (simp add: wf_entry_def)
  then have c: "unat (wl_lock_count wl - 1) = unat (wl_lock_count wl) - 1"
    by (simp add: unat_sub word_le_nat_alt unat_gt_0 Suc_le_eq)
  have wl: "wl_thread_id wl < n" using wf l(2) by (simp add: wf_entry_def)
  show ?thesis
  proof (cases "wl_lock_count wl - 1 = 0")
    case True
    then have one: "unat (wl_lock_count wl) = 1"
      using c \<open>wl_lock_count wl \<noteq> 0\<close> by (simp add: unat_eq_zero)
    show ?thesis
    proof (cases "read_locks l")
      case None
      have "write_unlock_account a t s = (Ok (), s\<lparr>locks := (locks s)(a := None)\<rparr>)"
        using l True None by (simp add: write_unlock_account_def Let_def)
      moreover have "held (s\<lparr>locks := (locks s)(a := None)\<rparr>) =
          (held s)((True, a, t) := held s (True, a, t) - 1)"
        unfolding held_delete using one l(2,3) None by (auto simp: fun_eq_iff h entry_held_def)
      ultimately show ?thesis using locks_inv_delete [OF assms(1)] by blast
    next
      case (Some r)
      let ?l' = "l\<lparr>write_locks := None\<rparr>"
      have "write_unlock_account a t s = (Ok (), s\<lparr>locks := (locks s)(a \<mapsto> ?l')\<rparr>)"
        using l True Some by (simp add: write_unlock_account_def Let_def)
      moreover have "wf_entry n ?l'"
        by (rule wf_entry_clear_write [OF wf Some])
      moreover have "held (s\<lparr>locks := (locks s)(a \<mapsto> ?l')\<rparr>) =
          (held s)((True, a, t) := held s (True, a, t) - 1)"
        unfolding held_update using one l(2,3) by (auto simp: fun_eq_iff h entry_held_def)
      ultimately show ?thesis using locks_inv_update [OF assms(1)] by blast
    qed
  next
    case False
    let ?l' = "l\<lparr>write_locks := Some (wl\<lparr>wl_lock_count := wl_lock_count wl - 1\<rparr>)\<rparr>"
    have "write_unlock_account a t s = (Ok (), s\<lparr>locks := (locks s)(a \<mapsto> ?l')\<rparr>)"
      using l False by (simp add: write_unlock_account_def Let_def)
    moreover have "wf_entry n ?l'"
      unfolding wl_count_update using wf wl False wf_entry_read(5) [OF wf _ l(2)]
      by (intro wf_entry_set_write) blast+
    moreover have "held (s\<lparr>locks := (locks s)(a \<mapsto> ?l')\<rparr>) =
        (held s)((True, a, t) := held s (True, a, t) - 1)"
      unfolding held_update using c l(2,3) by (auto simp: fun_eq_iff h entry_held_def)
    ultimately show ?thesis using locks_inv_update [OF assms(1)] by blast
  qed
qed

lemma wf_entry_write:
  "wf_entry n l \<Longrightarrow> write_locks l = Some w \<Longrightarrow> wl_thread_id w < n \<and> wl_lock_count w \<noteq> 0"
  unfolding wf_entry_def by blast

lemma wf_entry_set_read:
  assumes "\<And>w. write_locks l = Some w \<Longrightarrow> wl_thread_id w < n \<and> wl_lock_count w \<noteq> 0 \<and> threads S = {wl_thread_id w}"
    and "length cs = 64" and "threads S = {u. u < 64 \<and> cs ! u \<noteq> 0}"
    and "threads S \<noteq> {}" and "threads S \<subseteq> {..<n}"
  shows "wf_entry n (l\<lparr>read_locks := Some \<lparr>rl_thread_set = S, rl_lock_counts = cs\<rparr>\<rparr>)"
  unfolding wf_entry_def using assms(1,2,4,5) by (simp add: assms(3) [symmetric] del: Collect_empty_eq)

lemma wf_entry_clear_read:
  "wf_entry n l \<Longrightarrow> write_locks l = Some w \<Longrightarrow> wf_entry n (l\<lparr>read_locks := None\<rparr>)"
  unfolding wf_entry_def by simp

lemma nonzero_update:
  assumes "length cs = 64" and "t < 64"
  shows "{u. u < 64 \<and> cs[t := c] ! u \<noteq> 0} =
    (if c = 0 then {u. u < 64 \<and> cs ! u \<noteq> 0} - {t} else insert t {u. u < 64 \<and> cs ! u \<noteq> 0})"
  using assms by (auto simp: nth_list_update)

lemma entry_held_set_read:
  assumes "length cs = 64" and "t < 64"
  shows "entry_held (l\<lparr>read_locks := Some \<lparr>rl_thread_set = S, rl_lock_counts = cs[t := c]\<rparr>\<rparr>) w u =
    (if w then entry_held l w u else if u = t then unat c else if u < 64 then unat (cs ! u) else 0)"
  using assms by (auto simp: entry_held_def nth_list_update)

lemma read_lock_entry:
  fixes s :: "'k ThreadAwareAccountLocks" and a :: 'k
  defines "l \<equiv> case locks s a of Some l \<Rightarrow> l | None \<Rightarrow> default_locks"
  assumes "locks_inv n s" and "t < n"
    and w: "\<And>wl. write_locks l = Some wl \<Longrightarrow> wl_thread_id wl = t"
  shows "\<exists>S cs. read_lock_account a t s =
        (Ok (), s\<lparr>locks := (locks s)(a \<mapsto> l\<lparr>read_locks :=
          Some \<lparr>rl_thread_set = S, rl_lock_counts = cs[t := cs ! t + 1]\<rparr>\<rparr>)\<rparr>) \<and>
      length cs = 64 \<and> threads S = insert t {u. u < 64 \<and> cs ! u \<noteq> 0} \<and>
      {u. u < 64 \<and> cs ! u \<noteq> 0} \<subseteq> {..<n} \<and>
      (\<forall>wl. write_locks l = Some wl \<longrightarrow> {u. u < 64 \<and> cs ! u \<noteq> 0} \<subseteq> {t}) \<and>
      (\<forall>u. u < 64 \<longrightarrow> entry_held l False u = unat (cs ! u))"
proof -
  have n: "n \<le> 64" "t < 64" using assms(2,3) by (auto simp: locks_inv_def)
  show ?thesis
  proof (cases "read_locks l")
    case None
    let ?cs = "replicate 64 0 :: u32 list"
    have "read_lock_account a t s = (Ok (), s\<lparr>locks := (locks s)(a \<mapsto> l\<lparr>read_locks :=
        Some \<lparr>rl_thread_set = ts_only t, rl_lock_counts = ?cs[t := ?cs ! t + 1]\<rparr>\<rparr>)\<rparr>)"
      using None w n by (auto simp: l_def [symmetric] read_lock_account_def Let_def index_or_panic_def MAX_THREADS_def
          split: option.split)
    then show ?thesis
      by (intro exI [of _ "ts_only t"] exI [of _ ?cs] conjI) (use n None in \<open>auto simp: threads_only entry_held_def\<close>)
  next
    case (Some r)
    then have wf: "wf_entry n l"
      using locks_inv_entry [OF assms(2), of a] by (cases "locks s a") (simp_all add: l_def default_locks_def)
    note rd = wf_entry_read [OF wf Some]
    have "read_lock_account a t s = (Ok (), s\<lparr>locks := (locks s)(a \<mapsto> l\<lparr>read_locks :=
        Some \<lparr>rl_thread_set = ts_insert (rl_thread_set r) t,
              rl_lock_counts = (rl_lock_counts r)[t := rl_lock_counts r ! t + 1]\<rparr>\<rparr>)\<rparr>)"
      using Some w n rd(1) by (auto simp: l_def [symmetric] read_lock_account_def Let_def index_or_panic_def split: option.split)
    then show ?thesis
    proof (intro exI [of _ "ts_insert (rl_thread_set r) t"] exI [of _ "rl_lock_counts r"] conjI allI impI)
      show "length (rl_lock_counts r) = 64" by (rule rd(1))
      show "threads (ts_insert (rl_thread_set r) t) = insert t {u. u < 64 \<and> rl_lock_counts r ! u \<noteq> 0}"
        using threads_insert [OF n(2)] rd(2) by simp
      show "{u. u < 64 \<and> rl_lock_counts r ! u \<noteq> 0} \<subseteq> {..<n}" using rd(2,4) by simp
      show "{u. u < 64 \<and> rl_lock_counts r ! u \<noteq> 0} \<subseteq> {t}" if "write_locks l = Some wl" for wl
        using rd(2) rd(5) [OF that] w [OF that] by simp
      show "entry_held l False u = unat (rl_lock_counts r ! u)" if "u < 64" for u
        using that Some by (simp add: entry_held_def)
    qed
  qed
qed

lemma read_lock_ok:
  assumes "locks_inv n s" and "t < n" and "may_lock False (held s) a t"
    and "held s (False, a, t) + 1 < 2 ^ 32"
  shows "\<exists>s'. read_lock_account a t s = (Ok (), s') \<and> locks_inv n s' \<and>
    held s' = (held s)((False, a, t) := held s (False, a, t) + 1)"
proof -
  let ?l = "case locks s a of Some l \<Rightarrow> l | None \<Rightarrow> default_locks"
  have n: "n \<le> 64" "t < 64" using assms(1,2) by (auto simp: locks_inv_def)
  have w: "wl_thread_id wl = t \<and> wl_lock_count wl \<noteq> 0 \<and> wf_entry n ?l" if "write_locks ?l = Some wl" for wl
  proof (cases "locks s a")
    case (Some l)
    then show ?thesis
      using may_lock_writer [OF assms(1,3) Some] locks_inv_entry [OF assms(1) Some] that
        wf_entry_write [of n l wl] by simp
  qed (use that in \<open>simp add: default_locks_def\<close>)
  have h: "held s (k, a, u) = entry_held ?l k u" for k u
    by (cases "locks s a") (simp_all add: held_def default_locks_def entry_held_def)
  obtain S cs where r: "read_lock_account a t s =
        (Ok (), s\<lparr>locks := (locks s)(a \<mapsto> ?l\<lparr>read_locks :=
          Some \<lparr>rl_thread_set = S, rl_lock_counts = cs[t := cs ! t + 1]\<rparr>\<rparr>)\<rparr>)"
    and cs: "length cs = 64" "threads S = insert t {u. u < 64 \<and> cs ! u \<noteq> 0}"
      "{u. u < 64 \<and> cs ! u \<noteq> 0} \<subseteq> {..<n}"
      "\<And>wl. write_locks ?l = Some wl \<Longrightarrow> {u. u < 64 \<and> cs ! u \<noteq> 0} \<subseteq> {t}"
      "\<And>u. u < 64 \<Longrightarrow> entry_held ?l False u = unat (cs ! u)"
    using read_lock_entry [OF assms(1,2), of a] w by blast
  let ?c = "cs ! t + 1"
  let ?l' = "?l\<lparr>read_locks := Some \<lparr>rl_thread_set = S, rl_lock_counts = cs[t := ?c]\<rparr>\<rparr>"
  have c: "unat ?c = unat (cs ! t) + 1" "?c \<noteq> 0"
    using u32_inc [of "cs ! t"] assms(4) cs(5) [OF n(2)] by (simp_all add: h)
  have "wf_entry n ?l'"
  proof (rule wf_entry_set_read)
    show "threads S = {u. u < 64 \<and> cs[t := ?c] ! u \<noteq> 0}"
      using cs(2) c(2) nonzero_update [OF cs(1) n(2), of ?c] by simp
    show "threads S \<subseteq> {..<n}" using cs(2,3) assms(2) by simp
    show "wl_thread_id wl < n \<and> wl_lock_count wl \<noteq> 0 \<and> threads S = {wl_thread_id wl}"
      if "write_locks ?l = Some wl" for wl
      using w [OF that] cs(2) cs(4) [OF that] assms(2) by auto
  qed (use cs in simp_all)
  moreover have "held (s\<lparr>locks := (locks s)(a \<mapsto> ?l')\<rparr>) = (held s)((False, a, t) := held s (False, a, t) + 1)"
    unfolding held_update entry_held_set_read [OF cs(1) n(2)]
    using c(1) cs(5) n(2) by (auto simp: fun_eq_iff h) (auto simp: entry_held_def split: option.split)
  ultimately show ?thesis unfolding r using locks_inv_update [OF assms(1)] by blast
qed

lemma entry_held_no_read:
  "entry_held (l\<lparr>read_locks := None\<rparr>) w u = (if w then entry_held l True u else 0)"
  by (simp add: entry_held_def)

lemma entry_held_no_write: "write_locks l = None \<Longrightarrow> entry_held l True u = 0"
  by (simp add: entry_held_def)

lemma read_unlock_ok:
  assumes "locks_inv n s" and "0 < held s (False, a, t)"
  shows "\<exists>s'. read_unlock_account a t s = (Ok (), s') \<and> locks_inv n s' \<and>
    held s' = (held s)((False, a, t) := held s (False, a, t) - 1)"
proof -
  obtain l r where l: "locks s a = Some l" "read_locks l = Some r" and t: "t < 64" "rl_lock_counts r ! t \<noteq> 0"
    using assms(2) by (auto simp: held_def entry_held_def unat_gt_0 split: option.splits if_splits)
  note wf = locks_inv_entry [OF assms(1) l(1)]
  note rd = wf_entry_read [OF wf l(2)]
  let ?cs = "rl_lock_counts r" and ?S = "rl_thread_set r"
  let ?c = "?cs ! t - 1"
  have h: "held s (w, a, u) = entry_held l w u" for w u using l(1) by (simp add: held_entry)
  have c: "unat ?c = unat (?cs ! t) - 1"
    using t(2) by (simp add: unat_sub word_le_nat_alt unat_gt_0 Suc_le_eq)
  have tS: "t \<in> threads ?S" using rd(2) t by simp
  let ?S' = "if ?c = 0 then ts_remove ?S t else ?S"
  have S': "threads ?S' = {u. u < 64 \<and> ?cs[t := ?c] ! u \<noteq> 0}"
    using rd(2) tS threads_remove [OF t(1)] nonzero_update [OF rd(1) t(1), of ?c] by (auto simp: insert_absorb)
  have upd: "held (s\<lparr>locks := (locks s)(a \<mapsto> l\<lparr>read_locks :=
        Some \<lparr>rl_thread_set = ?S', rl_lock_counts = ?cs[t := ?c]\<rparr>\<rparr>)\<rparr>) =
      (held s)((False, a, t) := held s (False, a, t) - 1)"
    unfolding held_update entry_held_set_read [OF rd(1) t(1)]
    using c l(2) t(1) by (auto simp: fun_eq_iff h) (auto simp: entry_held_def)
  show ?thesis
  proof (cases "threads ?S' = {}")
    case False
    have "read_unlock_account a t s = (Ok (), s\<lparr>locks := (locks s)(a \<mapsto> l\<lparr>read_locks :=
        Some \<lparr>rl_thread_set = ?S', rl_lock_counts = ?cs[t := ?c]\<rparr>\<rparr>)\<rparr>)"
      using l t(1) tS rd(1) False
      by (cases r) (simp add: read_unlock_account_def Let_def ts_contains_iff ts_is_empty_iff split: if_splits)
    moreover have "wf_entry n (l\<lparr>read_locks := Some \<lparr>rl_thread_set = ?S', rl_lock_counts = ?cs[t := ?c]\<rparr>\<rparr>)"
    proof (rule wf_entry_set_read)
      have sub: "threads ?S' \<subseteq> threads ?S" using threads_remove [OF t(1)] by simp
      then show "threads ?S' \<subseteq> {..<n}" using rd(4) by blast
      show "wl_thread_id wl < n \<and> wl_lock_count wl \<noteq> 0 \<and> threads ?S' = {wl_thread_id wl}"
        if "write_locks l = Some wl" for wl
        using wf_entry_write [OF wf that] rd(5) [OF that] sub False by (metis subset_singletonD)
    qed (use S' rd(1) False in simp_all)
    ultimately show ?thesis using upd locks_inv_update [OF assms(1)] by blast
  next
    case True
    then have "?c = 0" using tS by (auto split: if_splits)
    have "entry_held l False u - (if u = t then 1 else 0) = 0" for u
      using True S' \<open>?c = 0\<close> c l(2) rd(1) by (auto simp: entry_held_def nth_list_update unat_eq_zero)
    from this [of t] this have gone: "entry_held l False t - 1 = 0" "\<And>u. u \<noteq> t \<Longrightarrow> entry_held l False u = 0"
      by (simp, metis diff_zero)
    have S0: "threads (ts_remove ?S t) = {}" using True \<open>?c = 0\<close> by simp
    show ?thesis
    proof (cases "write_locks l")
      case None
      have "read_unlock_account a t s = (Ok (), s\<lparr>locks := (locks s)(a := None)\<rparr>)"
        using l t(1) tS rd(1) S0 \<open>?c = 0\<close> None
        by (simp add: read_unlock_account_def Let_def ts_contains_iff ts_is_empty_iff)
      moreover have "held (s\<lparr>locks := (locks s)(a := None)\<rparr>) =
          (held s)((False, a, t) := held s (False, a, t) - 1)"
        unfolding held_delete using gone None entry_held_no_write [OF None]
        by (auto simp: fun_eq_iff h) (metis (full_types) gone(2))
      ultimately show ?thesis using locks_inv_delete [OF assms(1)] by blast
    next
      case (Some wl)
      have "read_unlock_account a t s = (Ok (), s\<lparr>locks := (locks s)(a \<mapsto> l\<lparr>read_locks := None\<rparr>)\<rparr>)"
        using l t(1) tS rd(1) S0 \<open>?c = 0\<close> Some
        by (simp add: read_unlock_account_def Let_def ts_contains_iff ts_is_empty_iff)
      moreover have "held (s\<lparr>locks := (locks s)(a \<mapsto> l\<lparr>read_locks := None\<rparr>)\<rparr>) =
          (held s)((False, a, t) := held s (False, a, t) - 1)"
        unfolding held_update entry_held_no_read using gone by (auto simp: fun_eq_iff h)
      ultimately show ?thesis
        using wf_entry_clear_read [OF wf Some] locks_inv_update [OF assms(1)] by blast
    qed
  qed
qed

section \<open>Tables of counted locks\<close>

text \<open>
  The contract of a table of counted locks: \<open>cnt\<close> counts the locks of each kind, a lock counts up
  where \<open>may\<close> allows it, an unlock counts down or panics, and the counts determine the table.
\<close>

locale counted_locks =
  fixes inv :: "'s \<Rightarrow> bool"
    and cnt :: "'s \<Rightarrow> 'i \<Rightarrow> nat"
    and owner :: "'i \<Rightarrow> nat"
    and may :: "('i \<Rightarrow> nat) \<Rightarrow> 'i \<Rightarrow> bool"
    and lock :: "'i \<Rightarrow> ('s, 'e, unit) op"
    and unlock :: "'i \<Rightarrow> ('s, 'e, unit) op"
  assumes lock_ok: "inv s \<Longrightarrow> may (cnt s) i \<Longrightarrow> cnt s i + 1 < 2 ^ 32 \<Longrightarrow>
      \<exists>s'. lock i s = (Ok (), s') \<and> inv s' \<and> cnt s' = (cnt s)(i := cnt s i + 1)"
    and unlock_ok: "inv s \<Longrightarrow> 0 < cnt s i \<Longrightarrow>
      \<exists>s'. unlock i s = (Ok (), s') \<and> inv s' \<and> cnt s' = (cnt s)(i := cnt s i - 1)"
    and unlock_panic: "inv s \<Longrightarrow> cnt s i = 0 \<Longrightarrow> fst (unlock i s) = Panic"
    and may_stable: "may h i \<Longrightarrow> owner i = owner j \<Longrightarrow> may (h(j := c)) i"
    and cnt_inj: "inv s \<Longrightarrow> inv s' \<Longrightarrow> cnt s = cnt s' \<Longrightarrow> s = s'"
begin

lemma lock_all:
  assumes "inv s" and "\<And>i. i \<in> set is \<Longrightarrow> owner i = t \<and> may (cnt s) i"
    and "\<And>i. cnt s i + count_list is i < 2 ^ 32"
  shows "\<exists>s'. for_each lock is s = (Ok (), s') \<and> inv s' \<and> cnt s' = (\<lambda>i. cnt s i + count_list is i)"
  using assms
proof (induction "is" arbitrary: s)
  case (Cons i "is")
  have "cnt s i + 1 < 2 ^ 32" using Cons.prems(3) [of i] by simp
  then obtain s1 where s1: "lock i s = (Ok (), s1)" "inv s1" "cnt s1 = (cnt s)(i := cnt s i + 1)"
    using lock_ok [OF Cons.prems(1)] Cons.prems(2) [of i] by auto
  have "\<exists>s'. for_each lock is s1 = (Ok (), s') \<and> inv s' \<and> cnt s' = (\<lambda>j. cnt s1 j + count_list is j)"
  proof (rule Cons.IH [OF s1(2)])
    show "owner j = t \<and> may (cnt s1) j" if "j \<in> set is" for j
      unfolding s1(3) using Cons.prems(2) that by (simp add: may_stable)
    show "cnt s1 j + count_list is j < 2 ^ 32" for j
      using Cons.prems(3) [of j] by (simp add: s1(3) split: if_splits)
  qed
  moreover have "(\<lambda>j. cnt s1 j + count_list is j) = (\<lambda>j. cnt s j + count_list (i # is) j)"
    by (auto simp: s1(3))
  ultimately show ?case using s1(1) by (auto simp: sbind_def)
qed (simp add: sreturn_def)

lemma unlock_all:
  assumes "inv s" and "\<And>i. count_list is i \<le> cnt s i"
  shows "\<exists>s'. for_each unlock is s = (Ok (), s') \<and> inv s' \<and> cnt s' = (\<lambda>i. cnt s i - count_list is i)"
  using assms
proof (induction "is" arbitrary: s)
  case (Cons i "is")
  have "0 < cnt s i" using Cons.prems(2) [of i] by simp
  then obtain s1 where s1: "unlock i s = (Ok (), s1)" "inv s1" "cnt s1 = (cnt s)(i := cnt s i - 1)"
    using unlock_ok [OF Cons.prems(1)] by blast
  have "count_list is j \<le> cnt s1 j" for j
    using Cons.prems(2) [of j] by (simp add: s1(3) split: if_splits)
  then have "\<exists>s'. for_each unlock is s1 = (Ok (), s') \<and> inv s' \<and> cnt s' = (\<lambda>j. cnt s1 j - count_list is j)"
    by (rule Cons.IH [OF s1(2)])
  moreover have "(\<lambda>j. cnt s1 j - count_list is j) = (\<lambda>j. cnt s j - count_list (i # is) j)"
    by (auto simp: s1(3))
  ultimately show ?case using s1(1) by (auto simp: sbind_def)
qed (simp add: sreturn_def)

lemma unlock_all_panics:
  assumes "inv s" and "cnt s i < count_list is i"
  shows "fst (for_each unlock is s) = Panic"
  using assms
proof (induction "is" arbitrary: s)
  case (Cons j "is")
  show ?case
  proof (cases "cnt s j = 0")
    case True
    then show ?thesis using unlock_panic [OF Cons.prems(1) True]
      by (cases "unlock j s") (simp add: sbind_def)
  next
    case False
    then obtain s1 where s1: "unlock j s = (Ok (), s1)" "inv s1" "cnt s1 = (cnt s)(j := cnt s j - 1)"
      using unlock_ok [OF Cons.prems(1)] by blast
    have "cnt s1 i < count_list is i" using Cons.prems(2) False by (auto simp: s1(3) split: if_splits)
    then show ?thesis using Cons.IH [OF s1(2)] s1(1) by (simp add: sbind_def)
  qed
qed simp

lemma unlock_all_returns:
  assumes "inv s" and "for_each unlock is s = (Ok (), s')"
  shows "inv s'" and "count_list is i \<le> cnt s i" and "cnt s' = (\<lambda>i. cnt s i - count_list is i)"
proof -
  have le: "count_list is i \<le> cnt s i" for i
    using unlock_all_panics [OF assms(1), of i "is"] assms(2) by fastforce
  then show "count_list is i \<le> cnt s i" .
  show "inv s'" "cnt s' = (\<lambda>i. cnt s i - count_list is i)"
    using unlock_all [OF assms(1) le] assms(2) by auto
qed

lemma lock_unlock_all:
  assumes "inv s" and "\<And>i. i \<in> set is \<Longrightarrow> owner i = t \<and> may (cnt s) i"
    and "\<And>i. cnt s i + count_list is i < 2 ^ 32" and "count_list js = count_list is"
  shows "\<exists>s'. for_each lock is s = (Ok (), s') \<and> for_each unlock js s' = (Ok (), s)"
proof -
  obtain s' where s': "for_each lock is s = (Ok (), s')" "inv s'" "cnt s' = (\<lambda>i. cnt s i + count_list is i)"
    using lock_all [OF assms(1-3)] by blast
  obtain s2 where s2: "for_each unlock js s' = (Ok (), s2)" "inv s2" "cnt s2 = (\<lambda>i. cnt s' i - count_list js i)"
    using unlock_all [OF s'(2), of js] by (auto simp: s'(3) assms(4))
  have "cnt s2 = cnt s" unfolding s2(3) s'(3) assms(4) by simp
  then have "s2 = s" using cnt_inj [OF s2(2) assms(1)] by blast
  with s' s2 show ?thesis by blast
qed

end

lemma write_unlock_panic:
  assumes "locks_inv n s" and "held s (True, a, t) = 0"
  shows "fst (write_unlock_account a t s) = Panic"
proof (cases "\<exists>l wl. locks s a = Some l \<and> write_locks l = Some wl \<and> wl_thread_id wl = t")
  case True
  then obtain l wl where l: "locks s a = Some l" "write_locks l = Some wl" "wl_thread_id wl = t" by blast
  then show ?thesis
    using wf_entry_write [OF locks_inv_entry [OF assms(1) l(1)] l(2)] assms(2)
    by (simp add: held_entry entry_held_def unat_eq_zero)
qed (auto simp: write_unlock_account_def split: option.split)

lemma read_unlock_panic:
  assumes "locks_inv n s" and "held s (False, a, t) = 0"
  shows "fst (read_unlock_account a t s) = Panic"
proof (cases "\<exists>l r. locks s a = Some l \<and> read_locks l = Some r")
  case True
  then obtain l r where l: "locks s a = Some l" "read_locks l = Some r" by blast
  note rd = wf_entry_read(1,2) [OF locks_inv_entry [OF assms(1) l(1)] l(2)]
  show ?thesis
  proof (cases "t < 64")
    case True
    then have "t \<notin> threads (rl_thread_set r)"
      using assms(2) l rd(2) by (simp add: held_entry entry_held_def unat_eq_zero)
    then show ?thesis using l True by (simp add: read_unlock_account_def ts_contains_iff)
  qed (use l rd(1) in \<open>simp add: read_unlock_account_def\<close>)
qed (auto simp: read_unlock_account_def split: option.split)

lemma entry_held_nonzero:
  assumes "wf_entry n l" shows "\<exists>w t. entry_held l w t \<noteq> 0"
proof (cases "write_locks l")
  case (Some wl)
  then have "entry_held l True (wl_thread_id wl) \<noteq> 0"
    using wf_entry_write [OF assms Some] by (simp add: entry_held_def unat_eq_zero)
  then show ?thesis by blast
next
  case None
  then obtain r where r: "read_locks l = Some r" using assms by (auto simp: wf_entry_def)
  obtain t where "t < 64" "rl_lock_counts r ! t \<noteq> 0" using wf_entry_read(2,3) [OF assms r] by blast
  then have "entry_held l False t \<noteq> 0" using r by (simp add: entry_held_def unat_eq_zero)
  then show ?thesis by blast
qed

lemma write_entry_inj:
  assumes "wf_entry n l" and "wf_entry n l'" and "\<And>t. entry_held l True t = entry_held l' True t"
    and "write_locks l = Some w"
  shows "write_locks l' = Some w"
proof -
  have nz: "unat (wl_lock_count w) \<noteq> 0" using wf_entry_write [OF assms(1,4)] by (simp add: unat_eq_zero)
  have "entry_held l' True (wl_thread_id w) = unat (wl_lock_count w)"
    using assms(3) [of "wl_thread_id w"] assms(4) by (simp add: entry_held_def)
  with nz obtain w' where "write_locks l' = Some w'" "wl_thread_id w' = wl_thread_id w"
      "unat (wl_lock_count w') = unat (wl_lock_count w)"
    by (auto simp: entry_held_def split: option.splits if_splits)
  then show ?thesis by (cases w, cases w') (simp add: unsigned_word_eqI)
qed

lemma read_entry_inj:
  assumes "wf_entry n l" and "wf_entry n l'" and "\<And>t. entry_held l False t = entry_held l' False t"
    and "read_locks l = Some r"
  shows "read_locks l' = Some r"
proof -
  note rd = wf_entry_read(1-3) [OF assms(1,4)]
  obtain t where t: "t < 64" "rl_lock_counts r ! t \<noteq> 0" using rd(2,3) by blast
  then have "entry_held l False t \<noteq> 0" using assms(4) by (simp add: entry_held_def unat_eq_zero)
  then have "entry_held l' False t \<noteq> 0" using assms(3) by simp
  then obtain r' where r': "read_locks l' = Some r'" by (auto simp: entry_held_def split: option.splits)
  note rd' = wf_entry_read(1,2) [OF assms(2) r']
  have "rl_lock_counts r = rl_lock_counts r'"
  proof (rule nth_equalityI)
    fix i assume "i < length (rl_lock_counts r)"
    then show "rl_lock_counts r ! i = rl_lock_counts r' ! i"
      using assms(3) [of i] assms(4) r' rd(1) by (intro unsigned_word_eqI) (simp add: entry_held_def)
  qed (simp add: rd(1) rd'(1))
  moreover from this have "rl_thread_set r = rl_thread_set r'"
    using rd(2) rd'(2) threads_eq_iff by metis
  ultimately show ?thesis using r' by simp
qed

lemma entry_held_inj:
  assumes "wf_entry n l" and "wf_entry n l'" and "\<And>w t. entry_held l w t = entry_held l' w t"
  shows "l = l'"
proof -
  have "write_locks l = write_locks l'"
    using write_entry_inj [OF assms(1,2)] write_entry_inj [OF assms(2,1)] assms(3)
    by (metis not_None_eq)
  moreover have "read_locks l = read_locks l'"
    using read_entry_inj [OF assms(1,2)] read_entry_inj [OF assms(2,1)] assms(3)
    by (metis not_None_eq)
  ultimately show ?thesis by simp
qed

lemma held_inj:
  assumes "locks_inv n s" and "locks_inv n s'" and "held s = held s'"
  shows "s = s'"
proof -
  have h: "held s (w, a, t) = held s' (w, a, t)" for w a t using assms(3) by simp
  have "locks s a = locks s' a" for a
  proof (cases "locks s a"; cases "locks s' a")
    fix l l' assume l: "locks s a = Some l" "locks s' a = Some l'"
    then have "l = l'"
      using h [of _ a] by (intro entry_held_inj [OF locks_inv_entry [OF assms(1)] locks_inv_entry [OF assms(2)]])
        (simp_all add: held_entry)
    with l show ?thesis by simp
  next
    fix l assume "locks s a = None" "locks s' a = Some l"
    then show ?thesis
      using entry_held_nonzero [OF locks_inv_entry [OF assms(2)], of a l] h [of _ a]
      by (simp add: held_def)
  next
    fix l assume "locks s a = Some l" "locks s' a = None"
    then show ?thesis
      using entry_held_nonzero [OF locks_inv_entry [OF assms(1)], of a l] h [of _ a]
      by (simp add: held_def)
  qed simp
  moreover have "num_threads s = num_threads s'" using assms(1,2) by (simp add: locks_inv_def)
  ultimately show ?thesis by (simp add: fun_eq_iff)
qed

definition lock_one :: "'k lock \<Rightarrow> ('k, unit) lock_op" where
  "lock_one = (\<lambda>(w, a, t). if w then write_lock_account a t else read_lock_account a t)"

definition unlock_one :: "'k lock \<Rightarrow> ('k, unit) lock_op" where
  "unlock_one = (\<lambda>(w, a, t). if w then write_unlock_account a t else read_unlock_account a t)"

interpretation al: counted_locks "locks_inv n" held "snd \<circ> snd"
  "\<lambda>h (w, a, t). t < n \<and> may_lock w h a t" lock_one unlock_one for n
proof
  fix s :: "'k ThreadAwareAccountLocks" and i :: "'k lock"
  obtain w a t where i: "i = (w, a, t)" by (cases i)
  assume inv: "locks_inv n s"
  show "\<exists>s'. lock_one i s = (Ok (), s') \<and> locks_inv n s' \<and> held s' = (held s)(i := held s i + 1)"
    if "case i of (w, a, t) \<Rightarrow> t < n \<and> may_lock w (held s) a t" "held s i + 1 < 2 ^ 32"
    using that write_lock_ok [OF inv, of t a] read_lock_ok [OF inv, of t a] by (cases w) (simp_all add: i lock_one_def)
  show "\<exists>s'. unlock_one i s = (Ok (), s') \<and> locks_inv n s' \<and> held s' = (held s)(i := held s i - 1)"
    if "0 < held s i"
    using that write_unlock_ok [OF inv, of a t] read_unlock_ok [OF inv, of a t] by (cases w) (simp_all add: i unlock_one_def)
  show "fst (unlock_one i s) = Panic" if "held s i = 0"
    using that write_unlock_panic [OF inv, of a t] read_unlock_panic [OF inv, of a t]
    by (cases w) (simp_all add: i unlock_one_def)
  show "s = s'" if "locks_inv n s'" "held s = held s'" for s'
    by (rule held_inj [OF inv that])
qed (auto simp: may_lock_def)

section \<open>Transactions\<close>

text \<open>The locks that a transaction takes on a thread.\<close>

definition tx_locks :: "'k list \<Rightarrow> 'k list \<Rightarrow> ThreadId \<Rightarrow> 'k lock list" where
  "tx_locks ws rs t = map (\<lambda>a. (True, a, t)) ws @ map (\<lambda>a. (False, a, t)) rs"

definition lockable :: "'k ThreadAwareAccountLocks \<Rightarrow> 'k list \<Rightarrow> 'k list \<Rightarrow> ThreadId set" where
  "lockable s ws rs = {t. t < num_threads s \<and> (\<forall>a\<in>set ws. may_lock True (held s) a t) \<and>
     (\<forall>a\<in>set rs. may_lock False (held s) a t)}"

lemma for_each_map: "for_each f (map g xs) = for_each (\<lambda>x. f (g x)) xs"
  by (induction xs) simp_all

lemma for_each_append: "for_each f (xs @ ys) s = sbind (for_each f xs) (\<lambda>_. for_each f ys) s"
  by (induction xs arbitrary: s) (auto simp: sbind_def sreturn_def split: outcome.split prod.split)

lemma unlock_accounts_eq: "unlock_accounts ws rs t s = for_each unlock_one (tx_locks ws rs t) s"
  by (simp add: unlock_accounts_def tx_locks_def for_each_append for_each_map unlock_one_def sbind_def)

lemma lock_accounts_eq:
  "t < num_threads s \<Longrightarrow> lock_accounts ws rs t s = for_each lock_one (tx_locks ws rs t) s"
  by (simp add: lock_accounts_def tx_locks_def for_each_append for_each_map lock_one_def sbind_def sget_def
      slift_def)

lemma narrow_spec:
  assumes "\<And>a. a \<in> set xs \<Longrightarrow> \<exists>u. f a = Ok u \<and> threads u = T a" and "threads ts \<noteq> {}"
  shows "\<exists>r. narrow f xs ts = Ok r \<and>
    (case r of None \<Rightarrow> {t \<in> threads ts. \<forall>a\<in>set xs. t \<in> T a} = {}
     | Some u \<Rightarrow> threads u = {t \<in> threads ts. \<forall>a\<in>set xs. t \<in> T a} \<and> threads u \<noteq> {})"
  using assms
proof (induction xs arbitrary: ts)
  case (Cons a xs)
  obtain u where u: "f a = Ok u" "threads u = T a" using Cons.prems(1) [of a] by auto
  have th: "threads (ts_bitand ts u) = threads ts \<inter> T a" by (simp add: threads_bitand u)
  have X: "{t \<in> threads (ts_bitand ts u). \<forall>a\<in>set xs. t \<in> T a} = {t \<in> threads ts. \<forall>a\<in>set (a # xs). t \<in> T a}"
    unfolding th by auto
  show ?case
  proof (cases "threads (ts_bitand ts u) = {}")
    case True
    then show ?thesis using u th by (auto simp: Let_def ts_is_empty_iff)
  next
    case False
    then show ?thesis
      using Cons.IH [of "ts_bitand ts u"] Cons.prems(1) u(1) unfolding X
      by (simp add: Let_def ts_is_empty_iff)
  qed
qed simp

lemma accounts_schedulable_threads_spec:
  assumes "locks_inv n s"
  shows "\<exists>r. accounts_schedulable_threads s ws rs = Ok r \<and>
    (case r of None \<Rightarrow> lockable s ws rs = {}
     | Some u \<Rightarrow> threads u = lockable s ws rs \<and> lockable s ws rs \<noteq> {})"
proof -
  have n: "num_threads s = n" "0 < n" "n \<le> 64" using assms by (simp_all add: locks_inv_def)
  let ?T = "\<lambda>w a. {t. t < n \<and> may_lock w (held s) a t}"
  have any: "threads (ts_any n) = {..<n}" "threads (ts_any n) \<noteq> {}" using n by (auto simp: threads_any)
  obtain r where r: "narrow (schedulable_threads True s) ws (ts_any n) = Ok r"
    "case r of None \<Rightarrow> {t \<in> {..<n}. \<forall>a\<in>set ws. t \<in> ?T True a} = {}
     | Some u \<Rightarrow> threads u = {t \<in> {..<n}. \<forall>a\<in>set ws. t \<in> ?T True a} \<and> threads u \<noteq> {}"
    using narrow_spec [of ws "schedulable_threads True s" "?T True" "ts_any n", OF _ any(2), unfolded any(1)]
      schedulable_threads_eq [OF assms] by blast
  show ?thesis
  proof (cases r)
    case None
    then show ?thesis using r n by (auto simp: accounts_schedulable_threads_def lockable_def)
  next
    case (Some u)
    then have u: "threads u = {t \<in> {..<n}. \<forall>a\<in>set ws. t \<in> ?T True a}" "threads u \<noteq> {}"
      using r(2) unfolding Some option.case by blast+
    obtain q where q: "narrow (schedulable_threads False s) rs u = Ok q"
      "case q of None \<Rightarrow> {t \<in> threads u. \<forall>a\<in>set rs. t \<in> ?T False a} = {}
       | Some v \<Rightarrow> threads v = {t \<in> threads u. \<forall>a\<in>set rs. t \<in> ?T False a} \<and> threads v \<noteq> {}"
      using narrow_spec [of rs "schedulable_threads False s" "?T False" u, OF _ u(2)]
        schedulable_threads_eq [OF assms] by blast
    have "{t \<in> threads u. \<forall>a\<in>set rs. t \<in> ?T False a} = lockable s ws rs"
      unfolding u(1) lockable_def n by auto
    then show ?thesis using q r(1) Some n by (cases q) (auto simp: accounts_schedulable_threads_def)
  qed
qed

text \<open>
  What the callers of \<open>try_lock_accounts\<close> promise: the selector picks a member of the set it is given
  (its documented contract), and no lock count of \<open>2 ^ 32\<close> or more arises.
\<close>

definition selects :: "(ThreadSet \<Rightarrow> ThreadId) \<Rightarrow> bool" where
  "selects sel \<longleftrightarrow> (\<forall>ts. threads ts \<noteq> {} \<longrightarrow> sel ts \<in> threads ts)"

definition room :: "'k ThreadAwareAccountLocks \<Rightarrow> 'k list \<Rightarrow> 'k list \<Rightarrow> bool" where
  "room s ws rs \<longleftrightarrow> (\<forall>t i. held s i + count_list (tx_locks ws rs t) i < 2 ^ 32)"

lemma count_list_mset: "count_list xs x = count (mset xs) x"
  by (induction xs) simp_all

lemma tx_locks_perm:
  "mset ws' = mset ws \<Longrightarrow> mset rs' = mset rs \<Longrightarrow> count_list (tx_locks ws' rs' t) = count_list (tx_locks ws rs t)"
  by (simp add: fun_eq_iff count_list_mset tx_locks_def)

lemma selectsD: "selects sel \<Longrightarrow> threads ts \<noteq> {} \<Longrightarrow> sel ts \<in> threads ts"
  by (simp add: selects_def)

lemma lockable_may:
  assumes "t \<in> lockable s ws rs" and "locks_inv n s" and "i \<in> set (tx_locks ws rs t)"
  shows "(snd \<circ> snd) i = t \<and> (case i of (w, a, t) \<Rightarrow> t < n \<and> may_lock w (held s) a t)"
  using assms by (auto simp: lockable_def tx_locks_def locks_inv_def)

lemma try_lock_cases:
  assumes "locks_inv n s" and "selects sel"
  obtains "lockable s ws rs = {}" "try_lock_accounts ws rs al sel s = (Err MultipleConflicts, s)"
  | "lockable s ws rs \<noteq> {}" "lockable s ws rs \<inter> threads al = {}"
    "try_lock_accounts ws rs al sel s = (Err ThreadNotAllowed, s)"
  | t where "t \<in> lockable s ws rs" "t \<in> threads al"
    "try_lock_accounts ws rs al sel s = sbind (for_each lock_one (tx_locks ws rs t)) (\<lambda>_. sreturn t) s"
proof -
  obtain r where r: "accounts_schedulable_threads s ws rs = Ok r"
    "case r of None \<Rightarrow> lockable s ws rs = {}
     | Some u \<Rightarrow> threads u = lockable s ws rs \<and> lockable s ws rs \<noteq> {}"
    using accounts_schedulable_threads_spec [OF assms(1)] by blast
  show thesis
  proof (cases r)
    case None
    with r show thesis
      by (intro that(1)) (simp_all add: try_lock_accounts_def sbind_def sget_def slift_def ok_or_def)
  next
    case (Some u)
    with r have u: "threads u = lockable s ws rs" "lockable s ws rs \<noteq> {}" by simp_all
    let ?v = "ts_bitand u al"
    have v: "threads ?v = lockable s ws rs \<inter> threads al" by (simp add: threads_bitand u)
    show thesis
    proof (cases "threads ?v = {}")
      case True
      then show thesis using r(1) Some u v
        by (intro that(2)) (simp_all add: try_lock_accounts_def sbind_def sget_def slift_def ok_or_def
            ts_is_empty_iff sfail_def Let_def)
    next
      case False
      have t: "sel ?v \<in> lockable s ws rs" "sel ?v \<in> threads al"
        using selectsD [OF assms(2) False] v by simp_all
      moreover have "sel ?v < num_threads s" using t(1) by (simp add: lockable_def)
      ultimately show thesis using r(1) Some False
        by (intro that(3)) (simp_all add: try_lock_accounts_def sbind_def sget_def slift_def ok_or_def
            ts_is_empty_iff Let_def lock_accounts_eq)
    qed
  qed
qed

lemma selects_first: "selects trailing_zeros"
  unfolding selects_def using trailing_zeros_Min Min_in [OF finite_threads] by simp

definition sample_locks :: "nat ThreadAwareAccountLocks" where
  "sample_locks = \<lparr>num_threads = 2, locks = [7 \<mapsto>
     \<lparr>write_locks = Some \<lparr>wl_thread_id = 0, wl_lock_count = 1\<rparr>, read_locks = None\<rparr>]\<rparr>"

lemma sample_locks_inv: "locks_inv 2 sample_locks"
  by (simp add: locks_inv_def sample_locks_def wf_entry_def)

lemma held_sample_locks: "held sample_locks (w, a, t) = (if w \<and> a = 7 \<and> t = 0 then 1 else 0)"
  by (simp add: held_def sample_locks_def entry_held_def)

lemma room_sample_locks: "length ws + length rs < 1000 \<Longrightarrow> room sample_locks ws rs"
  unfolding room_def
proof (intro allI)
  fix t and i :: "nat lock"
  assume "length ws + length rs < 1000"
  moreover have "count_list (tx_locks ws rs t) i \<le> length ws + length rs"
    using count_le_length [of "tx_locks ws rs t" i] by (simp add: tx_locks_def)
  moreover have "held sample_locks i \<le> 1" by (cases i) (simp add: held_sample_locks)
  ultimately show "held sample_locks i + count_list (tx_locks ws rs t) i < 2 ^ 32" by simp
qed

lemma lockable_sample_locks: "lockable sample_locks [7] [2] = {0}"
proof -
  have "may_lock True (held sample_locks) 7 t \<longleftrightarrow> t = 0" for t
    by (simp add: may_lock_def held_sample_locks)
  moreover have "may_lock False (held sample_locks) 2 t" for t
    by (simp add: may_lock_def held_sample_locks)
  moreover have "num_threads sample_locks = 2" by (simp add: sample_locks_def)
  ultimately show ?thesis unfolding lockable_def by auto
qed

lemma try_lock_sample_locks:
  "fst (try_lock_accounts [7] [2] (ts_any 2) trailing_zeros sample_locks) = Ok 0"
  by code_simp

text \<open>
  C11: \<open>try_lock_accounts\<close> on a well-formed table never panics and refines the abstract rule. It
  reports \<open>MultipleConflicts\<close> exactly when no thread may take all the locks, \<open>ThreadNotAllowed\<close> exactly
  when some thread may but none of the allowed ones, both with the table unchanged; otherwise it returns
  an allowed thread that may take all the locks, and the table then counts exactly these locks more.
\<close>

theorem try_lock_accounts_refines:
  assumes "locks_inv n s" and "selects sel" and "room s ws rs"
  shows "\<exists>r s'. try_lock_accounts ws rs al sel s = (r, s') \<and> locks_inv n s' \<and>
    (if lockable s ws rs = {} then r = Err MultipleConflicts \<and> s' = s
     else if lockable s ws rs \<inter> threads al = {} then r = Err ThreadNotAllowed \<and> s' = s
     else \<exists>t. r = Ok t \<and> t \<in> lockable s ws rs \<inter> threads al \<and>
       held s' = (\<lambda>i. held s i + count_list (tx_locks ws rs t) i))"
proof (cases rule: try_lock_cases [OF assms(1,2), where ws = ws and rs = rs and al = al])
  case (3 t)
  have "held s i + count_list (tx_locks ws rs t) i < 2 ^ 32" for i
    using assms(3) unfolding room_def by blast
  then obtain s' where "for_each lock_one (tx_locks ws rs t) s = (Ok (), s')" "locks_inv n s'"
    "held s' = (\<lambda>i. held s i + count_list (tx_locks ws rs t) i)"
    using al.lock_all [OF assms(1) lockable_may [OF 3(1) assms(1)]] by blast
  with 3 show ?thesis by (auto simp: sbind_def sreturn_def)
qed (use assms(1) in simp_all)

theorem try_lock_accounts_refines_witness:
  "\<exists>s'. try_lock_accounts [7] [2] (ts_any 2) trailing_zeros sample_locks = (Ok 0, s') \<and> locks_inv 2 s' \<and>
     held s' (True, 7, 0) = 2 \<and> held s' (False, 2, 0) = 1"
  using try_lock_accounts_refines [OF sample_locks_inv selects_first room_sample_locks, of "[7]" "[2]" "ts_any 2"]
  by (auto simp: lockable_sample_locks threads_any held_sample_locks tx_locks_def)

text \<open>
  C13: unlocking undoes locking. After a successful \<open>try_lock_accounts\<close>, \<open>unlock_accounts\<close> with the
  returned thread and the same accounts in any order succeeds and restores the identical table: no entry,
  bit or counter is left behind.
\<close>

theorem unlock_restores_table:
  assumes "locks_inv n s" and "selects sel" and "room s ws rs"
    and "try_lock_accounts ws rs al sel s = (Ok t, s')"
    and "mset ws' = mset ws" and "mset rs' = mset rs"
  shows "unlock_accounts ws' rs' t s' = (Ok (), s)"
proof (cases rule: try_lock_cases [OF assms(1,2), where ws = ws and rs = rs and al = al])
  case (3 u)
  have "held s i + count_list (tx_locks ws rs u) i < 2 ^ 32" for i
    using assms(3) unfolding room_def by blast
  then obtain s1 where "for_each lock_one (tx_locks ws rs u) s = (Ok (), s1)"
    "for_each unlock_one (tx_locks ws' rs' u) s1 = (Ok (), s)"
    using al.lock_unlock_all [OF assms(1) lockable_may [OF 3(1) assms(1)] _ tx_locks_perm [OF assms(5,6)]]
    by blast
  with 3(3) assms(4) show ?thesis by (simp add: unlock_accounts_eq sbind_def sreturn_def)
qed (use assms(4) in simp_all)

theorem unlock_restores_table_witness:
  "unlock_accounts [7] [2] 0 (snd (try_lock_accounts [7] [2] (ts_any 2) trailing_zeros sample_locks)) =
     (Ok (), sample_locks)"
  by (rule unlock_restores_table [OF sample_locks_inv selects_first room_sample_locks,
      where ws = "[7]" and rs = "[2]" and al = "ts_any 2"])
    (simp_all add: try_lock_sample_locks [symmetric])

text \<open>
  C14: \<open>unlock_accounts\<close> on a well-formed table succeeds exactly when the thread holds every lock it
  gives back, counted with repetition; it then counts these locks down and keeps the table well formed,
  and otherwise it stops with a panic instead of corrupting a count.
\<close>

theorem unlock_accounts_exact:
  assumes "locks_inv n s"
  shows "if \<forall>i. count_list (tx_locks ws rs t) i \<le> held s i
    then \<exists>s'. unlock_accounts ws rs t s = (Ok (), s') \<and> locks_inv n s' \<and>
      held s' = (\<lambda>i. held s i - count_list (tx_locks ws rs t) i)
    else fst (unlock_accounts ws rs t s) = Panic"
proof (cases "\<forall>i. count_list (tx_locks ws rs t) i \<le> held s i")
  case True
  then have "count_list (tx_locks ws rs t) i \<le> held s i" for i by blast
  from al.unlock_all [OF assms this] show ?thesis
    unfolding unlock_accounts_eq if_P [OF True] .
next
  case False
  then obtain i where "held s i < count_list (tx_locks ws rs t) i" by (meson not_le)
  from al.unlock_all_panics [OF assms this] show ?thesis
    unfolding unlock_accounts_eq if_not_P [OF False] .
qed

theorem unlock_accounts_exact_witness:
  "(\<exists>s'. unlock_accounts [7] [] 0 sample_locks = (Ok (), s') \<and> held s' = (\<lambda>_. 0)) \<and>
   fst (unlock_accounts [7] [2] 0 sample_locks) = Panic"
proof
  have le: "count_list (tx_locks [7] [] 0) i \<le> held sample_locks i" for i
    by (cases i) (simp add: tx_locks_def held_sample_locks)
  have "(\<lambda>i. held sample_locks i - count_list (tx_locks [7] [] 0) i) = (\<lambda>_. 0)"
    by (auto simp: fun_eq_iff held_sample_locks tx_locks_def)
  then show "\<exists>s'. unlock_accounts [7] [] 0 sample_locks = (Ok (), s') \<and> held s' = (\<lambda>_. 0)"
    using unlock_accounts_exact [OF sample_locks_inv, of "[7]" "[]" 0] le by auto
  have "\<not> (\<forall>i. count_list (tx_locks [7] [2] 0) i \<le> held sample_locks i)"
    by (auto simp: tx_locks_def held_sample_locks)
  then show "fst (unlock_accounts [7] [2] 0 sample_locks) = Panic"
    using unlock_accounts_exact [OF sample_locks_inv, of "[7]" "[2]" 0] by (simp only: if_False simp_thms)
qed

section \<open>Every run of the scheduler\<close>

text \<open>
  The tables that a scheduler reaches from a new one by calls of \<open>try_lock_accounts\<close>, successful or not,
  and by calls of \<open>unlock_accounts\<close> that return.
\<close>

inductive locks_reachable :: "usize \<Rightarrow> 'k ThreadAwareAccountLocks \<Rightarrow> bool" for n where
  new: "locks_new n = Ok s \<Longrightarrow> locks_reachable n s"
| lock: "locks_reachable n s \<Longrightarrow> selects sel \<Longrightarrow> room s ws rs \<Longrightarrow>
    try_lock_accounts ws rs al sel s = (r, s') \<Longrightarrow> locks_reachable n s'"
| unlock: "locks_reachable n s \<Longrightarrow> unlock_accounts ws rs t s = (Ok (), s') \<Longrightarrow> locks_reachable n s'"

lemma locks_new_inv: "locks_new n = Ok s \<Longrightarrow> locks_inv n s"
  by (cases "0 < n"; cases "n \<le> 64") (auto simp: locks_new_def locks_inv_def MAX_THREADS_def)

lemma try_lock_inv:
  assumes "locks_inv n s" and "selects sel" and "room s ws rs" and "try_lock_accounts ws rs al sel s = (r, s')"
  shows "locks_inv n s'"
proof (cases rule: try_lock_cases [OF assms(1,2), where ws = ws and rs = rs and al = al])
  case (3 t)
  have "held s i + count_list (tx_locks ws rs t) i < 2 ^ 32" for i
    using assms(3) unfolding room_def by blast
  then obtain s1 where "for_each lock_one (tx_locks ws rs t) s = (Ok (), s1)" "locks_inv n s1"
    using al.lock_all [OF assms(1) lockable_may [OF 3(1) assms(1)]] by blast
  with 3(3) assms(4) show ?thesis by (simp add: sbind_def sreturn_def)
qed (use assms(1,4) in simp_all)

lemma locks_reachable_inv: "locks_reachable n s \<Longrightarrow> locks_inv n s"
  by (induction rule: locks_reachable.induct)
    (auto intro: locks_new_inv try_lock_inv al.unlock_all_returns(1) simp: unlock_accounts_eq)

text \<open>
  C12: in every table that a scheduler reaches, a write lock is exclusive. While a thread holds a write
  lock on an account, every other thread holds neither a read nor a write lock on it.
\<close>

theorem write_lock_excludes:
  assumes "locks_reachable n s" and "0 < held s (True, a, t)" and "u \<noteq> t"
  shows "held s (w, a, u) = 0"
proof -
  obtain l wl where l: "locks s a = Some l" "write_locks l = Some wl" "wl_thread_id wl = t"
    using assms(2) by (auto simp: held_def entry_held_def split: option.splits if_splits)
  note wf = locks_inv_entry [OF locks_reachable_inv [OF assms(1)] l(1)]
  have "entry_held l False u = 0"
  proof (cases "read_locks l")
    case (Some r)
    then have "u \<notin> threads (rl_thread_set r)"
      using wf_entry_read(5) [OF wf Some l(2)] l(3) assms(3) by simp
    then show ?thesis using Some wf_entry_read(2) [OF wf Some] by (simp add: entry_held_def unat_eq_zero)
  qed (simp add: entry_held_def)
  moreover have "entry_held l True u = 0" using l(2,3) assms(3) by (simp add: entry_held_def)
  ultimately show ?thesis using l(1) by (cases w) (simp_all add: held_entry)
qed

theorem write_lock_excludes_witness:
  "held (snd (try_lock_accounts [7] [] (ts_any 2) trailing_zeros
     (\<lparr>num_threads = 2, locks = Map.empty\<rparr> :: nat ThreadAwareAccountLocks))) (False, 7, 1) = 0"
proof -
  let ?s = "\<lparr>num_threads = 2, locks = Map.empty\<rparr> :: nat ThreadAwareAccountLocks"
  have "room ?s [7] []" by (auto simp: room_def held_def tx_locks_def)
  moreover have "locks_reachable 2 ?s"
    by (rule locks_reachable.new) (simp add: locks_new_def MAX_THREADS_def)
  ultimately have "locks_reachable 2 (snd (try_lock_accounts [7] [] (ts_any 2) trailing_zeros ?s))"
    using locks_reachable.lock [OF _ selects_first] by (metis prod.collapse)
  moreover have "0 < held (snd (try_lock_accounts [7] [] (ts_any 2) trailing_zeros ?s)) (True, 7, 0)"
    by code_simp
  ultimately show ?thesis by (rule write_lock_excludes) simp
qed

end
