(* ===== verification/Usage_Queue.thy ===== *)
theory Usage_Queue
  imports Prelude
begin

text \<open>
  \<open>unified-scheduler-logic/src/lib.rs\<close>, the first half: short counters, tasks, and the usage queue that every
  address has. A usage queue holds the current usage of its address and the usages that wait for it, in the
  order of arrival (\<open>Fifo\<close>) or of the task ids (\<open>Priority\<close>). The lemmas relate a queue to the set of its
  holders and the list of its waiters, and describe the single steps on both kinds; \<open>Usage_Laws\<close> composes them to
  the laws of locking and releasing an address.
\<close>

section \<open>Counters and ordered maps\<close>

type_synonym u128 = "128 word"
type_synonym OrderedTaskId = u128

text \<open>\<open>ShortCounter\<close> is a \<open>u32\<close> whose increments and decrements are checked.\<close>

type_synonym ShortCounter = u32

definition increment :: "ShortCounter \<Rightarrow> (unit, ShortCounter) outcome" where
  "increment c = (if c = - 1 then Panic else Ok (c + 1))"

definition decrement :: "ShortCounter \<Rightarrow> (unit, ShortCounter) outcome" where
  "decrement c = (if c = 0 then Panic else Ok (c - 1))"

definition max_self :: "ShortCounter \<Rightarrow> ShortCounter \<Rightarrow> ShortCounter" where
  "max_self c other = max c other"

text \<open>
  A \<open>BTreeMap\<close> is the list of its entries in ascending order of the keys. \<open>insert\<close> gives back the value that it
  replaces and \<open>remove\<close> the value that it removes.
\<close>

fun btree_insert :: "'k::linorder \<Rightarrow> 'v \<Rightarrow> ('k \<times> 'v) list \<Rightarrow> 'v option \<times> ('k \<times> 'v) list" where
  "btree_insert k v [] = (None, [(k, v)])"
| "btree_insert k v ((k', v') # m) =
     (if k < k' then (None, (k, v) # (k', v') # m)
      else if k = k' then (Some v', (k, v) # m)
      else (case btree_insert k v m of (old, m') \<Rightarrow> (old, (k', v') # m')))"

fun btree_remove :: "'k \<Rightarrow> ('k \<times> 'v) list \<Rightarrow> 'v option \<times> ('k \<times> 'v) list" where
  "btree_remove k [] = (None, [])"
| "btree_remove k ((k', v') # m) =
     (if k = k' then (Some v', m)
      else (case btree_remove k m of (old, m') \<Rightarrow> (old, (k', v') # m')))"

text \<open>\<open>unwrap_none\<close> of the value that an insertion replaces.\<close>

definition insert_new :: "'k::linorder \<Rightarrow> 'v \<Rightarrow> ('k \<times> 'v) list \<Rightarrow> (unit, ('k \<times> 'v) list) outcome" where
  "insert_new k v m = (case btree_insert k v m of (None, m') \<Rightarrow> Ok m' | (Some _, _) \<Rightarrow> Panic)"

section \<open>Tasks\<close>

datatype Capability = FifoQueueing | PriorityQueueing

datatype RequestedUsage = Readonly | Writable

text \<open>
  What the scheduler reads of a transaction of the external SDK: its account keys, whether the key at an index
  is writable, and the hash of its message.
\<close>

record ('k, 'h) SchedTransaction =
  sched_account_keys :: "'k list"
  sched_is_writable :: "nat \<Rightarrow> bool"
  sched_message_hash :: 'h

text \<open>
  An \<open>Arc\<close> is a reference to a cell of a store. A \<open>UsageQueue\<close> is a reference; a task has a reference of its own,
  which also names the cell of its \<open>blocked_usage_count\<close>. The cells are read and written through the tokens of
  the scheduler.
\<close>

type_synonym queue_ref = nat
type_synonym task_ref = nat
type_synonym count_cells = "task_ref \<Rightarrow> ShortCounter"

record LockContext =
  usage_queue :: queue_ref
  requested_usage :: RequestedUsage

record ('k, 'h) TaskInner =
  self_ref :: task_ref
  transaction :: "('k, 'h) SchedTransaction"
  task_id :: OrderedTaskId
  lock_contexts :: "LockContext list"
  consumed_block_size :: usize
  sanitized_epoch :: u64
  alt_invalidation_slot :: u64

definition task_hash :: "('k, 'h) TaskInner \<Rightarrow> 'h" where
  "task_hash t = sched_message_hash (transaction t)"

definition is_higher_priority :: "('k, 'h) TaskInner \<Rightarrow> ('k, 'h) TaskInner \<Rightarrow> (unit, bool) outcome" where
  "is_higher_priority self other =
     (if task_id self < task_id other then Ok True
      else if task_id self > task_id other then Ok False
      else Panic)"

definition set_blocked_usage_count :: "('k, 'h) TaskInner \<Rightarrow> ShortCounter \<Rightarrow> count_cells \<Rightarrow> count_cells" where
  "set_blocked_usage_count t c counts = counts(self_ref t := c)"

definition try_unblock ::
  "('k, 'h) TaskInner \<Rightarrow> count_cells \<Rightarrow> (unit, ('k, 'h) TaskInner option \<times> count_cells) outcome" where
  "try_unblock t counts =
     obind (decrement (counts (self_ref t))) (\<lambda>c.
       Ok (if c = 0 then Some t else None, counts(self_ref t := c)))"

definition try_reblock :: "('k, 'h) TaskInner \<Rightarrow> count_cells \<Rightarrow> (unit, bool \<times> count_cells) outcome" where
  "try_reblock t counts =
     (if counts (self_ref t) = 0 then Ok (False, counts)
      else obind (increment (counts (self_ref t))) (\<lambda>c. Ok (True, counts(self_ref t := c))))"

section \<open>Usage queues\<close>

datatype ('r, 'w) Usage = CurrentReadonly 'r | CurrentWritable 'w

fun usage_requested :: "('r, 'w) Usage \<Rightarrow> RequestedUsage" where
  "usage_requested (CurrentReadonly _) = Readonly"
| "usage_requested (CurrentWritable _) = Writable"

type_synonym FifoUsage = "(ShortCounter, unit) Usage"
type_synonym ('k, 'h) PriorityUsage =
  "((OrderedTaskId \<times> ('k, 'h) TaskInner) list, ('k, 'h) TaskInner) Usage"

fun FifoUsage_from :: "RequestedUsage \<Rightarrow> FifoUsage" where
  "FifoUsage_from Readonly = CurrentReadonly 1"
| "FifoUsage_from Writable = CurrentWritable ()"

fun PriorityUsage_from :: "('k, 'h) TaskInner \<Rightarrow> RequestedUsage \<Rightarrow> ('k, 'h) PriorityUsage" where
  "PriorityUsage_from t Readonly = CurrentReadonly [(task_id t, t)]"
| "PriorityUsage_from t Writable = CurrentWritable t"

type_synonym ('k, 'h) UsageFromTask = "RequestedUsage \<times> ('k, 'h) TaskInner"
type_synonym ('k, 'h) PriorityUsageQueue = "(OrderedTaskId \<times> ('k, 'h) UsageFromTask) list"

datatype ('k, 'h) UsageQueueInner =
    Fifo "FifoUsage option" "('k, 'h) UsageFromTask list"
  | Priority "('k, 'h) PriorityUsage option" "('k, 'h) PriorityUsageQueue"

definition with_fifo :: "('k, 'h) UsageQueueInner" where
  "with_fifo = Fifo None []"

definition with_priority :: "('k, 'h) UsageQueueInner" where
  "with_priority = Priority None []"

fun UsageQueueInner_new :: "Capability \<Rightarrow> ('k, 'h) UsageQueueInner" where
  "UsageQueueInner_new FifoQueueing = with_fifo"
| "UsageQueueInner_new PriorityQueueing = with_priority"

definition insert_usage_from_task ::
  "('k, 'h) UsageFromTask \<Rightarrow> ('k, 'h) PriorityUsageQueue \<Rightarrow> (unit, ('k, 'h) PriorityUsageQueue) outcome" where
  "insert_usage_from_task usage_from_task m = insert_new (task_id (snd usage_from_task)) usage_from_task m"

fun pop_first_usage_from_task ::
  "('k, 'h) PriorityUsageQueue \<Rightarrow> ('k, 'h) UsageFromTask option \<times> ('k, 'h) PriorityUsageQueue" where
  "pop_first_usage_from_task [] = (None, [])"
| "pop_first_usage_from_task ((_, usage) # m) = (Some usage, m)"

fun first_usage_from_task :: "('k, 'h) PriorityUsageQueue \<Rightarrow> ('k, 'h) UsageFromTask option" where
  "first_usage_from_task [] = None"
| "first_usage_from_task ((_, usage) # m) = Some usage"

text \<open>\<open>Ok(())\<close> of a \<open>LockResult\<close> is \<open>Inr ()\<close>, and \<open>Err(())\<close> is \<open>Inl ()\<close>.\<close>

type_synonym LockResult = "unit + unit"

fun queue_current_usage :: "('k, 'h) UsageQueueInner \<Rightarrow> RequestedUsage option" where
  "queue_current_usage (Fifo current _) = map_option usage_requested current"
| "queue_current_usage (Priority current _) = map_option usage_requested current"

fun queue_pop :: "('k, 'h) UsageQueueInner \<Rightarrow> ('k, 'h) UsageFromTask option \<times> ('k, 'h) UsageQueueInner" where
  "queue_pop (Fifo current []) = (None, Fifo current [])"
| "queue_pop (Fifo current (usage # blocked)) = (Some usage, Fifo current blocked)"
| "queue_pop (Priority current blocked) =
     (case pop_first_usage_from_task blocked of (usage, blocked') \<Rightarrow> (usage, Priority current blocked'))"

fun queue_push ::
  "('k, 'h) UsageFromTask \<Rightarrow> ('k, 'h) UsageQueueInner \<Rightarrow> (unit, ('k, 'h) UsageQueueInner) outcome" where
  "queue_push usage (Fifo current blocked) = Ok (Fifo current (blocked @ [usage]))"
| "queue_push usage (Priority current blocked) =
     obind (insert_usage_from_task usage blocked) (\<lambda>blocked'. Ok (Priority current blocked'))"

fun peek_blocked :: "('k, 'h) UsageQueueInner \<Rightarrow> ('k, 'h) UsageFromTask option" where
  "peek_blocked (Fifo _ blocked) = (case blocked of [] \<Rightarrow> None | usage # _ \<Rightarrow> Some usage)"
| "peek_blocked (Priority _ blocked) = first_usage_from_task blocked"

definition push_blocked ::
  "('k, 'h) UsageFromTask \<Rightarrow> ('k, 'h) UsageQueueInner \<Rightarrow> (unit, ('k, 'h) UsageQueueInner) outcome" where
  "push_blocked usage q =
     obind (assert_or_panic (queue_current_usage q \<noteq> None)) (\<lambda>_. queue_push usage q)"

definition pop_lockable_readonly ::
  "('k, 'h) UsageQueueInner \<Rightarrow> (unit, ('k, 'h) UsageFromTask option \<times> ('k, 'h) UsageQueueInner) outcome" where
  "pop_lockable_readonly q =
     (case peek_blocked q of
        Some (Readonly, _) \<Rightarrow>
          obind (assert_or_panic (queue_current_usage q = Some Readonly)) (\<lambda>_. Ok (queue_pop q))
      | _ \<Rightarrow> Ok (None, q))"

fun try_lock ::
  "('k, 'h) TaskInner \<Rightarrow> RequestedUsage \<Rightarrow> ('k, 'h) UsageQueueInner \<Rightarrow>
   (unit, LockResult \<times> ('k, 'h) UsageQueueInner) outcome" where
  "try_lock new_task usage (Fifo None blocked) = Ok (Inr (), Fifo (Some (FifoUsage_from usage)) blocked)"
| "try_lock new_task Readonly (Fifo (Some (CurrentReadonly c)) blocked) =
     obind (increment c) (\<lambda>c'. Ok (Inr (), Fifo (Some (CurrentReadonly c')) blocked))"
| "try_lock new_task Writable (Fifo (Some (CurrentReadonly c)) blocked) =
     Ok (Inl (), Fifo (Some (CurrentReadonly c)) blocked)"
| "try_lock new_task usage (Fifo (Some (CurrentWritable u)) blocked) =
     Ok (Inl (), Fifo (Some (CurrentWritable u)) blocked)"
| "try_lock new_task Readonly (Priority (Some (CurrentReadonly tasks)) blocked) =
     obind (insert_new (task_id new_task) new_task tasks) (\<lambda>tasks'.
       Ok (Inr (), Priority (Some (CurrentReadonly tasks')) blocked))"
| "try_lock new_task Writable (Priority (Some (CurrentReadonly tasks)) blocked) =
     Ok (Inl (), Priority (Some (CurrentReadonly tasks)) blocked)"
| "try_lock new_task usage (Priority (Some (CurrentWritable t)) blocked) =
     Ok (Inl (), Priority (Some (CurrentWritable t)) blocked)"
| "try_lock new_task usage (Priority None blocked) =
     Ok (Inr (), Priority (Some (PriorityUsage_from new_task usage)) blocked)"

text \<open>
  The first half of \<open>unlock\<close>: give up the current usage, and say whether the address is newly lockable. A
  current usage that the request does not match is an \<open>unreachable!\<close> or a failed assertion.
\<close>

fun unlock_current ::
  "('k, 'h) TaskInner \<Rightarrow> RequestedUsage \<Rightarrow> ('k, 'h) UsageQueueInner \<Rightarrow>
   (unit, bool \<times> ('k, 'h) UsageQueueInner) outcome" where
  "unlock_current t Readonly (Fifo (Some (CurrentReadonly c)) blocked) =
     (if c = 1 then Ok (True, Fifo None blocked)
      else obind (decrement c) (\<lambda>c'. Ok (False, Fifo (Some (CurrentReadonly c')) blocked)))"
| "unlock_current t Writable (Fifo (Some (CurrentWritable _)) blocked) = Ok (True, Fifo None blocked)"
| "unlock_current t Readonly (Priority (Some (CurrentReadonly tasks)) blocked) =
     (case btree_remove (task_id t) tasks of
        (None, _) \<Rightarrow> Panic
      | (Some _, tasks') \<Rightarrow>
          if tasks' = [] then Ok (True, Priority None blocked)
          else Ok (False, Priority (Some (CurrentReadonly tasks')) blocked))"
| "unlock_current t Writable (Priority (Some (CurrentWritable _)) blocked) = Ok (True, Priority None blocked)"
| "unlock_current t usage q = Panic"

definition unlock ::
  "('k, 'h) TaskInner \<Rightarrow> RequestedUsage \<Rightarrow> ('k, 'h) UsageQueueInner \<Rightarrow>
   (unit, ('k, 'h) UsageFromTask option \<times> ('k, 'h) UsageQueueInner) outcome" where
  "unlock t usage q =
     obind (unlock_current t usage q) (\<lambda>(is_newly_lockable, q').
       Ok (if is_newly_lockable then queue_pop q' else (None, q')))"

text \<open>
  The \<open>extract_if\<close> of \<open>prepare_lock\<close> with the insertions of its loop: from the id \<open>lo\<close> on, every reader that can
  still be reblocked moves to the blocked usages.
\<close>

fun reblock_readers ::
  "OrderedTaskId \<Rightarrow> (OrderedTaskId \<times> ('k, 'h) TaskInner) list \<Rightarrow> ('k, 'h) PriorityUsageQueue \<Rightarrow> count_cells \<Rightarrow>
   (unit, (OrderedTaskId \<times> ('k, 'h) TaskInner) list \<times> ('k, 'h) PriorityUsageQueue \<times> count_cells) outcome" where
  "reblock_readers lo [] blocked counts = Ok ([], blocked, counts)"
| "reblock_readers lo ((k, t) # tasks) blocked counts =
     (if k < lo
      then obind (reblock_readers lo tasks blocked counts) (\<lambda>(tasks', rest). Ok ((k, t) # tasks', rest))
      else obind (try_reblock t counts) (\<lambda>(reblocked, counts').
        if reblocked
        then obind (insert_usage_from_task (Readonly, t) blocked) (\<lambda>blocked'.
               reblock_readers lo tasks blocked' counts')
        else obind (reblock_readers lo tasks blocked counts') (\<lambda>(tasks', rest). Ok ((k, t) # tasks', rest))))"

fun prepare_lock ::
  "('k, 'h) TaskInner \<Rightarrow> RequestedUsage \<Rightarrow> ('k, 'h) UsageQueueInner \<Rightarrow> count_cells \<Rightarrow>
   (unit, LockResult \<times> ('k, 'h) UsageQueueInner \<times> count_cells) outcome" where
  "prepare_lock new_task usage (Fifo current blocked) counts =
     Ok (if blocked = [] then Inr () else Inl (), Fifo current blocked, counts)"
| "prepare_lock new_task usage (Priority None blocked) counts =
     obind (assert_or_panic (blocked = [])) (\<lambda>_. Ok (Inr (), Priority None blocked, counts))"
| "prepare_lock new_task usage (Priority (Some (CurrentWritable current_task)) blocked) counts =
     obind (is_higher_priority new_task current_task) (\<lambda>higher.
       if \<not> higher then Ok (Inl (), Priority (Some (CurrentWritable current_task)) blocked, counts)
       else obind (try_reblock current_task counts) (\<lambda>(reblocked, counts').
         if \<not> reblocked then Ok (Inl (), Priority (Some (CurrentWritable current_task)) blocked, counts')
         else obind (insert_usage_from_task (Writable, current_task) blocked) (\<lambda>blocked'.
           Ok (Inr (), Priority None blocked', counts'))))"
| "prepare_lock new_task Readonly (Priority (Some (CurrentReadonly tasks)) blocked) counts =
     (case first_usage_from_task blocked of
        None \<Rightarrow> Ok (Inr (), Priority (Some (CurrentReadonly tasks)) blocked, counts)
      | Some (peeked_usage, peeked_task) \<Rightarrow>
          obind (assert_or_panic (peeked_usage = Writable)) (\<lambda>_.
          obind (is_higher_priority new_task peeked_task) (\<lambda>higher.
            Ok (if higher then Inr () else Inl (), Priority (Some (CurrentReadonly tasks)) blocked, counts))))"
| "prepare_lock new_task Writable (Priority (Some (CurrentReadonly tasks)) blocked) counts =
     obind (reblock_readers (task_id new_task) tasks blocked counts) (\<lambda>(tasks', blocked', counts').
       if tasks' = [] then Ok (Inr (), Priority None blocked', counts')
       else Ok (Inl (), Priority (Some (CurrentReadonly tasks')) blocked', counts'))"

section \<open>Locking and releasing one address\<close>

text \<open>The body of the loop of \<open>try_lock_usage_queues\<close>; \<open>c\<close> counts the addresses that block the task.\<close>

definition lock_or_block ::
  "('k, 'h) TaskInner \<Rightarrow> RequestedUsage \<Rightarrow> ('k, 'h) UsageQueueInner \<Rightarrow> ShortCounter \<times> count_cells \<Rightarrow>
   (unit, ('k, 'h) UsageQueueInner \<times> ShortCounter \<times> count_cells) outcome" where
  "lock_or_block new_task usage q = (\<lambda>(c, counts).
     obind (prepare_lock new_task usage q counts) (\<lambda>(prepared, q1, counts1).
     obind (case prepared of Inl _ \<Rightarrow> Ok (Inl (), q1) | Inr _ \<Rightarrow> try_lock new_task usage q1) (\<lambda>(lock_result, q2).
       case lock_result of
         Inr _ \<Rightarrow> Ok (q2, c, counts1)
       | Inl _ \<Rightarrow>
           obind (increment c) (\<lambda>c'.
           obind (push_blocked (usage, new_task) q2) (\<lambda>q3. Ok (q3, c', counts1))))))"

fun blocked_usages :: "('k, 'h) UsageQueueInner \<Rightarrow> ('k, 'h) UsageFromTask list" where
  "blocked_usages (Fifo _ blocked) = blocked"
| "blocked_usages (Priority _ blocked) = map snd blocked"

lemma try_lock_blocked: "try_lock t u q = Ok (r, q') \<Longrightarrow> blocked_usages q' = blocked_usages q"
  by (induction t u q rule: try_lock.induct) auto

lemma queue_pop_blocked:
  "queue_pop q = (x, q') \<Longrightarrow>
     (case x of None \<Rightarrow> blocked_usages q = [] \<and> q' = q | Some p \<Rightarrow> blocked_usages q = p # blocked_usages q')"
  by (induction q rule: queue_pop.induct)
    (auto split: prod.splits elim: pop_first_usage_from_task.elims)

lemma pop_lockable_readonly_blocked:
  assumes "pop_lockable_readonly q = Ok (x, q')"
  shows "case x of None \<Rightarrow> q' = q | Some p \<Rightarrow> blocked_usages q = p # blocked_usages q'"
proof (cases "(x, q') = queue_pop q")
  case True
  then show ?thesis using queue_pop_blocked [of q x q'] by (auto split: option.splits)
next
  case False
  then show ?thesis
    using assms by (auto simp: pop_lockable_readonly_def split: option.splits prod.splits RequestedUsage.splits)
qed

text \<open>
  The inner loop of \<open>unlock_usage_queues\<close>. It ends because every round takes a usage out of the blocked
  usages.
\<close>

function relock_loop ::
  "('k, 'h) UsageFromTask option \<Rightarrow> ('k, 'h) UsageQueueInner \<Rightarrow> ('k, 'h) TaskInner list \<times> count_cells \<Rightarrow>
   (unit, ('k, 'h) UsageQueueInner \<times> ('k, 'h) TaskInner list \<times> count_cells) outcome" where
  "relock_loop None q (unblocked, counts) = Ok (q, unblocked, counts)"
| "relock_loop (Some (usage, t)) q (unblocked, counts) =
     (case try_lock t usage q of
        Ok (Inr _, q1) \<Rightarrow>
          (case try_unblock t counts of
             Ok (x, counts1) \<Rightarrow>
               (let unblocked1 = (case x of Some t' \<Rightarrow> unblocked @ [t'] | None \<Rightarrow> unblocked) in
                if usage = Readonly
                then (case pop_lockable_readonly q1 of
                        Ok (next_usage, q2) \<Rightarrow> relock_loop next_usage q2 (unblocked1, counts1)
                      | _ \<Rightarrow> Panic)
                else relock_loop None q1 (unblocked1, counts1))
           | _ \<Rightarrow> Panic)
      | _ \<Rightarrow> Panic)"
  by pat_completeness auto
termination
proof (relation "measure (\<lambda>(x, q, s). length (blocked_usages q) + (if x = None then 0 else 1))")
qed (auto dest!: try_lock_blocked pop_lockable_readonly_blocked split: option.splits)

text \<open>The body of the loop of \<open>unlock_usage_queues\<close>.\<close>

definition release_usage ::
  "('k, 'h) TaskInner \<Rightarrow> RequestedUsage \<Rightarrow> ('k, 'h) UsageQueueInner \<Rightarrow> ('k, 'h) TaskInner list \<times> count_cells \<Rightarrow>
   (unit, ('k, 'h) UsageQueueInner \<times> ('k, 'h) TaskInner list \<times> count_cells) outcome" where
  "release_usage t usage q s =
     obind (unlock t usage q) (\<lambda>(newly_lockable, q'). relock_loop newly_lockable q' s)"

section \<open>Holders and waiters of an address\<close>

definition priority_queue_ok :: "('k, 'h) PriorityUsageQueue \<Rightarrow> bool" where
  "priority_queue_ok m \<longleftrightarrow> sorted_wrt (<) (map fst m) \<and> (\<forall>x\<in>set m. fst x = task_id (snd (snd x)))"

definition readers_ok :: "(OrderedTaskId \<times> ('k, 'h) TaskInner) list \<Rightarrow> bool" where
  "readers_ok m \<longleftrightarrow> sorted_wrt (<) (map fst m) \<and> (\<forall>x\<in>set m. fst x = task_id (snd x))"

text \<open>The set \<open>H\<close> of usages that a queue of the given capability records as current.\<close>

fun records_holders ::
  "Capability \<Rightarrow> ('k, 'h) UsageFromTask set \<Rightarrow> ('k, 'h) UsageQueueInner \<Rightarrow> bool" where
  "records_holders FifoQueueing H (Fifo current blocked) \<longleftrightarrow>
     (case current of
        None \<Rightarrow> H = {}
      | Some (CurrentReadonly c) \<Rightarrow> H \<noteq> {} \<and> finite H \<and> (\<forall>h\<in>H. fst h = Readonly) \<and> unat c = card H
      | Some (CurrentWritable _) \<Rightarrow> (\<exists>t. H = {(Writable, t)}))"
| "records_holders PriorityQueueing H (Priority current blocked) \<longleftrightarrow>
     priority_queue_ok blocked \<and>
     (case current of
        None \<Rightarrow> H = {}
      | Some (CurrentReadonly m) \<Rightarrow> m \<noteq> [] \<and> readers_ok m \<and> H = Pair Readonly ` snd ` set m
      | Some (CurrentWritable t) \<Rightarrow> H = {(Writable, t)})"
| "records_holders _ H _ \<longleftrightarrow> False"

text \<open>
  The order in which an address serves its tasks: by arrival or by id. A usage queue is admissible when its
  holders are compatible, its waiters are ordered, nobody waits for a free address, readers are never made to
  wait behind readers, and a holder comes before every waiter. In a priority queue a holder that is in \<open>Z\<close> (the
  tasks with no blocked usage, which may be running) may also come after a waiter.
\<close>

fun queue_rank :: "Capability \<Rightarrow> (('k, 'h) TaskInner \<Rightarrow> nat) \<Rightarrow> ('k, 'h) TaskInner \<Rightarrow> nat" where
  "queue_rank FifoQueueing arrival t = arrival t"
| "queue_rank PriorityQueueing arrival t = unat (task_id t)"

definition compatible :: "('k, 'h) UsageFromTask set \<Rightarrow> bool" where
  "compatible H \<longleftrightarrow> (\<forall>h\<in>H. fst h = Readonly) \<or> (\<exists>h. H = {h})"

definition admissible ::
  "bool \<Rightarrow> (('k, 'h) TaskInner \<Rightarrow> nat) \<Rightarrow> ('k, 'h) TaskInner set \<Rightarrow>
   ('k, 'h) UsageFromTask set \<Rightarrow> ('k, 'h) UsageFromTask list \<Rightarrow> bool" where
  "admissible strict rank Z H B \<longleftrightarrow>
     compatible H \<and> sorted_wrt (<) (map (rank \<circ> snd) B) \<and> (H = {} \<longrightarrow> B = []) \<and>
     (B \<noteq> [] \<and> (\<forall>h\<in>H. fst h = Readonly) \<longrightarrow> fst (hd B) = Writable) \<and>
     (\<forall>h\<in>H. \<forall>b\<in>set B. rank (snd h) < rank (snd b) \<or> \<not> strict \<and> snd h \<in> Z)"

lemma below_max: "unat c + 1 < 2 ^ 32 \<Longrightarrow> c \<noteq> - 1" for c :: u32
  using unat_max [where 'w = 32] by force

lemma unat_increment: "c \<noteq> - 1 \<Longrightarrow> unat (c + 1) = unat c + 1" for c :: u32
  using unatSuc [of c] by (metis add.commute add_eq_0_iff Suc_eq_plus1)

subsection \<open>Ordered maps\<close>

lemma btree_insert_fresh:
  assumes "sorted_wrt (<) (map fst m)" and "k \<notin> fst ` set m"
  shows "\<exists>m'. btree_insert k v m = (None, m') \<and> set m' = insert (k, v) (set m) \<and> sorted_wrt (<) (map fst m')"
  using assms
proof (induction m)
  case (Cons x m)
  obtain k' v' where x: "x = (k', v')" by (cases x)
  obtain m' where m': "btree_insert k v m = (None, m')" "set m' = insert (k, v) (set m)"
    "sorted_wrt (<) (map fst m')"
    using Cons by auto
  show ?case
  proof (cases "k < k'")
    case True
    then show ?thesis using Cons.prems by (force simp: x)
  next
    case False
    with Cons.prems have "k' < k" by (auto simp: x)
    with Cons.prems m' show ?thesis by (auto simp: x)
  qed
qed simp

lemma insert_new_fresh:
  assumes "sorted_wrt (<) (map fst m)" and "k \<notin> fst ` set m"
  shows "\<exists>m'. insert_new k v m = Ok m' \<and> set m' = insert (k, v) (set m) \<and> sorted_wrt (<) (map fst m')"
  using btree_insert_fresh [OF assms, of v] by (auto simp: insert_new_def)

lemma btree_remove_member:
  fixes k :: "'k::linorder"
  assumes "sorted_wrt (<) (map fst m)" and "(k, v) \<in> set m"
  shows "\<exists>m'. btree_remove k m = (Some v, m') \<and> set m' = set m - {(k, v)} \<and> sorted_wrt (<) (map fst m')"
  using assms
proof (induction m)
  case (Cons x m)
  obtain k' v' where x: "x = (k', v')" by (cases x)
  show ?case
  proof (cases "k = k'")
    case True
    then have "(k, v'') \<notin> set m" for v'' using Cons.prems(1) by (auto simp: x)
    with Cons.prems True show ?thesis by (auto simp: x)
  next
    case False
    then obtain m' where m': "btree_remove k m = (Some v, m')" "set m' = set m - {(k, v)}"
      "sorted_wrt (<) (map fst m')"
      using Cons by (auto simp: x)
    with Cons.prems False show ?thesis by (auto simp: x)
  qed
qed simp

lemma insert_usage_fresh:
  assumes "priority_queue_ok m" and "task_id t \<notin> task_id ` snd ` set (map snd m)"
  shows "\<exists>m'. insert_usage_from_task (u, t) m = Ok m' \<and> priority_queue_ok m' \<and>
              set (map snd m') = insert (u, t) (set (map snd m))"
proof -
  have "task_id t \<notin> fst ` set m" using assms by (force simp: priority_queue_ok_def)
  then obtain m' where "insert_new (task_id t) (u, t) m = Ok m'" "set m' = insert (task_id t, (u, t)) (set m)"
    "sorted_wrt (<) (map fst m')"
    using insert_new_fresh assms(1) unfolding priority_queue_ok_def by metis
  then show ?thesis using assms(1) by (auto simp: insert_usage_from_task_def priority_queue_ok_def)
qed

lemma priority_queue_sorted:
  "priority_queue_ok m \<Longrightarrow> sorted_wrt (<) (map (queue_rank PriorityQueueing arrival \<circ> snd) (map snd m))"
  unfolding priority_queue_ok_def sorted_wrt_map o_def queue_rank.simps
  by (elim conjE, erule sorted_wrt_mono_rel [rotated]) (metis word_less_nat_alt)

subsection \<open>The steps of a queue\<close>

text \<open>What each step does to the holders and the waiters, for both capabilities.\<close>

lemma records_holdersE:
  assumes "records_holders cap H q"
  obtains (fifo) current blocked where "cap = FifoQueueing" "q = Fifo current blocked"
  | (priority) current blocked where "cap = PriorityQueueing" "q = Priority current blocked"
      "priority_queue_ok blocked"
  using assms fifo priority by (cases cap; cases q) simp_all

lemma try_lock_grants:
  assumes "records_holders cap H q" and "H = {} \<or> u = Readonly \<and> (\<forall>h\<in>H. fst h = Readonly)"
    and "(u, t) \<notin> H" and "card H + 1 < 2 ^ 32"
    and "cap = PriorityQueueing \<Longrightarrow> task_id t \<notin> task_id ` snd ` H"
  shows "\<exists>q'. try_lock t u q = Ok (Inr (), q') \<and> records_holders cap (insert (u, t) H) q' \<and>
              blocked_usages q' = blocked_usages q"
  using assms(1)
proof (cases rule: records_holdersE)
  case (fifo current blocked)
  show ?thesis
  proof (cases current)
    case None
    then show ?thesis using assms(1) fifo by (cases u) simp_all
  next
    case (Some x)
    then obtain c where c: "x = CurrentReadonly c" "u = Readonly" "H \<noteq> {}" "finite H" "unat c = card H"
      "\<forall>h\<in>H. fst h = Readonly"
      using assms(1,2) fifo by (cases x) auto
    have "unat c + 1 < 2 ^ 32" using c(5) assms(4) by simp
    then have "c \<noteq> - 1" by (rule below_max)
    then show ?thesis using c Some fifo assms(3) by (simp add: increment_def unat_increment)
  qed
next
  case (priority current blocked)
  show ?thesis
  proof (cases current)
    case None
    then show ?thesis using assms(1) priority by (cases u) (simp_all add: readers_ok_def)
  next
    case (Some x)
    then obtain m where m: "x = CurrentReadonly m" "u = Readonly" "m \<noteq> []" "readers_ok m"
      "H = Pair Readonly ` snd ` set m"
      using assms(1,2) priority by (cases x) auto
    have "fst ` set m = task_id ` snd ` H"
      using m(4) unfolding m(5) readers_ok_def image_image by (intro image_cong) simp_all
    then have "task_id t \<notin> fst ` set m" using assms(5) priority(1) by simp
    then obtain m' where "insert_new (task_id t) t m = Ok m'" "set m' = insert (task_id t, t) (set m)"
      "sorted_wrt (<) (map fst m')"
      using insert_new_fresh [of m "task_id t" t] m(4) by (auto simp: readers_ok_def)
    with m Some priority show ?thesis by (auto simp: readers_ok_def)
  qed
qed

lemma queue_pop_records:
  assumes "records_holders cap H q" and "blocked_usages q = p # B"
  shows "\<exists>q'. queue_pop q = (Some p, q') \<and> records_holders cap H q' \<and> blocked_usages q' = B"
  using assms(1)
proof (cases rule: records_holdersE)
  case (priority current blocked)
  then obtain k m where "blocked = (k, p) # m" "map snd m = B" using assms(2) by (cases blocked) auto
  moreover have "priority_queue_ok m"
    using priority(3) \<open>blocked = (k, p) # m\<close> by (simp add: priority_queue_ok_def)
  ultimately show ?thesis using assms(1) priority by simp
qed (use assms in simp)

lemma queue_pop_empty: "records_holders cap H q \<Longrightarrow> blocked_usages q = [] \<Longrightarrow> queue_pop q = (None, q)"
  by (erule records_holdersE) auto

lemma peek_blocked_eq:
  "records_holders cap H q \<Longrightarrow>
     peek_blocked q = (case blocked_usages q of [] \<Rightarrow> None | p # _ \<Rightarrow> Some p)"
  by (erule records_holdersE) (auto split: list.splits)

lemma current_usage_readonly:
  "records_holders cap H q \<Longrightarrow> H \<noteq> {} \<Longrightarrow> \<forall>h\<in>H. fst h = Readonly \<Longrightarrow> queue_current_usage q = Some Readonly"
  by (cases q; cases cap) (auto split: option.splits Usage.splits)

lemma current_usage_held: "records_holders cap H q \<Longrightarrow> H \<noteq> {} \<Longrightarrow> queue_current_usage q \<noteq> None"
  by (cases q; cases cap) (auto split: option.splits)

lemma pop_lockable_records:
  assumes "records_holders cap H q" and "H \<noteq> {}" and "\<forall>h\<in>H. fst h = Readonly"
  shows "\<exists>x q'. pop_lockable_readonly q = Ok (x, q') \<and> records_holders cap H q' \<and>
           (case x of
              None \<Rightarrow> blocked_usages q' = blocked_usages q \<and> (blocked_usages q \<noteq> [] \<longrightarrow> fst (hd (blocked_usages q)) = Writable)
            | Some p \<Rightarrow> fst p = Readonly \<and> blocked_usages q = p # blocked_usages q')"
proof (cases "blocked_usages q")
  case Nil
  then show ?thesis using assms by (simp add: pop_lockable_readonly_def peek_blocked_eq)
next
  case (Cons p B)
  obtain u t where p: "p = (u, t)" by (cases p)
  show ?thesis
  proof (cases u)
    case Readonly
    obtain q' where "queue_pop q = (Some p, q')" "records_holders cap H q'" "blocked_usages q' = B"
      using queue_pop_records [OF assms(1) Cons] by auto
    then show ?thesis
      using assms Cons Readonly p
      by (simp add: pop_lockable_readonly_def peek_blocked_eq current_usage_readonly [OF assms])
  next
    case Writable
    then show ?thesis using assms Cons p by (simp add: pop_lockable_readonly_def peek_blocked_eq)
  qed
qed

lemma push_blocked_records:
  assumes "records_holders cap H q" and "H \<noteq> {}"
    and "cap = PriorityQueueing \<Longrightarrow> task_id t \<notin> task_id ` snd ` set (blocked_usages q)"
    and "sorted_wrt (<) (map (queue_rank cap arrival \<circ> snd) (blocked_usages q))"
    and "cap = FifoQueueing \<Longrightarrow> \<forall>b\<in>set (blocked_usages q). arrival (snd b) < arrival t"
  shows "\<exists>q'. push_blocked (u, t) q = Ok q' \<and> records_holders cap H q' \<and>
              set (blocked_usages q') = insert (u, t) (set (blocked_usages q)) \<and>
              sorted_wrt (<) (map (queue_rank cap arrival \<circ> snd) (blocked_usages q'))"
  using assms(1)
proof (cases rule: records_holdersE)
  case (fifo current blocked)
  then show ?thesis
    using assms current_usage_held [OF assms(1,2)]
    by (auto simp: push_blocked_def sorted_wrt_append)
next
  case (priority current blocked)
  then obtain m' where "insert_usage_from_task (u, t) blocked = Ok m'" "priority_queue_ok m'"
    "set (map snd m') = insert (u, t) (set (map snd blocked))"
    using insert_usage_fresh [OF priority(3)] assms(3) by (metis blocked_usages.simps(2))
  then show ?thesis
    using assms(1) priority current_usage_held [OF assms(1,2)] priority_queue_sorted [of m' arrival]
    by (auto simp: push_blocked_def)
qed

lemma unlock_current_records:
  assumes "records_holders cap H q" and "(u, t) \<in> H"
  shows "\<exists>q'. unlock_current t u q = Ok (H = {(u, t)}, q') \<and> records_holders cap (H - {(u, t)}) q' \<and>
              blocked_usages q' = blocked_usages q"
  using assms(1)
proof (cases rule: records_holdersE)
  case (fifo current blocked)
  obtain x where x: "current = Some x" using assms fifo by (cases current) auto
  show ?thesis
  proof (cases x)
    case (CurrentReadonly c)
    then have c: "finite H" "u = Readonly" "unat c = card H" "\<forall>h\<in>H. fst h = Readonly" using assms fifo x by auto
    have "card H \<noteq> 0" using c(1) assms(2) by auto
    have one: "c = 1 \<longleftrightarrow> H = {(u, t)}"
    proof
      assume "c = 1"
      then have "card H = 1" using c(3) by simp
      then show "H = {(u, t)}" using assms(2) card_1_singletonE by blast
    next
      assume "H = {(u, t)}"
      then show "c = 1" using c(3) by (metis One_nat_def card.empty card_insert_disjoint empty_iff finite.emptyI unat_1 word_unat_eq_iff)
    qed
    have rest: "card (H - {(u, t)}) = card H - 1" using c(1) assms(2) by simp
    have "c \<noteq> 0" using c(3) \<open>card H \<noteq> 0\<close> by auto
    moreover from this have "unat (c - 1) = unat c - 1" by (rule unat_minus_one)
    moreover have "H - {(u, t)} \<noteq> {}" if "H \<noteq> {(u, t)}" using that assms(2) by auto
    ultimately show ?thesis
      using one rest c CurrentReadonly x fifo by (cases "H = {(u, t)}") (simp_all add: decrement_def)
  qed (use assms fifo x in auto)
next
  case (priority current blocked)
  obtain x where x: "current = Some x" using assms priority by (cases current) auto
  show ?thesis
  proof (cases x)
    case (CurrentReadonly m)
    then have m: "readers_ok m" "H = Pair Readonly ` snd ` set m" using assms priority x by auto
    then have "(task_id t, t) \<in> set m" "u = Readonly" using assms(2) by (auto simp: readers_ok_def)
    then obtain m' where m': "btree_remove (task_id t) m = (Some t, m')" "set m' = set m - {(task_id t, t)}"
      "sorted_wrt (<) (map fst m')"
      using btree_remove_member [of m "task_id t" t] m(1) by (auto simp: readers_ok_def)
    have ok': "readers_ok m'" using m m' by (auto simp: readers_ok_def)
    have "snd ` set m' = snd ` set m - {t}" using m(1) by (force simp: m'(2) readers_ok_def)
    then have rest: "H - {(u, t)} = Pair Readonly ` snd ` set m'" using m(2) \<open>u = Readonly\<close> by auto
    then have "m' = [] \<longleftrightarrow> H = {(u, t)}" using assms(2) by auto
    then show ?thesis
      using rest ok' m' CurrentReadonly x priority \<open>u = Readonly\<close> by (cases "m' = []") simp_all
  qed (use assms priority x in auto)
qed

end
