(* ===== verification/Usage_Laws.thy ===== *)
theory Usage_Laws
  imports Usage_Queue
begin

text \<open>
  What locking and releasing one address does to its holders and waiters, for first-in-first-out and for priority
  queues. The two results are the laws of the locale \<open>address_queue\<close>; both kinds of queue interpret it, and the
  scheduler is verified from the laws alone.
\<close>

section \<open>Releasing an address\<close>

text \<open>
  The loop after an unlock promotes a prefix \<open>P\<close> of the waiters \<open>ws\<close>: one writer, or readers up to the next
  writer.
\<close>

lemma relock_loop_spec:
  assumes "records_holders cap H q" and "finite H"
    and "case x of None \<Rightarrow> True | Some p \<Rightarrow> H = {} \<or> fst p = Readonly \<and> (\<forall>h\<in>H. fst h = Readonly)"
    and "ws = (case x of None \<Rightarrow> [] | Some p \<Rightarrow> [p]) @ blocked_usages q"
    and "card H + length ws < 2 ^ 32"
    and "distinct (map (self_ref \<circ> snd) ws)" and "\<forall>w\<in>set ws. counts (self_ref (snd w)) \<noteq> 0"
    and "snd ` H \<inter> snd ` set ws = {}"
    and "cap = PriorityQueueing \<Longrightarrow> inj_on task_id (snd ` (H \<union> set ws))"
  shows "\<exists>P B q'. ws = P @ B \<and> (P = [] \<longleftrightarrow> x = None) \<and>
     relock_loop x q (ub, counts) =
       Ok (q', ub @ map snd (filter (\<lambda>p. counts (self_ref (snd p)) = 1) P),
           \<lambda>r. if r \<in> self_ref ` snd ` set P then counts r - 1 else counts r) \<and>
     records_holders cap (H \<union> set P) q' \<and> blocked_usages q' = B \<and>
     (x \<noteq> None \<longrightarrow> compatible (H \<union> set P) \<and>
       (B \<noteq> [] \<and> (\<forall>h\<in>H \<union> set P. fst h = Readonly) \<longrightarrow> fst (hd B) = Writable))"
  using assms
proof (induction "length ws" arbitrary: x q H ws ub counts rule: less_induct)
  case less
  show ?case
  proof (cases x)
    case None
    then show ?thesis using less.prems by (intro exI [of _ "[]"] exI [of _ ws] exI [of _ q]) auto
  next
    case (Some p)
    obtain u t where p: "p = (u, t)" by (cases p)
    have ws: "ws = (u, t) # blocked_usages q" using less.prems(4) Some p by simp
    have free: "H = {} \<or> u = Readonly \<and> (\<forall>h\<in>H. fst h = Readonly)" using less.prems(3) Some p by simp
    have new: "(u, t) \<notin> H" "t \<notin> snd ` H" using less.prems(8) ws by force+
    have ids: "task_id t \<notin> task_id ` snd ` H" if "cap = PriorityQueueing"
      using inj_onD [OF less.prems(9) [OF that], of t] new(2) ws by auto
    obtain q1 where q1: "try_lock t u q = Ok (Inr (), q1)" "records_holders cap (insert (u, t) H) q1"
      "blocked_usages q1 = blocked_usages q"
      using try_lock_grants [OF less.prems(1) free new(1) _ ids] less.prems(5) ws by auto
    define c where "c = counts (self_ref t)"
    have c: "c \<noteq> 0" using less.prems(7) ws by (simp add: c_def)
    define counts1 where "counts1 = counts(self_ref t := c - 1)"
    define ub1 where "ub1 = (if c = 1 then ub @ [t] else ub)"
    have unblock: "try_unblock t counts = Ok (if c = 1 then Some t else None, counts1)"
      using c by (simp add: try_unblock_def decrement_def counts1_def c_def [symmetric] eq_neg_iff_add_eq_0)
    show ?thesis
    proof (cases u)
      case Writable
      then have "H = {}" using free by simp
      have "relock_loop x q (ub, counts) = Ok (q1, ub1, counts1)"
        using q1 unblock Writable by (simp add: Some p ub1_def)
      then show ?thesis
        using q1 \<open>H = {}\<close> Writable ws Some
        by (intro exI [of _ "[(u, t)]"] exI [of _ "blocked_usages q"] exI [of _ q1])
          (auto simp: ub1_def c_def counts1_def compatible_def)
    next
      case Readonly
      let ?H = "insert (u, t) H"
      have readers: "\<forall>h\<in>?H. fst h = Readonly" using free Readonly by auto
      obtain x2 q2 where x2: "pop_lockable_readonly q1 = Ok (x2, q2)" "records_holders cap ?H q2"
        and pop: "case x2 of
              None \<Rightarrow> blocked_usages q2 = blocked_usages q1 \<and> (blocked_usages q1 \<noteq> [] \<longrightarrow> fst (hd (blocked_usages q1)) = Writable)
            | Some p \<Rightarrow> fst p = Readonly \<and> blocked_usages q1 = p # blocked_usages q2"
        using pop_lockable_records [OF q1(2) _ readers] by blast
      let ?ws = "blocked_usages q"
      have ws2: "?ws = (case x2 of None \<Rightarrow> [] | Some p \<Rightarrow> [p]) @ blocked_usages q2"
        using pop q1(3) by (auto split: option.splits)
      have others: "self_ref t \<notin> (self_ref \<circ> snd) ` set ?ws" "distinct (map (self_ref \<circ> snd) ?ws)"
        using less.prems(6) ws by simp_all
      have ref: "self_ref (snd w) \<noteq> self_ref t" if "w \<in> set ?ws" for w using others(1) that by force
      obtain P B q' where IH: "?ws = P @ B" "P = [] \<longleftrightarrow> x2 = None"
        "relock_loop x2 q2 (ub1, counts1) =
           Ok (q', ub1 @ map snd (filter (\<lambda>p. counts1 (self_ref (snd p)) = 1) P),
               \<lambda>r. if r \<in> self_ref ` snd ` set P then counts1 r - 1 else counts1 r)"
        "records_holders cap (?H \<union> set P) q'" "blocked_usages q' = B"
        "x2 \<noteq> None \<longrightarrow> compatible (?H \<union> set P) \<and>
           (B \<noteq> [] \<and> (\<forall>h\<in>?H \<union> set P. fst h = Readonly) \<longrightarrow> fst (hd B) = Writable)"
      proof -
        have "length ?ws < length ws" by (simp add: ws)
        moreover note x2(2)
        moreover have "finite ?H" using less.prems(2) by simp
        moreover have "case x2 of None \<Rightarrow> True | Some p \<Rightarrow> ?H = {} \<or> fst p = Readonly \<and> (\<forall>h\<in>?H. fst h = Readonly)"
          using pop readers by (auto split: option.splits)
        moreover note ws2
        moreover have "card ?H + length ?ws < 2 ^ 32"
          using less.prems(5) ws card_insert_le_m1 [of "Suc (card H)" H "(u, t)"] by simp
        moreover note others(2)
        moreover have "\<forall>w\<in>set ?ws. counts1 (self_ref (snd w)) \<noteq> 0"
          using less.prems(7) ref by (simp add: counts1_def ws)
        moreover have "snd ` ?H \<inter> snd ` set ?ws = {}" using less.prems(8) ref ws by force
        moreover have "inj_on task_id (snd ` (?H \<union> set ?ws))" if "cap = PriorityQueueing"
          using less.prems(9) [OF that] by (rule inj_on_subset) (auto simp: ws)
        ultimately have "\<exists>P B q'. ?ws = P @ B \<and> (P = [] \<longleftrightarrow> x2 = None) \<and>
           relock_loop x2 q2 (ub1, counts1) =
             Ok (q', ub1 @ map snd (filter (\<lambda>p. counts1 (self_ref (snd p)) = 1) P),
                 \<lambda>r. if r \<in> self_ref ` snd ` set P then counts1 r - 1 else counts1 r) \<and>
           records_holders cap (?H \<union> set P) q' \<and> blocked_usages q' = B \<and>
           (x2 \<noteq> None \<longrightarrow> compatible (?H \<union> set P) \<and>
             (B \<noteq> [] \<and> (\<forall>h\<in>?H \<union> set P. fst h = Readonly) \<longrightarrow> fst (hd B) = Writable))"
          by (rule less.hyps)
        then show ?thesis using that by blast
      qed
      have same: "counts1 (self_ref (snd w)) = counts (self_ref (snd w))" if "w \<in> set P" for w
      proof -
        have "w \<in> set ?ws" using that IH(1) by simp
        then show ?thesis using ref [of w] by (simp add: counts1_def)
      qed
      have "relock_loop x q (ub, counts) = relock_loop x2 q2 (ub1, counts1)"
        using q1 unblock x2(1) Readonly by (simp add: Some p ub1_def)
      moreover have "filter (\<lambda>p. counts1 (self_ref (snd p)) = 1) P = filter (\<lambda>p. counts (self_ref (snd p)) = 1) P"
        using same by (intro filter_cong) simp_all
      moreover have "(\<lambda>r. if r \<in> self_ref ` snd ` set P then counts1 r - 1 else counts1 r) =
          (\<lambda>r. if r \<in> self_ref ` snd ` set ((u, t) # P) then counts r - 1 else counts r)"
        using others(1) IH(1) by (intro ext) (auto simp: counts1_def c_def image_comp)
      moreover have "compatible (?H \<union> set P) \<and>
           (B \<noteq> [] \<and> (\<forall>h\<in>?H \<union> set P. fst h = Readonly) \<longrightarrow> fst (hd B) = Writable)"
        using IH pop q1(3) readers by (cases x2) (auto simp: compatible_def)
      ultimately show ?thesis
        using IH(1,3,4,5) ws Some
        by (intro exI [of _ "(u, t) # P"] exI [of _ B] exI [of _ q']) (simp add: ub1_def c_def)
    qed
  qed
qed

lemma release_usage_law:
  assumes "records_holders cap H q" and "admissible strict rank Z H (blocked_usages q)" and "(u, t) \<in> H"
    and "finite H" and "card H + length (blocked_usages q) < 2 ^ 32"
    and "distinct (map (self_ref \<circ> snd) (blocked_usages q))"
    and "\<forall>w\<in>set (blocked_usages q). counts (self_ref (snd w)) \<noteq> 0"
    and "cap = PriorityQueueing \<Longrightarrow> inj_on task_id (snd ` (H \<union> set (blocked_usages q)))"
  shows "\<exists>P B q'. blocked_usages q = P @ B \<and>
     release_usage t u q (ub, counts) =
       Ok (q', ub @ map snd (filter (\<lambda>p. counts (self_ref (snd p)) = 1) P),
           \<lambda>r. if r \<in> self_ref ` snd ` set P then counts r - 1 else counts r) \<and>
     records_holders cap (H - {(u, t)} \<union> set P) q' \<and> blocked_usages q' = B \<and>
     admissible strict rank Z (H - {(u, t)} \<union> set P) B"
proof -
  obtain q1 where q1: "unlock_current t u q = Ok (H = {(u, t)}, q1)" "records_holders cap (H - {(u, t)}) q1"
    "blocked_usages q1 = blocked_usages q"
    using unlock_current_records [OF assms(1,3)] by blast
  show ?thesis
  proof (cases "H = {(u, t)}")
    case False
    then have "H - {(u, t)} \<noteq> {}" "\<forall>h\<in>H. fst h = Readonly"
      using assms(2,3) by (auto simp: admissible_def compatible_def)
    then have "admissible strict rank Z (H - {(u, t)}) (blocked_usages q)"
      using assms(2) by (auto simp: admissible_def compatible_def)
    then show ?thesis
      using q1 False
      by (intro exI [of _ "[]"] exI [of _ "blocked_usages q"] exI [of _ q1]) (simp add: release_usage_def unlock_def)
  next
    case True
    obtain x q2 where x: "queue_pop q1 = (x, q2)" by (cases "queue_pop q1")
    have x2: "records_holders cap {} q2 \<and> blocked_usages q = (case x of None \<Rightarrow> [] | Some p \<Rightarrow> [p]) @ blocked_usages q2"
    proof (cases "blocked_usages q1")
      case Nil
      then show ?thesis using queue_pop_empty [OF q1(2)] q1 x True by simp
    next
      case (Cons p B)
      then show ?thesis using queue_pop_records [OF q1(2) Cons] q1(3) x True by auto
    qed
    have "release_usage t u q (ub, counts) = relock_loop x q2 (ub, counts)"
      using q1(1) x True by (simp add: release_usage_def unlock_def)
    moreover obtain P B q' where P: "blocked_usages q = P @ B" "P = [] \<longleftrightarrow> x = None"
      "relock_loop x q2 (ub, counts) =
         Ok (q', ub @ map snd (filter (\<lambda>p. counts (self_ref (snd p)) = 1) P),
             \<lambda>r. if r \<in> self_ref ` snd ` set P then counts r - 1 else counts r)"
      "records_holders cap (set P) q'" "blocked_usages q' = B"
      "x \<noteq> None \<longrightarrow> compatible (set P) \<and> (B \<noteq> [] \<and> (\<forall>h\<in>set P. fst h = Readonly) \<longrightarrow> fst (hd B) = Writable)"
      using relock_loop_spec [of cap "{}" q2 x "blocked_usages q" counts ub] x2 assms(5-8)
      by (auto simp: image_Un intro: inj_on_subset split: option.splits)
    moreover have "admissible strict rank Z (set P) B"
    proof (cases x)
      case None
      have "blocked_usages q = []"
      proof (rule ccontr)
        assume "blocked_usages q \<noteq> []"
        then obtain p B where "blocked_usages q1 = p # B" using q1(3) by (cases "blocked_usages q") auto
        then show False using queue_pop_records [OF q1(2)] x None by auto
      qed
      then show ?thesis using P(1) by (simp add: admissible_def compatible_def)
    next
      case (Some p)
      then show ?thesis
        using assms(2) P(1,2,6) by (auto simp: admissible_def sorted_wrt_append)
    qed
    ultimately show ?thesis using True by (intro exI [of _ P] exI [of _ B] exI [of _ q']) simp
  qed
qed

section \<open>Locking an address\<close>

lemma hd_least:
  fixes f :: "'a \<Rightarrow> nat"
  assumes "sorted_wrt (<) (map f xs)" and "w \<in> set xs" and "\<forall>x\<in>set xs. f w \<le> f x"
  shows "hd xs = w"
  using assms by (cases xs) force+

lemma admissibleI:
  assumes "compatible H" and "sorted_wrt (<) (map (rank \<circ> snd) B)" and "H = {} \<Longrightarrow> B = []"
    and "B \<noteq> [] \<Longrightarrow> \<forall>h\<in>H. fst h = Readonly \<Longrightarrow>
           \<exists>w\<in>set B. fst w = Writable \<and> (\<forall>b\<in>set B. rank (snd w) \<le> rank (snd b))"
    and "\<And>h b. h \<in> H \<Longrightarrow> b \<in> set B \<Longrightarrow> rank (snd h) < rank (snd b) \<or> \<not> strict \<and> snd h \<in> Z"
  shows "admissible strict rank Z H B"
proof -
  have "fst (hd B) = Writable" if readers: "B \<noteq> []" "\<forall>h\<in>H. fst h = Readonly"
  proof -
    obtain w where w: "w \<in> set B" "fst w = Writable" "\<forall>b\<in>set B. rank (snd w) \<le> rank (snd b)"
      using assms(4) [OF readers] by blast
    then show ?thesis using hd_least [OF assms(2) w(1)] by simp
  qed
  then show ?thesis using assms(1,2,3,5) by (simp add: admissible_def)
qed

lemma try_lock_refuses:
  assumes "records_holders cap H q" and "H \<noteq> {}" and "\<not> (u = Readonly \<and> (\<forall>h\<in>H. fst h = Readonly))"
  shows "try_lock t u q = Ok (Inl (), q)"
  using assms by (cases u; cases q; cases cap) (auto split: option.splits Usage.splits)

lemma reblock_readers_spec:
  assumes "readers_ok m" and "priority_queue_ok b"
    and "fst ` set m \<inter> task_id ` snd ` set (map snd b) = {}"
    and "distinct (map (self_ref \<circ> snd) m)" and "\<forall>x\<in>set m. unat (counts (self_ref (snd x))) + 1 < 2 ^ 32"
  shows "\<exists>b'. reblock_readers lo m b counts =
      Ok (filter (\<lambda>x. fst x < lo \<or> counts (self_ref (snd x)) = 0) m, b',
          \<lambda>r. if r \<in> self_ref ` snd ` {x \<in> set m. \<not> (fst x < lo \<or> counts (self_ref (snd x)) = 0)}
               then counts r + 1 else counts r) \<and>
    priority_queue_ok b' \<and>
    set (map snd b') = set (map snd b) \<union>
      Pair Readonly ` snd ` {x \<in> set m. \<not> (fst x < lo \<or> counts (self_ref (snd x)) = 0)}"
  using assms
proof (induction m arbitrary: b counts)
  case (Cons x m)
  obtain k t where x: "x = (k, t)" by (cases x)
  have ok: "readers_ok m" using Cons.prems(1) by (simp add: readers_ok_def)
  have "sorted_wrt (<) (map fst (x # m))" using Cons.prems(1) by (simp only: readers_ok_def)
  then have "\<forall>y\<in>set m. k < fst y" by (simp add: x)
  moreover have "k = task_id t" using Cons.prems(1) by (simp add: readers_ok_def x)
  ultimately have kt: "k = task_id t" "k \<notin> fst ` set m" by auto
  have ref: "self_ref (snd y) \<noteq> self_ref t" if "y \<in> set m" for y using Cons.prems(4) that by (force simp: x)
  have rest: "fst ` set m \<inter> task_id ` snd ` set (map snd b) = {}" "distinct (map (self_ref \<circ> snd) m)"
    "\<forall>x\<in>set m. unat (counts (self_ref (snd x))) + 1 < 2 ^ 32"
    using Cons.prems(3-5) by (auto simp del: o_apply)
  show ?case
  proof (cases "k < lo \<or> counts (self_ref t) = 0")
    case True
    obtain b' where "reblock_readers lo m b counts =
      Ok (filter (\<lambda>x. fst x < lo \<or> counts (self_ref (snd x)) = 0) m, b',
          \<lambda>r. if r \<in> self_ref ` snd ` {x \<in> set m. \<not> (fst x < lo \<or> counts (self_ref (snd x)) = 0)}
               then counts r + 1 else counts r)" "priority_queue_ok b'"
      "set (map snd b') = set (map snd b) \<union>
      Pair Readonly ` snd ` {x \<in> set m. \<not> (fst x < lo \<or> counts (self_ref (snd x)) = 0)}"
      using Cons.IH [OF ok Cons.prems(2) rest] by blast
    moreover have "{y \<in> set (x # m). \<not> (fst y < lo \<or> counts (self_ref (snd y)) = 0)} =
        {y \<in> set m. \<not> (fst y < lo \<or> counts (self_ref (snd y)) = 0)}"
      using True by (auto simp: x)
    ultimately show ?thesis using True by (auto simp: x try_reblock_def)
  next
    case False
    define counts1 where "counts1 = counts(self_ref t := counts (self_ref t) + 1)"
    have "counts (self_ref t) \<noteq> - 1" using below_max Cons.prems(5) by (simp add: x)
    then have reblock: "try_reblock t counts = Ok (True, counts1)"
      using False by (simp add: try_reblock_def increment_def counts1_def)
    obtain b1 where b1: "insert_usage_from_task (Readonly, t) b = Ok b1" "priority_queue_ok b1"
      "set (map snd b1) = insert (Readonly, t) (set (map snd b))"
      using insert_usage_fresh [OF Cons.prems(2), of t Readonly] Cons.prems(3) kt(1) by (auto simp: x)
    have same: "counts1 (self_ref (snd y)) = counts (self_ref (snd y))" if "y \<in> set m" for y
      using ref [OF that] by (simp add: counts1_def)
    define M where "M = {y \<in> set m. \<not> (fst y < lo \<or> counts (self_ref (snd y)) = 0)}"
    have M1: "{y \<in> set m. \<not> (fst y < lo \<or> counts1 (self_ref (snd y)) = 0)} = M" using same by (auto simp: M_def)
    have f1: "filter (\<lambda>y. fst y < lo \<or> counts1 (self_ref (snd y)) = 0) m =
        filter (\<lambda>y. fst y < lo \<or> counts (self_ref (snd y)) = 0) m"
      using same by (intro filter_cong) simp_all
    have "fst ` set m \<inter> task_id ` snd ` set (map snd b1) = {}"
      unfolding b1(3) using Cons.prems(3) kt by (auto simp: x)
    moreover have "\<forall>y\<in>set m. unat (counts1 (self_ref (snd y))) + 1 < 2 ^ 32"
      using Cons.prems(5) same by (simp add: x)
    moreover note rest(2)
    ultimately obtain b' where b': "reblock_readers lo m b1 counts1 =
      Ok (filter (\<lambda>y. fst y < lo \<or> counts (self_ref (snd y)) = 0) m, b',
          \<lambda>r. if r \<in> self_ref ` snd ` M then counts1 r + 1 else counts1 r)" "priority_queue_ok b'"
      "set (map snd b') = set (map snd b1) \<union> Pair Readonly ` snd ` M"
      using Cons.IH [OF ok b1(2), of counts1] unfolding M1 f1 by blast
    have split: "{y \<in> set (x # m). \<not> (fst y < lo \<or> counts (self_ref (snd y)) = 0)} = insert (k, t) M"
      using False by (auto simp: x M_def)
    have "self_ref t \<notin> self_ref ` snd ` M" using ref by (force simp: M_def)
    then have "(\<lambda>r. if r \<in> self_ref ` snd ` M then counts1 r + 1 else counts1 r) =
        (\<lambda>r. if r \<in> self_ref ` snd ` insert (k, t) M then counts r + 1 else counts r)"
      by (intro ext) (auto simp: counts1_def)
    then show ?thesis
      unfolding split using False reblock b1 b' by (auto simp: x)
  qed
qed simp

text \<open>
  The effect of locking an address for a new task: the holders in \<open>R\<close>, which all come after the new task and are
  not in \<open>Z\<close>, are made to wait again, and the new task joins the holders or the waiters.
\<close>

definition lock_effect ::
  "bool \<Rightarrow> (('k, 'h) TaskInner \<Rightarrow> nat) \<Rightarrow> ('k, 'h) TaskInner set \<Rightarrow> ('k, 'h) UsageFromTask \<Rightarrow>
   ('k, 'h) UsageFromTask set \<Rightarrow> ('k, 'h) UsageFromTask list \<Rightarrow> ('k, 'h) UsageFromTask set \<Rightarrow>
   ('k, 'h) UsageFromTask set \<Rightarrow> ('k, 'h) UsageFromTask list \<Rightarrow> bool \<Rightarrow> bool" where
  "lock_effect strict rank Z new H B R H' B' granted \<longleftrightarrow>
     R \<subseteq> H \<and> snd ` R \<inter> Z = {} \<and> admissible strict rank Z H' B' \<and>
     (if granted then H' = insert new (H - R) \<and> set B' = set B \<union> R
      else H' = H - R \<and> set B' = insert new (set B \<union> R))"

text \<open>A new task: it is not yet at the address, and no task there has its rank.\<close>

definition new_at ::
  "Capability \<Rightarrow> (('k, 'h) TaskInner \<Rightarrow> nat) \<Rightarrow> ('k, 'h) TaskInner \<Rightarrow> ('k, 'h) UsageFromTask set \<Rightarrow> bool" where
  "new_at cap arrival new U \<longleftrightarrow>
     (\<forall>x\<in>U. queue_rank cap arrival (snd x) \<noteq> queue_rank cap arrival new \<and>
            (cap = FifoQueueing \<longrightarrow> arrival (snd x) < arrival new))"

lemma new_at_ids: "new_at PriorityQueueing arrival new U \<Longrightarrow> task_id new \<notin> task_id ` snd ` U"
  by (auto simp: new_at_def)

lemma lock_or_block_grants:
  assumes "prepare_lock new u q counts = Ok (Inr (), q1, counts1)" and "records_holders cap H q1"
    and "H = {} \<or> u = Readonly \<and> (\<forall>h\<in>H. fst h = Readonly)" and "card H + 1 < 2 ^ 32"
    and "new_at cap arrival new H"
  shows "\<exists>q'. lock_or_block new u q (c, counts) = Ok (q', c, counts1) \<and>
              records_holders cap (insert (u, new) H) q' \<and> blocked_usages q' = blocked_usages q1"
proof -
  have "(u, new) \<notin> H" using assms(5) by (auto simp: new_at_def)
  then obtain q' where "try_lock new u q1 = Ok (Inr (), q')" "records_holders cap (insert (u, new) H) q'"
    "blocked_usages q' = blocked_usages q1"
    using try_lock_grants [OF assms(2,3) _ assms(4)] new_at_ids assms(5) by blast
  then show ?thesis using assms(1) by (simp add: lock_or_block_def)
qed

lemma lock_or_block_blocks:
  assumes "prepare_lock new u q counts = Ok (r, q1, counts1)"
    and "r = Inl () \<or> \<not> (u = Readonly \<and> (\<forall>h\<in>H. fst h = Readonly))"
    and "records_holders cap H q1" and "H \<noteq> {}" and "unat c + 1 < 2 ^ 32"
    and "sorted_wrt (<) (map (queue_rank cap arrival \<circ> snd) (blocked_usages q1))"
    and "new_at cap arrival new (set (blocked_usages q1))"
  shows "\<exists>q'. lock_or_block new u q (c, counts) = Ok (q', c + 1, counts1) \<and> records_holders cap H q' \<and>
              set (blocked_usages q') = insert (u, new) (set (blocked_usages q1)) \<and>
              sorted_wrt (<) (map (queue_rank cap arrival \<circ> snd) (blocked_usages q'))"
proof -
  have "task_id new \<notin> task_id ` snd ` set (blocked_usages q1)" if "cap = PriorityQueueing"
    using new_at_ids assms(7) that by blast
  moreover have "\<forall>b\<in>set (blocked_usages q1). arrival (snd b) < arrival new" if "cap = FifoQueueing"
    using assms(7) that by (simp add: new_at_def)
  ultimately obtain q' where q': "push_blocked (u, new) q1 = Ok q'" "records_holders cap H q'"
    "set (blocked_usages q') = insert (u, new) (set (blocked_usages q1))"
    "sorted_wrt (<) (map (queue_rank cap arrival \<circ> snd) (blocked_usages q'))"
    using push_blocked_records [OF assms(3,4) _ assms(6), of new u] by blast
  have "(case r of Inl _ \<Rightarrow> Ok (Inl (), q1) | Inr _ \<Rightarrow> try_lock new u q1) = Ok (Inl (), q1)"
    using try_lock_refuses [OF assms(3,4)] assms(2) by (cases r) auto
  then have "lock_or_block new u q (c, counts) = Ok (q', c + 1, counts1)"
    using assms(1) q'(1) below_max [OF assms(5)] by (simp add: lock_or_block_def increment_def)
  then show ?thesis using q' by auto
qed

text \<open>The two cases of \<open>prepare_lock\<close>.\<close>

lemma fifo_lock_law:
  assumes "records_holders FifoQueueing H q" and "admissible True arrival Z H (blocked_usages q)"
    and "new_at FifoQueueing arrival new (H \<union> set (blocked_usages q))"
    and "card H + 1 < 2 ^ 32" and "unat c + 1 < 2 ^ 32"
  shows "\<exists>q' H' granted. lock_or_block new u q (c, counts) = Ok (q', if granted then c else c + 1, counts) \<and>
     records_holders FifoQueueing H' q' \<and>
     lock_effect True arrival Z (u, new) H (blocked_usages q) {} H' (blocked_usages q') granted"
proof -
  obtain current blocked where q: "q = Fifo current blocked" using assms(1) by (cases q) auto
  define free where "free \<longleftrightarrow> blocked = [] \<and> (H = {} \<or> u = Readonly \<and> (\<forall>h\<in>H. fst h = Readonly))"
  have prep: "prepare_lock new u q counts = Ok (if blocked = [] then Inr () else Inl (), q, counts)"
    by (simp add: q)
  have new: "new_at FifoQueueing arrival new H" "new_at FifoQueueing arrival new (set (blocked_usages q))"
    using assms(3) by (simp_all add: new_at_def)
  have rank: "queue_rank FifoQueueing arrival = arrival" by (rule ext) simp
  show ?thesis
  proof (cases free)
    case True
    then have "prepare_lock new u q counts = Ok (Inr (), q, counts)" using prep by (simp add: free_def)
    then obtain q' where q': "lock_or_block new u q (c, counts) = Ok (q', c, counts)"
      "records_holders FifoQueueing (insert (u, new) H) q'" "blocked_usages q' = blocked_usages q"
      using lock_or_block_grants [OF _ assms(1) _ assms(4) new(1), of u q counts counts c] True
      unfolding free_def by blast
    have "admissible True arrival Z (insert (u, new) H) (blocked_usages q')"
      using True q'(3) by (auto simp: free_def admissible_def compatible_def q)
    then show ?thesis
      using q' by (intro exI [of _ q'] exI [of _ "insert (u, new) H"] exI [of _ True]) (simp add: lock_effect_def)
  next
    case False
    then have held: "H \<noteq> {}" using assms(2) by (auto simp: free_def admissible_def q)
    obtain q' where q': "lock_or_block new u q (c, counts) = Ok (q', c + 1, counts)"
      "records_holders FifoQueueing H q'" "set (blocked_usages q') = insert (u, new) (set (blocked_usages q))"
      "sorted_wrt (<) (map (arrival \<circ> snd) (blocked_usages q'))"
      using lock_or_block_blocks [OF prep _ assms(1) held assms(5) _ new(2)] False assms(2)
      by (auto simp: free_def admissible_def rank)
    have "admissible True arrival Z H (blocked_usages q')"
    proof (rule admissibleI)
      show "\<exists>w\<in>set (blocked_usages q'). fst w = Writable \<and> (\<forall>b\<in>set (blocked_usages q'). arrival (snd w) \<le> arrival (snd b))"
        if "\<forall>h\<in>H. fst h = Readonly"
      proof (cases blocked)
        case Nil
        then have "u = Writable" using False that by (cases u) (auto simp: free_def)
        then show ?thesis using q'(3) Nil by (simp add: q)
      next
        case (Cons w B)
        then have "fst w = Writable" "\<forall>b\<in>set B. arrival (snd w) < arrival (snd b)"
          using assms(2) that by (auto simp: admissible_def q)
        moreover have "arrival (snd w) < arrival new" using new(2) Cons by (simp add: new_at_def q)
        ultimately show ?thesis using q'(3) Cons by (auto simp: q)
      qed
      show "arrival (snd h) < arrival (snd b) \<or> \<not> True \<and> snd h \<in> Z" if "h \<in> H" "b \<in> set (blocked_usages q')" for h b
        using that q'(3) assms(2) new(1) by (auto simp: admissible_def new_at_def)
    qed (use assms(2) q'(4) held in \<open>auto simp: admissible_def\<close>)
    then show ?thesis
      using q' by (intro exI [of _ q'] exI [of _ H] exI [of _ False]) (simp add: lock_effect_def)
  qed
qed


text \<open>Priority queues: the usages that \<open>prepare_lock\<close> takes back depend on the current usage.\<close>

lemma priority_lock_free:
  assumes "records_holders PriorityQueueing {} q" and "blocked_usages q = []"
  shows "prepare_lock new u q counts = Ok (Inr (), q, counts)"
  using assms by (cases q) (auto split: option.splits Usage.splits)

lemma priority_lock_writer:
  assumes "records_holders PriorityQueueing {(Writable, w)} q" and "\<not> unat (task_id new) < unat (task_id w) \<or> counts (self_ref w) = 0"
    and "task_id new \<noteq> task_id w"
  shows "prepare_lock new u q counts = Ok (Inl (), q, counts)"
proof -
  obtain blocked where "q = Priority (Some (CurrentWritable w)) blocked"
    using assms(1) by (cases q) (auto split: option.splits Usage.splits)
  then show ?thesis
    using assms(2,3) by (auto simp: is_higher_priority_def try_reblock_def word_less_nat_alt word_unat_eq_iff)
qed

lemma priority_lock_over_writer:
  assumes "records_holders PriorityQueueing {(Writable, w)} q" and "unat (task_id new) < unat (task_id w)"
    and "counts (self_ref w) \<noteq> 0" and "unat (counts (self_ref w)) + 1 < 2 ^ 32"
    and "task_id w \<notin> task_id ` snd ` set (blocked_usages q)"
  shows "\<exists>q1. prepare_lock new u q counts = Ok (Inr (), q1, counts(self_ref w := counts (self_ref w) + 1)) \<and>
              records_holders PriorityQueueing {} q1 \<and>
              set (blocked_usages q1) = insert (Writable, w) (set (blocked_usages q))"
proof -
  obtain blocked where q: "q = Priority (Some (CurrentWritable w)) blocked" "priority_queue_ok blocked"
    using assms(1) by (cases q) (auto split: option.splits Usage.splits)
  obtain m' where "insert_usage_from_task (Writable, w) blocked = Ok m'" "priority_queue_ok m'"
    "set (map snd m') = insert (Writable, w) (set (map snd blocked))"
    using insert_usage_fresh [OF q(2), of w Writable] assms(5) q(1) by auto
  then show ?thesis
    using assms(2,3) below_max [OF assms(4)]
    by (auto simp: q is_higher_priority_def try_reblock_def increment_def word_less_nat_alt)
qed

lemma priority_lock_reader:
  assumes "records_holders PriorityQueueing H q" and "H \<noteq> {}" and "\<forall>h\<in>H. fst h = Readonly"
    and "blocked_usages q \<noteq> [] \<Longrightarrow> fst (hd (blocked_usages q)) = Writable"
    and "task_id new \<notin> task_id ` snd ` set (blocked_usages q)"
  shows "prepare_lock new Readonly q counts =
     Ok (if blocked_usages q = [] \<or> unat (task_id new) < unat (task_id (snd (hd (blocked_usages q)))) then Inr () else Inl (),
         q, counts)"
proof -
  obtain tasks blocked where q: "q = Priority (Some (CurrentReadonly tasks)) blocked"
    using assms(1,2,3) by (cases q) (auto split: option.splits Usage.splits)
  show ?thesis
  proof (cases blocked)
    case Nil
    then show ?thesis by (simp add: q)
  next
    case (Cons x m)
    obtain k u t where x: "x = (k, u, t)" by (cases x)
    have "u = Writable" "task_id new \<noteq> task_id t" using assms(4,5) by (auto simp: q Cons x)
    then show ?thesis by (auto simp: q Cons x is_higher_priority_def word_less_nat_alt word_unat_eq_iff)
  qed
qed

lemma priority_lock_over_readers:
  fixes new :: "('k, 'h) TaskInner"
  assumes "records_holders PriorityQueueing H q" and "H \<noteq> {}" and "\<forall>h\<in>H. fst h = Readonly"
    and "inj_on task_id (snd ` (H \<union> set (blocked_usages q)))" and "snd ` H \<inter> snd ` set (blocked_usages q) = {}"
    and "inj_on self_ref (snd ` H)" and "\<forall>h\<in>H. unat (counts (self_ref (snd h))) + 1 < 2 ^ 32"
  defines "R \<equiv> {h \<in> H. unat (task_id new) \<le> unat (task_id (snd h)) \<and> counts (self_ref (snd h)) \<noteq> 0}"
  shows "\<exists>q1. prepare_lock new Writable q counts =
      Ok (if R = H then Inr () else Inl (), q1, \<lambda>r. if r \<in> self_ref ` snd ` R then counts r + 1 else counts r) \<and>
    records_holders PriorityQueueing (H - R) q1 \<and> set (blocked_usages q1) = set (blocked_usages q) \<union> R"
proof -
  obtain m blocked where q: "q = Priority (Some (CurrentReadonly m)) blocked" "priority_queue_ok blocked" "readers_ok m"
    "H = Pair Readonly ` snd ` set m"
    using assms(1,2,3) by (cases q) (auto split: option.splits Usage.splits)
  let ?keep = "\<lambda>x. fst x < task_id new \<or> counts (self_ref (snd x)) = 0"
  have keys: "fst x = task_id (snd x)" if "x \<in> set m" for x using q(3) that by (simp add: readers_ok_def)
  have R: "R = Pair Readonly ` snd ` {x \<in> set m. \<not> ?keep x}"
    unfolding R_def q(4) using keys by (force simp: word_less_nat_alt not_less)
  have HR: "H - R = Pair Readonly ` snd ` set (filter ?keep m)"
    unfolding R_def q(4) using keys by (force simp: word_less_nat_alt not_less)
  have all: "R = H \<longleftrightarrow> filter ?keep m = []"
    using HR R_def by (auto simp: filter_empty_conv)
  have "fst ` set m \<inter> task_id ` snd ` set (map snd blocked) = {}"
  proof -
    have "fst ` set m = task_id ` snd ` H" unfolding q(4) image_image using keys by (intro image_cong) simp_all
    moreover have "task_id ` snd ` H \<inter> task_id ` snd ` set (blocked_usages q) = {}"
      using assms(4,5) inj_on_image_Int [OF assms(4), of "snd ` H" "snd ` set (blocked_usages q)"] by (simp add: image_Un)
    ultimately show ?thesis by (simp add: q(1))
  qed
  moreover have "distinct (map (self_ref \<circ> snd) m)"
  proof -
    have "distinct (map fst m)" using q(3) by (simp add: readers_ok_def strict_sorted_iff)
    then have "distinct m" by (simp add: distinct_map)
    moreover have "inj_on snd (set m)" using keys by (intro inj_onI) (metis prod_eqI)
    moreover have "inj_on self_ref (snd ` set m)" using assms(6) by (simp add: q(4) image_image)
    ultimately show ?thesis by (simp add: distinct_map comp_inj_on)
  qed
  moreover have "\<forall>x\<in>set m. unat (counts (self_ref (snd x))) + 1 < 2 ^ 32" using assms(7) q(4) by simp
  ultimately obtain b' where b': "reblock_readers (task_id new) m blocked counts =
      Ok (filter ?keep m, b', \<lambda>r. if r \<in> self_ref ` snd ` {x \<in> set m. \<not> ?keep x} then counts r + 1 else counts r)"
    "priority_queue_ok b'" "set (map snd b') = set (map snd blocked) \<union> Pair Readonly ` snd ` {x \<in> set m. \<not> ?keep x}"
    using reblock_readers_spec [OF q(3,2), of counts "task_id new"] by blast
  have refs: "self_ref ` snd ` R = self_ref ` snd ` {x \<in> set m. \<not> ?keep x}" unfolding R by (simp add: image_image)
  have ok: "readers_ok (filter ?keep m)" using q(3) by (auto simp: readers_ok_def sorted_wrt_filter filter_map [symmetric] sorted_wrt_map)
  show ?thesis
  proof (cases "filter ?keep m = []")
    case True
    then show ?thesis using b' all HR unfolding refs by (simp add: q(1) R)
  next
    case False
    then show ?thesis using b' all HR ok unfolding refs by (simp add: q(1) R)
  qed
qed

lemma priority_records_sorted:
  "records_holders PriorityQueueing H q \<Longrightarrow>
     sorted_wrt (<) (map (queue_rank PriorityQueueing arrival \<circ> snd) (blocked_usages q))"
  using priority_queue_sorted by (cases q) auto

text \<open>What \<open>prepare_lock\<close> leaves is enough to lock or to wait.\<close>

abbreviation increments ::
  "('k, 'h) UsageFromTask set \<Rightarrow> count_cells \<Rightarrow> count_cells" where
  "increments R counts \<equiv> (\<lambda>r. if r \<in> self_ref ` snd ` R then counts r + 1 else counts r)"

definition priority_id :: "('k, 'h) TaskInner \<Rightarrow> nat" where
  "priority_id t = unat (task_id t)"

lemma queue_rank_priority: "queue_rank PriorityQueueing arrival = priority_id"
  by (rule ext) (simp add: priority_id_def)

lemma priority_grant:
  assumes "prepare_lock new u q counts = Ok (Inr (), q1, increments R counts)"
    and "records_holders PriorityQueueing (H - R) q1" and "set (blocked_usages q1) = set B \<union> R"
    and "H - R = {} \<or> u = Readonly \<and> (\<forall>h\<in>H - R. fst h = Readonly)" and "card (H - R) + 1 < 2 ^ 32"
    and "new_at PriorityQueueing arrival new H" and "R \<subseteq> H" and "snd ` R \<inter> Z = {}"
    and "\<And>h b. h \<in> H - R \<Longrightarrow> b \<in> set B \<union> R \<Longrightarrow> priority_id (snd h) < priority_id (snd b) \<or> snd h \<in> Z"
    and "\<And>b. b \<in> set B \<union> R \<Longrightarrow> priority_id new < priority_id (snd b)"
    and "u = Readonly \<Longrightarrow> set B \<union> R \<noteq> {} \<Longrightarrow>
           \<exists>w\<in>set B \<union> R. fst w = Writable \<and> (\<forall>b\<in>set B \<union> R. priority_id (snd w) \<le> priority_id (snd b))"
  shows "\<exists>q' R H' granted. lock_or_block new u q (c, counts) = Ok (q', if granted then c else c + 1, increments R counts) \<and>
     records_holders PriorityQueueing H' q' \<and> lock_effect False priority_id Z (u, new) H B R H' (blocked_usages q') granted"
proof -
  have "new_at PriorityQueueing arrival new (H - R)" using assms(6) by (simp add: new_at_def)
  then obtain q' where q': "lock_or_block new u q (c, counts) = Ok (q', c, increments R counts)"
    "records_holders PriorityQueueing (insert (u, new) (H - R)) q'" "blocked_usages q' = blocked_usages q1"
    using lock_or_block_grants [OF assms(1,2,4,5)] by blast
  have "admissible False priority_id Z (insert (u, new) (H - R)) (blocked_usages q')"
  proof (rule admissibleI)
    show "compatible (insert (u, new) (H - R))" using assms(4) by (auto simp: compatible_def)
    show "sorted_wrt (<) (map (priority_id \<circ> snd) (blocked_usages q'))"
      using priority_records_sorted [OF q'(2)] by (simp only: queue_rank_priority)
    show "\<exists>w\<in>set (blocked_usages q'). fst w = Writable \<and>
        (\<forall>b\<in>set (blocked_usages q'). priority_id (snd w) \<le> priority_id (snd b))"
      if "blocked_usages q' \<noteq> []" "\<forall>h\<in>insert (u, new) (H - R). fst h = Readonly"
      using assms(11) that unfolding q'(3) set_empty [symmetric] assms(3) by simp
    show "priority_id (snd h) < priority_id (snd b) \<or> \<not> False \<and> snd h \<in> Z"
      if "h \<in> insert (u, new) (H - R)" "b \<in> set (blocked_usages q')" for h b
    proof (cases "h = (u, new)")
      case True
      then show ?thesis using assms(10) [of b] that(2) by (simp add: q'(3) assms(3))
    next
      case False
      then show ?thesis using assms(9) [of h b] that by (simp add: q'(3) assms(3))
    qed
  qed simp
  then show ?thesis
    using q' assms(3,7,8)
    by (intro exI [of _ q'] exI [of _ R] exI [of _ "insert (u, new) (H - R)"] exI [of _ True]) (simp add: lock_effect_def)
qed

lemma priority_block:
  assumes "prepare_lock new u q counts = Ok (Inl (), q1, increments R counts)"
    and "records_holders PriorityQueueing (H - R) q1" and "set (blocked_usages q1) = set B \<union> R"
    and "H - R \<noteq> {}" and "compatible H" and "unat c + 1 < 2 ^ 32"
    and "new_at PriorityQueueing arrival new (set B \<union> R)" and "R \<subseteq> H" and "snd ` R \<inter> Z = {}"
    and "\<And>h b. h \<in> H - R \<Longrightarrow> b \<in> insert (u, new) (set B \<union> R) \<Longrightarrow> priority_id (snd h) < priority_id (snd b) \<or> snd h \<in> Z"
    and "\<forall>h\<in>H - R. fst h = Readonly \<Longrightarrow>
           \<exists>w\<in>insert (u, new) (set B \<union> R). fst w = Writable \<and>
             (\<forall>b\<in>insert (u, new) (set B \<union> R). priority_id (snd w) \<le> priority_id (snd b))"
  shows "\<exists>q' R H' granted. lock_or_block new u q (c, counts) = Ok (q', if granted then c else c + 1, increments R counts) \<and>
     records_holders PriorityQueueing H' q' \<and> lock_effect False priority_id Z (u, new) H B R H' (blocked_usages q') granted"
proof -
  obtain q' where q': "lock_or_block new u q (c, counts) = Ok (q', c + 1, increments R counts)"
    "records_holders PriorityQueueing (H - R) q'" "set (blocked_usages q') = insert (u, new) (set B \<union> R)"
    using lock_or_block_blocks [OF assms(1) _ assms(2,4,6) priority_records_sorted [OF assms(2)], of arrival] assms(3,7)
    by auto
  have "admissible False priority_id Z (H - R) (blocked_usages q')"
  proof (rule admissibleI)
    show "compatible (H - R)" using assms(4,5) by (auto simp: compatible_def)
    show "sorted_wrt (<) (map (priority_id \<circ> snd) (blocked_usages q'))"
      using priority_records_sorted [OF q'(2)] by (simp only: queue_rank_priority)
  qed (use assms(4,10,11) in \<open>simp_all only: q'(3), blast+\<close>)
  then show ?thesis
    using q' assms(8,9)
    by (intro exI [of _ q'] exI [of _ R] exI [of _ "H - R"] exI [of _ False]) (simp add: lock_effect_def)
qed

text \<open>What the lock law assumes of the tasks at an address.\<close>

definition distinguishable :: "Capability \<Rightarrow> ('k, 'h) UsageFromTask set \<Rightarrow> bool" where
  "distinguishable cap U \<longleftrightarrow> inj_on self_ref (snd ` U) \<and> (cap = PriorityQueueing \<longrightarrow> inj_on task_id (snd ` U))"

definition counts_show ::
  "('k, 'h) TaskInner set \<Rightarrow> count_cells \<Rightarrow> ('k, 'h) UsageFromTask set \<Rightarrow> bool" where
  "counts_show Z counts H \<longleftrightarrow>
     (\<forall>h\<in>H. (snd h \<in> Z \<longleftrightarrow> counts (self_ref (snd h)) = 0) \<and> unat (counts (self_ref (snd h))) + 1 < 2 ^ 32)"

definition ready_to_lock ::
  "Capability \<Rightarrow> (('k, 'h) TaskInner \<Rightarrow> nat) \<Rightarrow> ('k, 'h) TaskInner set \<Rightarrow> ('k, 'h) UsageFromTask set \<Rightarrow>
   ('k, 'h) UsageQueueInner \<Rightarrow> ('k, 'h) TaskInner \<Rightarrow> count_cells \<Rightarrow> bool" where
  "ready_to_lock cap arrival Z H q new counts \<longleftrightarrow>
     records_holders cap H q \<and>
     admissible (cap = FifoQueueing) (queue_rank cap arrival) Z H (blocked_usages q) \<and>
     new_at cap arrival new (H \<union> set (blocked_usages q)) \<and>
     distinguishable cap (H \<union> set (blocked_usages q)) \<and> snd ` H \<inter> snd ` set (blocked_usages q) = {} \<and>
     finite H \<and> card H + 1 < 2 ^ 32 \<and> counts_show Z counts H"

lemma priority_readyD:
  assumes "ready_to_lock PriorityQueueing arrival Z H q new counts"
  shows "records_holders PriorityQueueing H q" "admissible False priority_id Z H (blocked_usages q)"
    "new_at PriorityQueueing arrival new H" "new_at PriorityQueueing arrival new (set (blocked_usages q))"
    "x \<in> H \<union> set (blocked_usages q) \<Longrightarrow> priority_id (snd x) \<noteq> priority_id new"
    "h \<in> H \<Longrightarrow> b \<in> set (blocked_usages q) \<Longrightarrow> priority_id (snd h) < priority_id (snd b) \<or> snd h \<in> Z"
    "h \<in> H \<Longrightarrow> snd h \<in> Z \<longleftrightarrow> counts (self_ref (snd h)) = 0"
    "h \<in> H \<Longrightarrow> unat (counts (self_ref (snd h))) + 1 < 2 ^ 32"
    "card (H - R) + 1 < 2 ^ 32"
    "inj_on task_id (snd ` (H \<union> set (blocked_usages q)))" "inj_on self_ref (snd ` H)"
    "snd ` H \<inter> snd ` set (blocked_usages q) = {}"
  using assms card_mono [of H "H - R"]
  unfolding ready_to_lock_def queue_rank_priority new_at_def distinguishable_def counts_show_def
  by (auto simp: admissible_def priority_id_def image_Un inj_on_Un)

text \<open>The four ways in which a priority queue answers a new task.\<close>

lemma priority_lock_law_free:
  assumes "ready_to_lock PriorityQueueing arrival Z H q new counts" and "H = {}"
  shows "\<exists>q' R H' granted. lock_or_block new u q (c, counts) = Ok (q', if granted then c else c + 1, increments R counts) \<and>
     records_holders PriorityQueueing H' q' \<and>
     lock_effect False priority_id Z (u, new) H (blocked_usages q) R H' (blocked_usages q') granted"
proof -
  note ready = priority_readyD [OF assms(1)]
  have "blocked_usages q = []" using ready(2) assms(2) by (simp add: admissible_def)
  then show ?thesis
    using priority_grant [of new u q counts q "{}" H "blocked_usages q"] priority_lock_free [of q new u counts]
      ready(1,3,9) assms(2) by simp
qed

lemma priority_lock_law_writer:
  assumes "ready_to_lock PriorityQueueing arrival Z H q new counts" and "H = {(Writable, w)}"
    and "unat c + 1 < 2 ^ 32"
  shows "\<exists>q' R H' granted. lock_or_block new u q (c, counts) = Ok (q', if granted then c else c + 1, increments R counts) \<and>
     records_holders PriorityQueueing H' q' \<and>
     lock_effect False priority_id Z (u, new) H (blocked_usages q) R H' (blocked_usages q') granted"
proof -
  note ready = priority_readyD [OF assms(1)]
  have w: "w \<in> Z \<longleftrightarrow> counts (self_ref w) = 0" "unat (counts (self_ref w)) + 1 < 2 ^ 32" "priority_id w \<noteq> priority_id new"
    using ready(5,7,8) [of "(Writable, w)"] assms(2) by simp_all
  show ?thesis
  proof (cases "\<not> priority_id new < priority_id w \<or> counts (self_ref w) = 0")
    case True
    have "task_id new \<noteq> task_id w" using w(3) by (auto simp: priority_id_def)
    then have "prepare_lock new u q counts = Ok (Inl (), q, counts)"
      using priority_lock_writer [of w q new counts u] ready(1) assms(2) True by (auto simp: priority_id_def)
    moreover have "priority_id w < priority_id (snd b) \<or> w \<in> Z" if "b \<in> insert (u, new) (set (blocked_usages q))" for b
      using ready(6) [of "(Writable, w)" b] that assms(2) True w by auto
    ultimately show ?thesis
      using priority_block [of new u q counts q "{}" H "blocked_usages q" c arrival Z] ready(1,4) assms(2,3)
      by (simp add: compatible_def)
  next
    case False
    have "task_id w \<notin> task_id ` snd ` set (blocked_usages q)"
      using inj_onD [OF ready(10), of w] ready(12) assms(2) by force
    moreover have "counts(self_ref w := counts (self_ref w) + 1) = increments H counts" using assms(2) by auto
    ultimately obtain q1 where q1: "prepare_lock new u q counts = Ok (Inr (), q1, increments H counts)"
      "records_holders PriorityQueueing {} q1" "set (blocked_usages q1) = insert (Writable, w) (set (blocked_usages q))"
      using priority_lock_over_writer [of w q new counts u] ready(1) False w(2)
      unfolding assms(2) priority_id_def by auto
    have after: "priority_id w < priority_id (snd b)" if "b \<in> set (blocked_usages q)" for b
      using ready(6) [of "(Writable, w)" b] that assms(2) w(1) False by simp
    show ?thesis
    proof (rule priority_grant [of new u q counts q1 H H])
      show "\<exists>x\<in>set (blocked_usages q) \<union> H. fst x = Writable \<and>
          (\<forall>b\<in>set (blocked_usages q) \<union> H. priority_id (snd x) \<le> priority_id (snd b))"
        using after assms(2) by (intro bexI [of _ "(Writable, w)"]) (auto simp: less_imp_le)
      show "priority_id new < priority_id (snd b)" if "b \<in> set (blocked_usages q) \<union> H" for b
        using after [of b] that assms(2) False by auto
    qed (use q1 ready(3,9) assms(2) w(1) False in auto)
  qed
qed

lemma priority_lock_law_reader:
  assumes "ready_to_lock PriorityQueueing arrival Z H q new counts" and "H \<noteq> {}" "\<forall>h\<in>H. fst h = Readonly"
    and "unat c + 1 < 2 ^ 32"
  shows "\<exists>q' R H' granted. lock_or_block new Readonly q (c, counts) = Ok (q', if granted then c else c + 1, increments R counts) \<and>
     records_holders PriorityQueueing H' q' \<and>
     lock_effect False priority_id Z (Readonly, new) H (blocked_usages q) R H' (blocked_usages q') granted"
proof -
  note ready = priority_readyD [OF assms(1)]
  let ?B = "blocked_usages q"
  have first: "fst (hd ?B) = Writable" "\<forall>b\<in>set ?B. priority_id (snd (hd ?B)) \<le> priority_id (snd b)" if "?B \<noteq> []"
    using ready(2) assms(3) that by (cases ?B; auto simp: admissible_def)+
  have prep: "prepare_lock new Readonly q counts =
     Ok (if ?B = [] \<or> priority_id new < priority_id (snd (hd ?B)) then Inr () else Inl (), q, counts)"
    using priority_lock_reader [OF ready(1) assms(2,3) first(1) new_at_ids [OF ready(4)], of counts]
    by (simp add: priority_id_def)
  show ?thesis
  proof (cases "?B = [] \<or> priority_id new < priority_id (snd (hd ?B))")
    case True
    show ?thesis
    proof (rule priority_grant [of new Readonly q counts q "{}" H])
      show "priority_id new < priority_id (snd b)" if "b \<in> set ?B \<union> {}" for b
        using True first(2) that by (cases ?B) force+
      show "\<exists>w\<in>set ?B \<union> {}. fst w = Writable \<and> (\<forall>b\<in>set ?B \<union> {}. priority_id (snd w) \<le> priority_id (snd b))"
        if "set ?B \<union> {} \<noteq> {}"
        using first that by (intro bexI [of _ "hd ?B"]) auto
    qed (use ready(1,3,6) ready(9) [of "{}"] prep True assms(2,3) in auto)
  next
    case False
    have "priority_id (snd (hd ?B)) < priority_id new"
      using False ready(5) [of "hd ?B"] by (simp add: less_le)
    show ?thesis
    proof (rule priority_block [of new Readonly q counts q "{}" H])
      show "priority_id (snd h) < priority_id (snd b) \<or> snd h \<in> Z" if "h \<in> H - {}" "b \<in> insert (Readonly, new) (set ?B \<union> {})" for h b
        using ready(6) [of h b] ready(6) [of h "hd ?B"] False that \<open>priority_id (snd (hd ?B)) < priority_id new\<close> by auto
      show "\<exists>w\<in>insert (Readonly, new) (set ?B \<union> {}). fst w = Writable \<and>
             (\<forall>b\<in>insert (Readonly, new) (set ?B \<union> {}). priority_id (snd w) \<le> priority_id (snd b))"
        using first False \<open>priority_id (snd (hd ?B)) < priority_id new\<close> by (intro bexI [of _ "hd ?B"]) auto
    qed (use ready(1,4) prep False assms(2,3,4) in \<open>auto simp: compatible_def\<close>)
  qed
qed

lemma priority_lock_law_over_readers:
  assumes "ready_to_lock PriorityQueueing arrival Z H q new counts" and "H \<noteq> {}" "\<forall>h\<in>H. fst h = Readonly"
    and "unat c + 1 < 2 ^ 32"
  shows "\<exists>q' R H' granted. lock_or_block new Writable q (c, counts) = Ok (q', if granted then c else c + 1, increments R counts) \<and>
     records_holders PriorityQueueing H' q' \<and>
     lock_effect False priority_id Z (Writable, new) H (blocked_usages q) R H' (blocked_usages q') granted"
proof -
  note ready = priority_readyD [OF assms(1)]
  let ?B = "blocked_usages q"
  define R where "R = {h \<in> H. priority_id new \<le> priority_id (snd h) \<and> counts (self_ref (snd h)) \<noteq> 0}"
  obtain q1 where q1: "prepare_lock new Writable q counts = Ok (if R = H then Inr () else Inl (), q1, increments R counts)"
    "records_holders PriorityQueueing (H - R) q1" "set (blocked_usages q1) = set ?B \<union> R"
    using priority_lock_over_readers [OF ready(1) assms(2,3) ready(10,12,11), of counts new] ready(8)
    by (auto simp: R_def priority_id_def)
  have R: "R \<subseteq> H" "snd ` R \<inter> Z = {}" using ready(7) by (auto simp: R_def)
  have R_after: "priority_id new < priority_id (snd r)" if "r \<in> R" for r
    using that ready(5) [of r] by (auto simp: R_def less_le)
  show ?thesis
  proof (cases "R = H")
    case True
    obtain r where r: "r \<in> R" using assms(2) True by blast
    show ?thesis
    proof (rule priority_grant [of new Writable q counts q1 R H])
      show "priority_id new < priority_id (snd b)" if "b \<in> set ?B \<union> R" for b
      proof (cases "b \<in> R")
        case False
        then have "priority_id (snd r) < priority_id (snd b)" using that ready(6) [of r b] r R by auto
        then show ?thesis using R_after [OF r] by simp
      qed (rule R_after)
    qed (use q1 ready(3) ready(9) [of R] R True in auto)
  next
    case False
    have "\<exists>w\<in>insert (Writable, new) (set ?B \<union> R). fst w = Writable \<and>
             (\<forall>b\<in>insert (Writable, new) (set ?B \<union> R). priority_id (snd w) \<le> priority_id (snd b))"
    proof (cases "?B \<noteq> [] \<and> priority_id (snd (hd ?B)) < priority_id new")
      case True
      then have "fst (hd ?B) = Writable" "\<forall>b\<in>set ?B. priority_id (snd (hd ?B)) \<le> priority_id (snd b)"
        using ready(2) assms(3) by (cases ?B; auto simp: admissible_def)+
      then show ?thesis using True R_after by (intro bexI [of _ "hd ?B"]) (auto dest!: R_after)
    next
      case False
      have "priority_id new \<le> priority_id (snd b)" if "b \<in> set ?B" for b
        using False that ready(2) by (cases ?B) (fastforce simp: admissible_def)+
      then show ?thesis by (intro bexI [of _ "(Writable, new)"]) (auto dest!: R_after)
    qed
    moreover have "priority_id (snd h) < priority_id (snd b) \<or> snd h \<in> Z"
      if "h \<in> H - R" "b \<in> insert (Writable, new) (set ?B \<union> R)" for h b
    proof -
      have "priority_id (snd h) < priority_id new \<or> snd h \<in> Z" using that(1) ready(7) [of h] by (auto simp: R_def)
      then show ?thesis using that ready(6) [of h b] R_after [of b] by auto
    qed
    moreover have "new_at PriorityQueueing arrival new (set ?B \<union> R)"
      using ready(3,4) R(1) by (auto simp: new_at_def)
    ultimately show ?thesis
      using priority_block [of new Writable q counts q1 R H ?B c arrival Z] q1 False R assms(3,4)
      by (auto simp: compatible_def)
  qed
qed

lemma priority_lock_law:
  assumes ready: "ready_to_lock PriorityQueueing arrival Z H q new counts" and "unat c + 1 < 2 ^ 32"
  shows "\<exists>q' R H' granted. lock_or_block new u q (c, counts) = Ok (q', if granted then c else c + 1, increments R counts) \<and>
     records_holders PriorityQueueing H' q' \<and>
     lock_effect False priority_id Z (u, new) H (blocked_usages q) R H' (blocked_usages q') granted"
proof -
  have "compatible H" using priority_readyD(2) [OF ready] by (simp add: admissible_def)
  then consider "H = {}" | w where "H = {(Writable, w)}" | "H \<noteq> {}" "\<forall>h\<in>H. fst h = Readonly"
  proof (cases "\<forall>h\<in>H. fst h = Readonly")
    case False
    then obtain u' w where "H = {(u', w)}" "u' \<noteq> Readonly" using \<open>compatible H\<close> by (auto simp: compatible_def)
    then show ?thesis using that(2) by (cases u') auto
  qed (use that in blast)
  then show ?thesis
  proof cases
    case 3
    then show ?thesis
      using priority_lock_law_reader [OF ready 3 assms(2)] priority_lock_law_over_readers [OF ready 3 assms(2)]
      by (cases u) auto
  qed (use priority_lock_law_free [OF ready] priority_lock_law_writer [OF ready _ assms(2)] in auto)
qed

section \<open>The contract of a usage queue\<close>

text \<open>
  What the scheduler relies on when it locks and releases an address. \<open>strict_order\<close> tells whether a holder
  always comes before every waiter.
\<close>

abbreviation strict_order :: "Capability \<Rightarrow> bool" where
  "strict_order cap \<equiv> cap = FifoQueueing"

definition ready_to_release ::
  "Capability \<Rightarrow> (('k, 'h) TaskInner \<Rightarrow> nat) \<Rightarrow> ('k, 'h) TaskInner set \<Rightarrow> ('k, 'h) UsageFromTask set \<Rightarrow>
   ('k, 'h) UsageQueueInner \<Rightarrow> count_cells \<Rightarrow> bool" where
  "ready_to_release cap arrival Z H q counts \<longleftrightarrow>
     records_holders cap H q \<and> admissible (strict_order cap) (queue_rank cap arrival) Z H (blocked_usages q) \<and>
     distinguishable cap (H \<union> set (blocked_usages q)) \<and> distinct (map snd (blocked_usages q)) \<and>
     finite H \<and> card H + length (blocked_usages q) < 2 ^ 32 \<and>
     (\<forall>w\<in>set (blocked_usages q). counts (self_ref (snd w)) \<noteq> 0)"

locale address_queue =
  fixes cap :: Capability
    and lock :: "('k, 'h) TaskInner \<Rightarrow> RequestedUsage \<Rightarrow> ('k, 'h) UsageQueueInner \<Rightarrow> ShortCounter \<times> count_cells \<Rightarrow>
      (unit, ('k, 'h) UsageQueueInner \<times> ShortCounter \<times> count_cells) outcome"
    and release :: "('k, 'h) TaskInner \<Rightarrow> RequestedUsage \<Rightarrow> ('k, 'h) UsageQueueInner \<Rightarrow>
      ('k, 'h) TaskInner list \<times> count_cells \<Rightarrow>
      (unit, ('k, 'h) UsageQueueInner \<times> ('k, 'h) TaskInner list \<times> count_cells) outcome"
  assumes lock_law: "ready_to_lock cap arrival Z H q new counts \<Longrightarrow> unat c + 1 < 2 ^ 32 \<Longrightarrow>
      \<exists>q' R H' granted. lock new u q (c, counts) = Ok (q', if granted then c else c + 1, increments R counts) \<and>
        records_holders cap H' q' \<and>
        lock_effect (strict_order cap) (queue_rank cap arrival) Z (u, new) H (blocked_usages q) R H' (blocked_usages q') granted"
    and release_law: "ready_to_release cap arrival Z H q counts \<Longrightarrow> (u, t) \<in> H \<Longrightarrow>
      \<exists>P B q'. blocked_usages q = P @ B \<and>
        release t u q (ub, counts) =
          Ok (q', ub @ map snd (filter (\<lambda>p. counts (self_ref (snd p)) = 1) P),
              \<lambda>r. if r \<in> self_ref ` snd ` set P then counts r - 1 else counts r) \<and>
        records_holders cap (H - {(u, t)} \<union> set P) q' \<and> blocked_usages q' = B \<and>
        admissible (strict_order cap) (queue_rank cap arrival) Z (H - {(u, t)} \<union> set P) B"

lemma ready_release_law:
  assumes "ready_to_release cap arrival Z H q counts" and "(u, t) \<in> H"
  shows "\<exists>P B q'. blocked_usages q = P @ B \<and>
        release_usage t u q (ub, counts) =
          Ok (q', ub @ map snd (filter (\<lambda>p. counts (self_ref (snd p)) = 1) P),
              \<lambda>r. if r \<in> self_ref ` snd ` set P then counts r - 1 else counts r) \<and>
        records_holders cap (H - {(u, t)} \<union> set P) q' \<and> blocked_usages q' = B \<and>
        admissible (strict_order cap) (queue_rank cap arrival) Z (H - {(u, t)} \<union> set P) B"
proof (rule release_usage_law)
  show "distinct (map (self_ref \<circ> snd) (blocked_usages q))"
    using assms(1) by (auto simp: ready_to_release_def distinguishable_def distinct_map image_Un inj_on_Un
        intro: comp_inj_on)
qed (use assms in \<open>auto simp: ready_to_release_def distinguishable_def\<close>)

lemma ready_lock_law:
  assumes ready: "ready_to_lock cap arrival Z H q new counts" and c: "unat c + 1 < 2 ^ 32"
  shows "\<exists>q' R H' granted. lock_or_block new u q (c, counts) = Ok (q', if granted then c else c + 1, increments R counts) \<and>
        records_holders cap H' q' \<and>
        lock_effect (strict_order cap) (queue_rank cap arrival) Z (u, new) H (blocked_usages q) R H' (blocked_usages q') granted"
proof (cases cap)
  case FifoQueueing
  have rank: "queue_rank FifoQueueing arrival = arrival" by (rule ext) simp
  obtain q' H' granted where "lock_or_block new u q (c, counts) = Ok (q', if granted then c else c + 1, counts)"
    "records_holders FifoQueueing H' q'" "lock_effect True arrival Z (u, new) H (blocked_usages q) {} H' (blocked_usages q') granted"
    using fifo_lock_law [of H q arrival Z new c u counts] ready c by (auto simp: ready_to_lock_def rank FifoQueueing)
  then show ?thesis
    unfolding FifoQueueing rank
    by (intro exI [of _ q'] exI [of _ "{}"] exI [of _ H'] exI [of _ granted]) simp
next
  case PriorityQueueing
  have strict: "strict_order PriorityQueueing = False" by simp
  show ?thesis
    using priority_lock_law [OF ready [unfolded PriorityQueueing] c, of u]
    unfolding PriorityQueueing queue_rank_priority strict .
qed

interpretation fifo: address_queue FifoQueueing lock_or_block release_usage
  by unfold_locales (fact ready_lock_law ready_release_law)+

interpretation prio: address_queue PriorityQueueing lock_or_block release_usage
  by unfold_locales (fact ready_lock_law ready_release_law)+

end
