(* ===== verification/Unified_Scheduler.thy ===== *)
theory Unified_Scheduler
  imports Usage_Laws
begin

text \<open>
  \<open>unified-scheduler-logic/src/lib.rs\<close>, the second half: the scheduling state machine. It takes tasks, locks
  their addresses, gives out tasks that hold all of their addresses, and wakes up waiting tasks when a task is
  descheduled. The theory holds its operations, the proof that clearing ends, and the loader of the pool that finds
  the queue of an address; the invariant and the properties are in \<open>Scheduler_Addresses\<close> and \<open>Scheduler_Runs\<close>.
\<close>

section \<open>The state machine\<close>

text \<open>
  The two tokens give access to all cells of their type; each is the store of these cells. A \<open>HashSet\<close> of hashes
  is a set.
\<close>

record ('k, 'h) SchedulingStateMachine =
  unblocked_task_queue :: "('k, 'h) TaskInner list"
  active_task_count :: ShortCounter
  peak_active_task_count :: ShortCounter
  dropped_task_count :: ShortCounter
  max_unique_active_task_count :: "usize option"
  unique_active_task_hashes :: "'h set"
  running_task_count :: ShortCounter
  max_running_task_count :: u32
  handled_task_count :: ShortCounter
  unblocked_task_count :: ShortCounter
  total_task_count :: ShortCounter
  count_token :: count_cells
  usage_queue_token :: "queue_ref \<Rightarrow> ('k, 'h) UsageQueueInner"

definition has_no_running_task :: "('k, 'h) SchedulingStateMachine \<Rightarrow> bool" where
  "has_no_running_task s \<longleftrightarrow> running_task_count s = 0"

definition has_no_active_task :: "('k, 'h) SchedulingStateMachine \<Rightarrow> bool" where
  "has_no_active_task s \<longleftrightarrow> active_task_count s = 0"

definition has_unblocked_task :: "('k, 'h) SchedulingStateMachine \<Rightarrow> bool" where
  "has_unblocked_task s \<longleftrightarrow> unblocked_task_queue s \<noteq> []"

definition is_task_runnable :: "('k, 'h) SchedulingStateMachine \<Rightarrow> bool" where
  "is_task_runnable s \<longleftrightarrow> running_task_count s < max_running_task_count s"

definition has_runnable_task :: "('k, 'h) SchedulingStateMachine \<Rightarrow> bool" where
  "has_runnable_task s \<longleftrightarrow> has_unblocked_task s \<and> is_task_runnable s"

text \<open>
  \<open>for context in task.lock_contexts()\<close> with \<open>with_usage_queue_mut\<close>: each round reads the cell of the context's
  queue, runs the body on it and writes the cell.
\<close>

fun for_contexts ::
  "(RequestedUsage \<Rightarrow> ('k, 'h) UsageQueueInner \<Rightarrow> 's \<Rightarrow> (unit, ('k, 'h) UsageQueueInner \<times> 's) outcome) \<Rightarrow>
   LockContext list \<Rightarrow> (queue_ref \<Rightarrow> ('k, 'h) UsageQueueInner) \<Rightarrow> 's \<Rightarrow>
   (unit, (queue_ref \<Rightarrow> ('k, 'h) UsageQueueInner) \<times> 's) outcome" where
  "for_contexts body [] queues s = Ok (queues, s)"
| "for_contexts body (c # cs) queues s =
     obind (body (requested_usage c) (queues (usage_queue c)) s) (\<lambda>(q', s').
       for_contexts body cs (queues(usage_queue c := q')) s')"

definition try_lock_usage_queues ::
  "('k, 'h) TaskInner \<Rightarrow> ('k, 'h) SchedulingStateMachine \<Rightarrow>
   (unit, ('k, 'h) TaskInner option \<times> ('k, 'h) SchedulingStateMachine) outcome" where
  "try_lock_usage_queues t s =
     obind (for_contexts (lock_or_block t) (lock_contexts t) (usage_queue_token s) (0, count_token s))
       (\<lambda>(queues, blocked_usage_count, counts).
          if blocked_usage_count = 0
          then Ok (Some t, s\<lparr>usage_queue_token := queues, count_token := counts\<rparr>)
          else Ok (None, s\<lparr>usage_queue_token := queues,
                           count_token := set_blocked_usage_count t blocked_usage_count counts\<rparr>))"

definition unlock_usage_queues ::
  "('k, 'h) TaskInner \<Rightarrow> ('k, 'h) SchedulingStateMachine \<Rightarrow> (unit, ('k, 'h) SchedulingStateMachine) outcome" where
  "unlock_usage_queues t s =
     obind (for_contexts (release_usage t) (lock_contexts t) (usage_queue_token s) (unblocked_task_queue s, count_token s))
       (\<lambda>(queues, unblocked, counts).
          Ok (s\<lparr>usage_queue_token := queues, unblocked_task_queue := unblocked, count_token := counts\<rparr>))"

text \<open>The part of \<open>schedule_or_buffer_task\<close> after the checks of a capped machine.\<close>

definition lock_new_task ::
  "('k, 'h) TaskInner \<Rightarrow> bool \<Rightarrow> ('k, 'h) SchedulingStateMachine \<Rightarrow>
   (unit, ('k, 'h) TaskInner option \<times> ('k, 'h) SchedulingStateMachine) outcome" where
  "lock_new_task t force_buffering s =
     obind (increment (active_task_count s)) (\<lambda>active.
     obind (try_lock_usage_queues t
              (s\<lparr>active_task_count := active,
                 peak_active_task_count := max_self (peak_active_task_count s) active\<rparr>)) (\<lambda>(locked, s1).
       case locked of
         None \<Rightarrow> Ok (None, s1)
       | Some t' \<Rightarrow>
           if \<not> is_task_runnable s1 \<or> force_buffering
           then obind (increment (unblocked_task_count s1)) (\<lambda>n.
                  Ok (None, s1\<lparr>unblocked_task_count := n, unblocked_task_queue := unblocked_task_queue s1 @ [t']\<rparr>))
           else obind (increment (running_task_count s1)) (\<lambda>n.
                  Ok (Some t', s1\<lparr>running_task_count := n\<rparr>))))"

definition schedule_or_buffer_task ::
  "('k, 'h) TaskInner \<Rightarrow> bool \<Rightarrow> ('k, 'h) SchedulingStateMachine \<Rightarrow>
   (unit, ('k, 'h) TaskInner option \<times> ('k, 'h) SchedulingStateMachine) outcome" where
  "schedule_or_buffer_task t force_buffering s =
     obind (increment (total_task_count s)) (\<lambda>total.
       let s1 = s\<lparr>total_task_count := total\<rparr> in
       case max_unique_active_task_count s1 of
         None \<Rightarrow> lock_new_task t force_buffering s1
       | Some m \<Rightarrow>
           if card (unique_active_task_hashes s1) \<ge> m \<or> task_hash t \<in> unique_active_task_hashes s1
           then obind (increment (dropped_task_count s1)) (\<lambda>n. Ok (None, s1\<lparr>dropped_task_count := n\<rparr>))
           else lock_new_task t force_buffering
                  (s1\<lparr>unique_active_task_hashes := insert (task_hash t) (unique_active_task_hashes s1)\<rparr>))"

definition buffer_task ::
  "('k, 'h) TaskInner \<Rightarrow> ('k, 'h) SchedulingStateMachine \<Rightarrow> (unit, ('k, 'h) SchedulingStateMachine) outcome" where
  "buffer_task t s =
     obind (schedule_or_buffer_task t True s) (\<lambda>(x, s'). case x of None \<Rightarrow> Ok s' | Some _ \<Rightarrow> Panic)"

definition schedule_next_unblocked_task ::
  "('k, 'h) SchedulingStateMachine \<Rightarrow>
   (unit, ('k, 'h) TaskInner option \<times> ('k, 'h) SchedulingStateMachine) outcome" where
  "schedule_next_unblocked_task s =
     (if \<not> is_task_runnable s then Ok (None, s)
      else (case unblocked_task_queue s of
              [] \<Rightarrow> Ok (None, s)
            | t # rest \<Rightarrow>
                obind (increment (running_task_count s)) (\<lambda>running.
                obind (increment (unblocked_task_count s)) (\<lambda>unblocked.
                  Ok (Some t, s\<lparr>unblocked_task_queue := rest, running_task_count := running,
                               unblocked_task_count := unblocked\<rparr>)))))"

definition deschedule_task ::
  "('k, 'h) TaskInner \<Rightarrow> ('k, 'h) SchedulingStateMachine \<Rightarrow> (unit, ('k, 'h) SchedulingStateMachine) outcome" where
  "deschedule_task t s =
     obind (decrement (running_task_count s)) (\<lambda>running.
     obind (assert_or_panic (max_unique_active_task_count s \<noteq> None \<longrightarrow> task_hash t \<in> unique_active_task_hashes s)) (\<lambda>_.
     obind (decrement (active_task_count s)) (\<lambda>active.
     obind (increment (handled_task_count s)) (\<lambda>handled.
       unlock_usage_queues t
         (s\<lparr>running_task_count := running,
            unique_active_task_hashes :=
              (if max_unique_active_task_count s \<noteq> None then unique_active_task_hashes s - {task_hash t}
               else unique_active_task_hashes s),
            active_task_count := active, handled_task_count := handled\<rparr>)))))"

definition reinitialize ::
  "('k, 'h) SchedulingStateMachine \<Rightarrow> (unit, ('k, 'h) SchedulingStateMachine) outcome" where
  "reinitialize s =
     obind (assert_or_panic (has_no_active_task s)) (\<lambda>_.
     obind (assert_or_panic (card (unique_active_task_hashes s) = 0)) (\<lambda>_.
     obind (assert_or_panic (running_task_count s = 0)) (\<lambda>_.
     obind (assert_or_panic (length (unblocked_task_queue s) = 0)) (\<lambda>_.
       Ok (s\<lparr>active_task_count := 0, peak_active_task_count := 0, dropped_task_count := 0,
             handled_task_count := 0, unblocked_task_count := 0, total_task_count := 0\<rparr>)))))"

text \<open>
  The loop of \<open>clear_and_reinitialize\<close> ends in every state: each round decrements \<open>active_task_count\<close>, which is a
  checked subtraction.
\<close>

lemma for_contexts_unlock_active:
  "unlock_usage_queues t s = Ok s' \<Longrightarrow> active_task_count s' = active_task_count s"
  by (auto simp: unlock_usage_queues_def)

lemma deschedule_active_less:
  assumes "schedule_next_unblocked_task s = Ok (x, s1)" and "deschedule_task t s1 = Ok s2"
  shows "unat (active_task_count s2) < unat (active_task_count s)"
proof -
  have "active_task_count s1 = active_task_count s"
    using assms(1) by (auto simp: schedule_next_unblocked_task_def increment_def split: if_splits list.splits)
  moreover have "active_task_count s1 \<noteq> 0" "active_task_count s2 = active_task_count s1 - 1"
    using assms(2) by (auto simp: deschedule_task_def decrement_def dest!: for_contexts_unlock_active split: if_splits)
  ultimately show ?thesis by (simp add: unat_minus_one unat_gt_0)
qed

function clear_loop ::
  "ShortCounter \<Rightarrow> ('k, 'h) SchedulingStateMachine \<Rightarrow> (unit, ShortCounter \<times> ('k, 'h) SchedulingStateMachine) outcome" where
  "clear_loop n s =
     (case schedule_next_unblocked_task s of
        Ok (None, s1) \<Rightarrow> Ok (n, s1)
      | Ok (Some t, s1) \<Rightarrow>
          (case deschedule_task t s1 of
             Ok s2 \<Rightarrow> (case (increment n :: (unit, ShortCounter) outcome) of Ok n' \<Rightarrow> clear_loop n' s2 | _ \<Rightarrow> Panic)
           | _ \<Rightarrow> Panic)
      | _ \<Rightarrow> Panic)"
  by pat_completeness auto
termination
  by (relation "measure (\<lambda>(n, s). unat (active_task_count s))") (auto intro: deschedule_active_less)

declare clear_loop.simps [simp del]

definition clear_and_reinitialize ::
  "('k, 'h) SchedulingStateMachine \<Rightarrow> (unit, usize \<times> ('k, 'h) SchedulingStateMachine) outcome" where
  "clear_and_reinitialize s =
     obind (clear_loop 0 s) (\<lambda>(n, s1). obind (reinitialize s1) (\<lambda>s2. Ok (unat n, s2)))"

text \<open>The new machine; the arguments of the initializer are \<open>usize\<close> and the first must fit a counter.\<close>

definition exclusively_initialize_current_thread_for_scheduling ::
  "usize option \<Rightarrow> usize option \<Rightarrow> count_cells \<Rightarrow> (queue_ref \<Rightarrow> ('k, 'h) UsageQueueInner) \<Rightarrow>
   (unit, ('k, 'h) SchedulingStateMachine) outcome" where
  "exclusively_initialize_current_thread_for_scheduling max_running max_unique counts queues =
     (let m = (case max_running of None \<Rightarrow> 2 ^ 32 - 1 | Some n \<Rightarrow> n) in
      if m \<ge> 2 ^ 32 then Panic
      else Ok \<lparr>unblocked_task_queue = [], active_task_count = 0, peak_active_task_count = 0, dropped_task_count = 0,
               max_unique_active_task_count = max_unique, unique_active_task_hashes = {}, running_task_count = 0,
               max_running_task_count = of_nat m, handled_task_count = 0, unblocked_task_count = 0,
               total_task_count = 0, count_token = counts, usage_queue_token = queues\<rparr>)"

section \<open>Creating tasks\<close>

text \<open>
  A usage queue loader maps addresses to queues and may change its own state. The loader of the scheduler pool
  (\<open>unified-scheduler-pool/src/lib.rs\<close>) makes a queue for an address that it sees for the first time; \<open>fresh\<close> is the
  reference that the allocator hands out next.
\<close>

type_synonym ('k, 'l) usage_queue_loader = "'k \<Rightarrow> 'l \<Rightarrow> queue_ref \<times> 'l"

fun create_lock_contexts ::
  "('k, 'h) SchedTransaction \<Rightarrow> ('k, 'l) usage_queue_loader \<Rightarrow> nat \<Rightarrow> 'k list \<Rightarrow> 'l \<Rightarrow> LockContext list \<times> 'l" where
  "create_lock_contexts tx loader i [] l = ([], l)"
| "create_lock_contexts tx loader i (address # addresses) l =
     (case loader address l of (q, l1) \<Rightarrow>
      case create_lock_contexts tx loader (i + 1) addresses l1 of (contexts, l2) \<Rightarrow>
        (\<lparr>usage_queue = q, requested_usage = (if sched_is_writable tx i then Writable else Readonly)\<rparr> # contexts, l2))"

definition do_create_task ::
  "task_ref \<Rightarrow> ('k, 'h) SchedTransaction \<Rightarrow> OrderedTaskId \<Rightarrow> usize \<Rightarrow> u64 \<Rightarrow> u64 \<Rightarrow> ('k, 'l) usage_queue_loader \<Rightarrow>
   'l \<times> count_cells \<Rightarrow> ('k, 'h) TaskInner \<times> 'l \<times> count_cells" where
  "do_create_task r tx ident block_size epoch slot loader = (\<lambda>(l, counts).
     case create_lock_contexts tx loader 0 (sched_account_keys tx) l of (contexts, l') \<Rightarrow>
       (\<lparr>self_ref = r, transaction = tx, task_id = ident, lock_contexts = contexts, consumed_block_size = block_size,
         sanitized_epoch = epoch, alt_invalidation_slot = slot\<rparr>, l', counts(r := 0)))"

definition NO_CONSUMED_BLOCK_SIZE :: usize where "NO_CONSUMED_BLOCK_SIZE = 0"
definition MAX_SANITIZED_EPOCH :: u64 where "MAX_SANITIZED_EPOCH = - 1"
definition MAX_ALT_INVALIDATION_SLOT :: u64 where "MAX_ALT_INVALIDATION_SLOT = - 1"

definition create_task ::
  "task_ref \<Rightarrow> ('k, 'h) SchedTransaction \<Rightarrow> OrderedTaskId \<Rightarrow> ('k, 'l) usage_queue_loader \<Rightarrow>
   'l \<times> count_cells \<Rightarrow> ('k, 'h) TaskInner \<times> 'l \<times> count_cells" where
  "create_task r tx ident loader =
     do_create_task r tx ident NO_CONSUMED_BLOCK_SIZE MAX_SANITIZED_EPOCH MAX_ALT_INVALIDATION_SLOT loader"

definition create_block_production_task ::
  "task_ref \<Rightarrow> ('k, 'h) SchedTransaction \<Rightarrow> OrderedTaskId \<Rightarrow> usize \<Rightarrow> u64 \<Rightarrow> u64 \<Rightarrow> ('k, 'l) usage_queue_loader \<Rightarrow>
   'l \<times> count_cells \<Rightarrow> ('k, 'h) TaskInner \<times> 'l \<times> count_cells" where
  "create_block_production_task = do_create_task"

record ('k, 'h) UsageQueueLoaderInner =
  capability :: Capability
  usage_queues :: "'k \<rightharpoonup> queue_ref"
  queue_cells :: "queue_ref \<Rightarrow> ('k, 'h) UsageQueueInner"
  fresh_queue :: queue_ref

definition UsageQueueLoaderInner_new :: "Capability \<Rightarrow> ('k, 'h) UsageQueueLoaderInner" where
  "UsageQueueLoaderInner_new cap =
     \<lparr>capability = cap, usage_queues = Map.empty, queue_cells = (\<lambda>_. UsageQueueInner_new cap), fresh_queue = 0\<rparr>"

definition load :: "('k, ('k, 'h) UsageQueueLoaderInner) usage_queue_loader" where
  "load address l =
     (case usage_queues l address of
        Some q \<Rightarrow> (q, l)
      | None \<Rightarrow>
          (fresh_queue l,
           l\<lparr>usage_queues := (usage_queues l)(address \<mapsto> fresh_queue l),
             queue_cells := (queue_cells l)(fresh_queue l := UsageQueueInner_new (capability l)),
             fresh_queue := fresh_queue l + 1\<rparr>))"

end
