(* ===== verification/Scheduler_Addresses.thy ===== *)
theory Scheduler_Addresses
  imports Unified_Scheduler
begin

text \<open>
  The invariant of all addresses of a scheduler, and what the loops over the lock contexts of a task do to it. The
  proofs use the contract \<open>address_queue\<close> of a usage queue, so that they hold for both kinds.
\<close>

section \<open>The invariant\<close>

text \<open>
  \<open>act\<close> are the active tasks, \<open>ctx t\<close> the usages that task \<open>t\<close> has requested so far, \<open>Z\<close> the tasks with no blocked
  usage, \<open>H q\<close> the holders of an address, and \<open>cnt t\<close> the number of addresses that block \<open>t\<close>.
\<close>

definition waits_at :: "(queue_ref \<Rightarrow> ('k, 'h) UsageQueueInner) \<Rightarrow> ('k, 'h) TaskInner \<Rightarrow> queue_ref set" where
  "waits_at queues t = {q. t \<in> snd ` set (blocked_usages (queues q))}"

definition at_address ::
  "('k, 'h) TaskInner set \<Rightarrow> (('k, 'h) TaskInner \<Rightarrow> queue_ref \<rightharpoonup> RequestedUsage) \<Rightarrow> queue_ref \<Rightarrow>
   ('k, 'h) UsageFromTask set" where
  "at_address act ctx q = {(u, t). t \<in> act \<and> ctx t q = Some u}"

definition tasks_ok ::
  "Capability \<Rightarrow> (('k, 'h) TaskInner \<Rightarrow> nat) \<Rightarrow> ('k, 'h) TaskInner set \<Rightarrow>
   (('k, 'h) TaskInner \<Rightarrow> queue_ref \<rightharpoonup> RequestedUsage) \<Rightarrow> bool" where
  "tasks_ok cap arrival act ctx \<longleftrightarrow>
     finite act \<and> card act < 2 ^ 32 \<and> inj_on self_ref act \<and> inj_on (queue_rank cap arrival) act \<and>
     (\<forall>t\<in>act. finite (dom (ctx t)) \<and> card (dom (ctx t)) < 2 ^ 32)"

definition address_ok ::
  "Capability \<Rightarrow> (('k, 'h) TaskInner \<Rightarrow> nat) \<Rightarrow> ('k, 'h) TaskInner set \<Rightarrow> ('k, 'h) UsageFromTask set \<Rightarrow>
   ('k, 'h) UsageFromTask set \<Rightarrow> ('k, 'h) UsageQueueInner \<Rightarrow> bool" where
  "address_ok cap arrival Z U H q \<longleftrightarrow>
     records_holders cap H q \<and>
     admissible (strict_order cap) (queue_rank cap arrival) Z H (blocked_usages q) \<and>
     H \<inter> set (blocked_usages q) = {} \<and> H \<union> set (blocked_usages q) = U"

definition addresses_inv ::
  "Capability \<Rightarrow> (('k, 'h) TaskInner \<Rightarrow> nat) \<Rightarrow> ('k, 'h) TaskInner set \<Rightarrow>
   (('k, 'h) TaskInner \<Rightarrow> queue_ref \<rightharpoonup> RequestedUsage) \<Rightarrow> ('k, 'h) TaskInner set \<Rightarrow>
   (queue_ref \<Rightarrow> ('k, 'h) UsageFromTask set) \<Rightarrow> (queue_ref \<Rightarrow> ('k, 'h) UsageQueueInner) \<Rightarrow>
   (('k, 'h) TaskInner \<Rightarrow> ShortCounter) \<Rightarrow> bool" where
  "addresses_inv cap arrival act ctx Z H queues cnt \<longleftrightarrow>
     tasks_ok cap arrival act ctx \<and>
     (\<forall>q. address_ok cap arrival Z (at_address act ctx q) (H q) (queues q)) \<and>
     (\<forall>t\<in>act. unat (cnt t) = card (waits_at queues t))"

lemma at_address_iff [simp]: "(u, t) \<in> at_address act ctx q \<longleftrightarrow> t \<in> act \<and> ctx t q = Some u"
  by (simp add: at_address_def)

lemma snd_at_address: "snd ` at_address act ctx q = {t \<in> act. ctx t q \<noteq> None}"
  by (force simp: at_address_def)

lemma inj_on_snd_at_address: "inj_on snd (at_address act ctx q)"
  by (auto simp: at_address_def inj_on_def)

lemma waits_at_update:
  "waits_at (queues(q := q')) t =
     (if t \<in> snd ` set (blocked_usages q') then insert q (waits_at queues t) else waits_at queues t - {q})"
  by (auto simp: waits_at_def)

lemma address_okD:
  assumes "addresses_inv cap arrival act ctx Z H queues cnt"
  shows "records_holders cap (H q) (queues q)"
    "admissible (strict_order cap) (queue_rank cap arrival) Z (H q) (blocked_usages (queues q))"
    "H q \<inter> set (blocked_usages (queues q)) = {}"
    "H q \<union> set (blocked_usages (queues q)) = at_address act ctx q"
  using assms by (auto simp: addresses_inv_def address_ok_def)

lemma waits_at_dom:
  assumes "addresses_inv cap arrival act ctx Z H queues cnt"
  shows "waits_at queues t \<subseteq> dom (ctx t)"
proof
  fix q assume "q \<in> waits_at queues t"
  then obtain u where "(u, t) \<in> set (blocked_usages (queues q))" by (auto simp: waits_at_def)
  then have "(u, t) \<in> at_address act ctx q" using address_okD(4) [OF assms, of q] by blast
  then show "q \<in> dom (ctx t)" by auto
qed

lemma tasks_at_address:
  assumes "addresses_inv cap arrival act ctx Z H queues cnt"
  shows "finite (at_address act ctx q)" "card (at_address act ctx q) \<le> card {t \<in> act. ctx t q \<noteq> None}"
    "distinguishable cap (at_address act ctx q)" "snd ` H q \<inter> snd ` set (blocked_usages (queues q)) = {}"
    "finite (H q)"
proof -
  have tasks: "finite act" "inj_on self_ref act" "inj_on (queue_rank cap arrival) act"
    using assms by (auto simp: addresses_inv_def tasks_ok_def)
  have sub: "{t \<in> act. ctx t q \<noteq> None} \<subseteq> act" by auto
  show fin: "finite (at_address act ctx q)"
    using finite_imageD [OF _ inj_on_snd_at_address, of act ctx q] tasks(1) by (simp add: snd_at_address)
  show "card (at_address act ctx q) \<le> card {t \<in> act. ctx t q \<noteq> None}"
    using card_image [OF inj_on_snd_at_address, of act ctx q] by (simp add: snd_at_address)
  have "inj_on task_id act" if "cap = PriorityQueueing"
    using tasks(3) that by (auto simp: inj_on_def)
  then show "distinguishable cap (at_address act ctx q)"
    using tasks(2) sub unfolding distinguishable_def snd_at_address by (meson inj_on_subset)
  have "inj_on snd (H q \<union> set (blocked_usages (queues q)))"
    using inj_on_snd_at_address address_okD(4) [OF assms] by simp
  then show "snd ` H q \<inter> snd ` set (blocked_usages (queues q)) = {}"
    using address_okD(3) [OF assms, of q] inj_on_image_Int [of snd _ "H q" "set (blocked_usages (queues q))"] by simp
  show "finite (H q)" using fin address_okD(4) [OF assms, of q] by (metis finite_Un)
qed

text \<open>An update at one address.\<close>

lemma addresses_inv_update:
  assumes inv: "addresses_inv cap arrival act ctx Z H queues cnt"
    and "address_ok cap arrival Z (at_address act ctx' q) H' q'"
    and "\<And>t q2. t \<in> act \<Longrightarrow> q2 \<noteq> q \<Longrightarrow> ctx' t q2 = ctx t q2"
    and "\<And>t. t \<in> act \<Longrightarrow> card (dom (ctx' t)) < 2 ^ 32"
    and "\<And>t. t \<in> act \<Longrightarrow> unat (cnt' t) = card (waits_at (queues(q := q')) t)"
  shows "addresses_inv cap arrival act ctx' Z (H(q := H')) (queues(q := q')) cnt'"
proof -
  have "finite (dom (ctx' t))" if "t \<in> act" for t
  proof (rule finite_subset)
    show "dom (ctx' t) \<subseteq> insert q (dom (ctx t))" using assms(3) [OF that] by force
    show "finite (insert q (dom (ctx t)))" using inv that by (simp add: addresses_inv_def tasks_ok_def)
  qed
  moreover have "at_address act ctx' q2 = at_address act ctx q2" if "q2 \<noteq> q" for q2
    using assms(3) [OF _ that] by (auto simp: at_address_def)
  ultimately show ?thesis
    using inv assms(2,4,5) by (auto simp: addresses_inv_def tasks_ok_def)
qed

lemma admissible_mono: "admissible strict rank Z H B \<Longrightarrow> Z \<inter> snd ` H \<subseteq> Z' \<Longrightarrow> admissible strict rank Z' H B"
  by (auto simp: admissible_def)

lemma addresses_inv_mono:
  assumes "addresses_inv cap arrival act ctx Z H queues cnt" and "Z \<subseteq> Z'"
  shows "addresses_inv cap arrival act ctx Z' H queues cnt"
proof -
  have "admissible strict rank Z' H B" if "admissible strict rank Z H B" for strict rank H B
    using admissible_mono [OF that] assms(2) by blast
  then show ?thesis using assms(1) by (simp add: addresses_inv_def address_ok_def)
qed

section \<open>Locking the addresses of a new task\<close>

text \<open>
  While the addresses of \<open>new\<close> are locked one by one, its count is the local variable of the loop, and the cells of
  the other tasks hold theirs.
\<close>

definition counts_new ::
  "('k, 'h) TaskInner set \<Rightarrow> ('k, 'h) TaskInner set \<Rightarrow> ('k, 'h) TaskInner \<Rightarrow> ShortCounter \<Rightarrow> count_cells \<Rightarrow>
   (('k, 'h) TaskInner \<Rightarrow> ShortCounter) \<Rightarrow> bool" where
  "counts_new act Z new c counts cnt \<longleftrightarrow>
     cnt new = c \<and> new \<in> act \<and> new \<notin> Z \<and>
     (\<forall>t\<in>act - {new}. cnt t = counts (self_ref t) \<and> (t \<in> Z \<longleftrightarrow> cnt t = 0))"

lemma ready_to_lock_at:
  assumes inv: "addresses_inv cap arrival act ctx Z H queues cnt" and cnt: "counts_new act Z new c counts cnt"
    and "ctx new q = None" and "strict_order cap \<Longrightarrow> \<forall>t\<in>act - {new}. arrival t < arrival new"
  shows "ready_to_lock cap arrival Z (H q) (queues q) new counts"
proof -
  note ok = address_okD [OF inv, of q] and tasks = tasks_at_address [OF inv, of q]
  have act: "finite act" "card act < 2 ^ 32" "inj_on (queue_rank cap arrival) act" "new \<in> act"
    using inv cnt by (auto simp: addresses_inv_def tasks_ok_def counts_new_def)
  have member: "snd x \<in> act - {new} \<and> ctx (snd x) q \<noteq> None" if "x \<in> at_address act ctx q" for x
    using that assms(3) by (cases x) auto
  have "card {t \<in> act. ctx t q \<noteq> None} < card act"
    using act(1,4) assms(3) by (intro psubset_card_mono psubsetI) force+
  moreover have "card (H q) \<le> card (at_address act ctx q)" using tasks(1) ok(4) by (intro card_mono) auto
  ultimately have "card (H q) + 1 < 2 ^ 32" using tasks(2) act(2) by linarith
  moreover have "new_at cap arrival new (at_address act ctx q)"
    using member act(3,4) assms(4) unfolding new_at_def by (metis DiffD1 DiffD2 inj_onD insertI1)
  moreover have "counts_show Z counts (H q)"
    unfolding counts_show_def
  proof
    fix h assume h: "h \<in> H q"
    then have "h \<in> at_address act ctx q" using ok(4) by blast
    note m = member [OF this]
    have "q \<notin> waits_at queues (snd h)" using h tasks(4) by (auto simp: waits_at_def)
    then have "waits_at queues (snd h) \<subset> dom (ctx (snd h))" using m waits_at_dom [OF inv, of "snd h"] by blast
    moreover have dom: "finite (dom (ctx (snd h)))" "card (dom (ctx (snd h))) < 2 ^ 32"
      using inv m by (auto simp: addresses_inv_def tasks_ok_def)
    ultimately have "card (waits_at queues (snd h)) < card (dom (ctx (snd h)))" by (intro psubset_card_mono)
    moreover have "unat (cnt (snd h)) = card (waits_at queues (snd h))" "cnt (snd h) = counts (self_ref (snd h))"
      "snd h \<in> Z \<longleftrightarrow> cnt (snd h) = 0"
      using inv m cnt by (auto simp: addresses_inv_def counts_new_def)
    ultimately show "(snd h \<in> Z \<longleftrightarrow> counts (self_ref (snd h)) = 0) \<and> unat (counts (self_ref (snd h))) + 1 < 2 ^ 32"
      using dom(2) by simp
  qed
  ultimately show ?thesis using ok tasks by (simp add: ready_to_lock_def)
qed

definition contexts_map :: "LockContext list \<Rightarrow> queue_ref \<rightharpoonup> RequestedUsage" where
  "contexts_map cs = map_of (map (\<lambda>c. (usage_queue c, requested_usage c)) cs)"

lemma contexts_map_Nil [simp]: "contexts_map [] = Map.empty"
  by (simp add: contexts_map_def)

lemma contexts_map_Cons: "contexts_map (c # cs) = (contexts_map cs)(usage_queue c \<mapsto> requested_usage c)"
  by (simp add: contexts_map_def)

lemma dom_contexts_map: "dom (contexts_map cs) = usage_queue ` set cs"
  by (simp add: contexts_map_def dom_map_of_conv_image_fst image_image)

lemma map_add_update: "q \<notin> dom n \<Longrightarrow> m(q \<mapsto> u) ++ n = (m ++ n)(q \<mapsto> u)"
  by (rule map_add_upd_left)

context address_queue
begin

lemma lock_step:
  assumes inv: "addresses_inv cap arrival act ctx Z H queues cnt" and cnt: "counts_new act Z new c counts cnt"
    and free: "ctx new q = None" and room: "card (dom (ctx new)) + 1 < 2 ^ 32"
    and arr: "strict_order cap \<Longrightarrow> \<forall>t\<in>act - {new}. arrival t < arrival new"
  shows "\<exists>q' c' counts' H' cnt'. lock new u (queues q) (c, counts) = Ok (q', c', counts') \<and>
     addresses_inv cap arrival act (ctx(new := (ctx new)(q \<mapsto> u))) Z (H(q := H')) (queues(q := q')) cnt' \<and>
     counts_new act Z new c' counts' cnt' \<and> (\<forall>r. r \<notin> self_ref ` (act - {new}) \<longrightarrow> counts' r = counts r)"
proof -
  note ok = address_okD [OF inv, of q] and tasks = tasks_at_address [OF inv, of q]
  note ready = ready_to_lock_at [OF inv cnt free arr]
  define B where "B = blocked_usages (queues q)"
  have newact: "new \<in> act" "new \<notin> Z" "cnt new = c" using cnt by (auto simp: counts_new_def)
  have wait_new: "unat c = card (waits_at queues new)" using inv newact by (auto simp: addresses_inv_def)
  have "unat c \<le> card (dom (ctx new))"
    using wait_new waits_at_dom [OF inv, of new] inv newact(1)
    by (auto simp: addresses_inv_def tasks_ok_def intro: card_mono)
  then have c: "unat c + 1 < 2 ^ 32" using room by simp
  obtain q' R H' granted where lock: "lock new u (queues q) (c, counts) = Ok (q', if granted then c else c + 1, increments R counts)"
    and rec: "records_holders cap H' q'"
    and eff: "lock_effect (strict_order cap) (queue_rank cap arrival) Z (u, new) (H q) B R H' (blocked_usages q') granted"
    using lock_law [OF ready c, of u] unfolding B_def by blast
  let ?ctx = "ctx(new := (ctx new)(q \<mapsto> u))"
  define cnt' where "cnt' = (\<lambda>t. if t = new then (if granted then c else c + 1) else increments R counts (self_ref t))"
  have R: "R \<subseteq> H q" "snd ` R \<inter> Z = {}" using eff by (auto simp: lock_effect_def)
  have others: "snd x \<in> act - {new}" if "x \<in> H q \<union> set B" for x
    using that ok(4) free unfolding B_def by (cases x) auto
  have U: "at_address act ?ctx q = insert (u, new) (at_address act ctx q)"
    using newact(1) free by (auto simp: at_address_def split: if_splits)
  have newU: "(u, new) \<notin> H q \<union> set B" using others by force
  have addr: "address_ok cap arrival Z (at_address act ?ctx q) H' q'"
  proof -
    have "H q \<inter> set B = {}" using ok(3) by (simp add: B_def)
    then have "H' \<inter> set (blocked_usages q') = {}" "H' \<union> set (blocked_usages q') = insert (u, new) (H q \<union> set B)"
      using eff newU R(1) unfolding lock_effect_def by (auto split: if_splits)
    then show ?thesis using rec eff ok(4) unfolding address_ok_def U B_def lock_effect_def by simp
  qed
  have waiting: "t \<in> snd ` set (blocked_usages q') \<longleftrightarrow> t \<in> snd ` set B \<or> t \<in> snd ` R \<or> t = new \<and> \<not> granted" for t
    using eff by (auto simp: lock_effect_def image_Un split: if_splits)
  have before: "q \<in> waits_at queues t \<longleftrightarrow> t \<in> snd ` set B" for t by (simp add: waits_at_def B_def)
  have fin: "finite (waits_at queues t)" if "t \<in> act" for t
    using waits_at_dom [OF inv, of t] inv that by (auto simp: addresses_inv_def tasks_ok_def intro: finite_subset)
  have RB: "snd ` R \<inter> snd ` set B = {}" using tasks(4) R(1) unfolding B_def by blast
  have refs: "self_ref t \<in> self_ref ` snd ` R \<longleftrightarrow> t \<in> snd ` R" if "t \<in> act" for t
    using inv that R(1) others by (intro inj_on_image_mem_iff [of self_ref act]) (auto simp: addresses_inv_def tasks_ok_def)
  have show_counts: "counts (self_ref t) \<noteq> 0" "unat (counts (self_ref t) + 1) = unat (counts (self_ref t)) + 1"
    if "t \<in> snd ` R" for t
    using that R ready unfolding ready_to_lock_def counts_show_def by (force intro!: unat_increment below_max)+
  have old: "cnt t = counts (self_ref t)" "unat (cnt t) = card (waits_at queues t)" if "t \<in> act - {new}" for t
    using inv cnt that by (auto simp: addresses_inv_def counts_new_def)
  have count: "unat (cnt' t) = card (waits_at (queues(q := q')) t)" if t: "t \<in> act" for t
  proof -
    consider "t = new" | "t \<in> snd ` R" "t \<noteq> new" | "t \<noteq> new" "t \<notin> snd ` R" by blast
    then show ?thesis
    proof cases
      case 1
      have "new \<notin> snd ` set B" "new \<notin> snd ` R" using others R(1) by blast+
      then show ?thesis
        using 1 waiting [of new] before [of new] wait_new fin [OF newact(1)] unat_increment [OF below_max [OF c]]
        by (simp add: cnt'_def waits_at_update)
    next
      case 2
      then have "q \<notin> waits_at queues t" using before RB by blast
      then show ?thesis
        using 2 waiting [of t] old [of t] t fin [OF t] show_counts(2) [of t] refs [OF t] by (simp add: cnt'_def waits_at_update)
    next
      case 3
      then show ?thesis
        using waiting [of t] before [of t] old [of t] t refs [OF t] by (auto simp: cnt'_def waits_at_update insert_absorb)
    qed
  qed
  have "card (dom (?ctx t)) < 2 ^ 32" if "t \<in> act" for t
    using inv that room card_insert_le_m1 [of "card (dom (ctx new)) + 1" "dom (ctx new)" q]
    by (auto simp: addresses_inv_def tasks_ok_def)
  then have "addresses_inv cap arrival act ?ctx Z (H(q := H')) (queues(q := q')) cnt'"
    using count by (intro addresses_inv_update [OF inv addr]) auto
  moreover have "counts_new act Z new (if granted then c else c + 1) (increments R counts) cnt'"
    unfolding counts_new_def
  proof (intro conjI ballI)
    fix t assume t: "t \<in> act - {new}"
    then show "cnt' t = increments R counts (self_ref t)" by (simp add: cnt'_def)
    show "t \<in> Z \<longleftrightarrow> cnt' t = 0"
    proof (cases "t \<in> snd ` R")
      case True
      then have "unat (cnt' t) \<noteq> 0" using t refs [of t] show_counts(2) [OF True] by (simp add: cnt'_def)
      then show ?thesis using True R(2) by auto
    next
      case False
      then show ?thesis using t refs [of t] cnt by (auto simp: cnt'_def counts_new_def)
    qed
  qed (use newact in \<open>auto simp: cnt'_def\<close>)
  moreover have "self_ref ` snd ` R \<subseteq> self_ref ` (act - {new})" using R(1) others by (intro image_mono) blast
  ultimately show ?thesis
    using lock by (intro exI [of _ q'] exI [of _ "if granted then c else c + 1"] exI [of _ "increments R counts"]
        exI [of _ H'] exI [of _ cnt']) auto
qed

lemma lock_loop:
  assumes "addresses_inv cap arrival act ctx Z H queues cnt" and "counts_new act Z new c counts cnt"
    and "\<forall>x\<in>set cs. ctx new (usage_queue x) = None" and "distinct (map usage_queue cs)"
    and "card (dom (ctx new)) + length cs < 2 ^ 32"
    and "strict_order cap \<Longrightarrow> \<forall>t\<in>act - {new}. arrival t < arrival new"
  shows "\<exists>queues' c' counts' H' cnt'. for_contexts (lock new) cs queues (c, counts) = Ok (queues', c', counts') \<and>
     addresses_inv cap arrival act (ctx(new := ctx new ++ contexts_map cs)) Z H' queues' cnt' \<and>
     counts_new act Z new c' counts' cnt' \<and> (\<forall>r. r \<notin> self_ref ` (act - {new}) \<longrightarrow> counts' r = counts r)"
  using assms
proof (induction cs arbitrary: ctx H queues c counts cnt)
  case Nil
  then have "ctx(new := ctx new ++ contexts_map []) = ctx" by simp
  then show ?case using Nil.prems(1,2) by (intro exI conjI) (simp_all, metis)
next
  case (Cons x cs)
  let ?ctx = "ctx(new := (ctx new)(usage_queue x \<mapsto> requested_usage x))"
  have free: "ctx new (usage_queue x) = None" and room: "card (dom (ctx new)) + 1 < 2 ^ 32" using Cons.prems(3,5) by auto
  obtain q' c1 counts1 H1 cnt1 where
    step: "lock new (requested_usage x) (queues (usage_queue x)) (c, counts) = Ok (q', c1, counts1)"
    "addresses_inv cap arrival act ?ctx Z (H(usage_queue x := H1)) (queues(usage_queue x := q')) cnt1"
    "counts_new act Z new c1 counts1 cnt1" "\<forall>r. r \<notin> self_ref ` (act - {new}) \<longrightarrow> counts1 r = counts r"
    using lock_step [OF Cons.prems(1,2) free room Cons.prems(6), of "requested_usage x"] by blast
  have "finite (dom (ctx new))"
    using Cons.prems(1,2) by (auto simp: addresses_inv_def tasks_ok_def counts_new_def)
  then have "card (dom (?ctx new)) + length cs < 2 ^ 32" using Cons.prems(5) free by (simp add: card_insert_if domIff)
  moreover have "usage_queue x \<notin> usage_queue ` set cs" "distinct (map usage_queue cs)" using Cons.prems(4) by simp_all
  moreover from this have "\<forall>y\<in>set cs. ?ctx new (usage_queue y) = None"
    using Cons.prems(3) by (metis fun_upd_other fun_upd_same image_eqI list.set_intros(2))
  ultimately obtain queues' c' counts' H' cnt' where
    IH: "for_contexts (lock new) cs (queues(usage_queue x := q')) (c1, counts1) = Ok (queues', c', counts')"
    "addresses_inv cap arrival act (?ctx(new := ?ctx new ++ contexts_map cs)) Z H' queues' cnt'"
    "counts_new act Z new c' counts' cnt'" "\<forall>r. r \<notin> self_ref ` (act - {new}) \<longrightarrow> counts' r = counts1 r"
    using Cons.IH [OF step(2,3) _ _ _ Cons.prems(6)] by metis
  have "?ctx(new := ?ctx new ++ contexts_map cs) = ctx(new := ctx new ++ contexts_map (x # cs))"
    using Cons.prems(4) by (simp add: contexts_map_Cons map_add_update dom_contexts_map)
  then have "addresses_inv cap arrival act (ctx(new := ctx new ++ contexts_map (x # cs))) Z H' queues' cnt'"
    using IH(2) by (simp only:)
  moreover have "for_contexts (lock new) (x # cs) queues (c, counts) = Ok (queues', c', counts')" using step(1) IH(1) by simp
  moreover have "\<forall>r. r \<notin> self_ref ` (act - {new}) \<longrightarrow> counts' r = counts r" using step(4) IH(4) by simp
  ultimately show ?case using IH(3) by blast
qed

end

section \<open>Releasing the addresses of a task\<close>

text \<open>The counts of the tasks while no task is being locked.\<close>

definition counts_all :: "('k, 'h) TaskInner set \<Rightarrow> ('k, 'h) TaskInner set \<Rightarrow> count_cells \<Rightarrow> bool" where
  "counts_all act Z counts \<longleftrightarrow> Z \<subseteq> act \<and> (\<forall>t\<in>act. t \<in> Z \<longleftrightarrow> counts (self_ref t) = 0)"

lemma unblocked_waits_nowhere:
  assumes "addresses_inv cap arrival act ctx Z H queues (\<lambda>t. counts (self_ref t))" and "counts_all act Z counts" and "t \<in> Z"
  shows "waits_at queues t = {}"
proof -
  have t: "t \<in> act" "counts (self_ref t) = 0" using assms(2,3) by (auto simp: counts_all_def)
  then have "card (waits_at queues t) = 0" using assms(1) by (auto simp: addresses_inv_def)
  moreover have "finite (waits_at queues t)"
    using waits_at_dom [OF assms(1), of t] assms(1) t(1) by (auto simp: addresses_inv_def tasks_ok_def intro: finite_subset)
  ultimately show ?thesis by simp
qed

lemma ready_to_release_at:
  assumes inv: "addresses_inv cap arrival act ctx Z H queues (\<lambda>t. counts (self_ref t))"
  shows "ready_to_release cap arrival Z (H q) (queues q) counts"
proof -
  note ok = address_okD [OF inv, of q] and tasks = tasks_at_address [OF inv, of q]
  let ?B = "blocked_usages (queues q)"
  have act: "finite act" "card act < 2 ^ 32" using inv by (auto simp: addresses_inv_def tasks_ok_def)
  have sorted: "sorted_wrt (<) (map (queue_rank cap arrival \<circ> snd) ?B)" using ok(2) by (simp add: admissible_def)
  then have "distinct (map (queue_rank cap arrival) (map snd ?B))" by (simp add: strict_sorted_iff)
  then have dist: "distinct (map snd ?B)" by (simp add: distinct_map del: map_map)
  then have "length ?B = card (set ?B)" by (simp add: distinct_map distinct_card)
  also have "card (H q) + card (set ?B) = card (H q \<union> set ?B)" using ok(3) tasks(5) by (simp add: card_Un_disjoint)
  also have "\<dots> \<le> card act"
    unfolding ok(4) using tasks(2) act(1) by (rule order_trans [OF _ card_mono]) auto
  finally have "card (H q) + length ?B < 2 ^ 32" using act(2) by simp
  moreover have "counts (self_ref (snd w)) \<noteq> 0" if "w \<in> set ?B" for w
  proof -
    have "q \<in> waits_at queues (snd w)" using that by (auto simp: waits_at_def)
    moreover have "w \<in> at_address act ctx q" using that ok(4) by blast
    then have w: "snd w \<in> act" by (cases w) simp
    moreover have "finite (waits_at queues (snd w))"
      using waits_at_dom [OF inv, of "snd w"] inv w by (auto simp: addresses_inv_def tasks_ok_def intro: finite_subset)
    ultimately have "card (waits_at queues (snd w)) \<noteq> 0" by auto
    then have "unat (counts (self_ref (snd w))) \<noteq> 0" using inv w by (auto simp: addresses_inv_def)
    then show ?thesis by auto
  qed
  ultimately show ?thesis using ok tasks(3,5) dist by (simp add: ready_to_release_def)
qed

context address_queue
begin

lemma release_step:
  assumes inv: "addresses_inv cap arrival act ctx Z H queues (\<lambda>t. counts (self_ref t))" and cnt: "counts_all act Z counts"
    and t0: "t0 \<in> Z" and q: "ctx t0 q = Some u"
  shows "\<exists>q' N counts' H'. release t0 u (queues q) (ub, counts) = Ok (q', ub @ N, counts') \<and>
     addresses_inv cap arrival act (ctx(t0 := (ctx t0)(q := None))) (Z \<union> set N) (H(q := H')) (queues(q := q'))
       (\<lambda>t. counts' (self_ref t)) \<and>
     counts_all act (Z \<union> set N) counts' \<and> distinct N \<and> set N \<inter> Z = {} \<and>
     (\<forall>r. r \<notin> self_ref ` act \<longrightarrow> counts' r = counts r)"
proof -
  note ok = address_okD [OF inv, of q] and tasks = tasks_at_address [OF inv, of q]
  note ready = ready_to_release_at [OF inv, of q]
  let ?ctx = "ctx(t0 := (ctx t0)(q := None))"
  have act: "t0 \<in> act" using cnt t0 by (auto simp: counts_all_def)
  have "q \<notin> waits_at queues t0" using unblocked_waits_nowhere [OF inv cnt t0] by simp
  then have notB: "t0 \<notin> snd ` set (blocked_usages (queues q))" by (simp add: waits_at_def)
  have "(u, t0) \<in> H q \<union> set (blocked_usages (queues q))" using ok(4) act q by simp
  then have holder: "(u, t0) \<in> H q" using notB by force
  obtain P B q' where B: "blocked_usages (queues q) = P @ B"
    and rel: "release t0 u (queues q) (ub, counts) =
          Ok (q', ub @ map snd (filter (\<lambda>p. counts (self_ref (snd p)) = 1) P),
              \<lambda>r. if r \<in> self_ref ` snd ` set P then counts r - 1 else counts r)"
    and after: "records_holders cap (H q - {(u, t0)} \<union> set P) q'" "blocked_usages q' = B"
      "admissible (strict_order cap) (queue_rank cap arrival) Z (H q - {(u, t0)} \<union> set P) B"
    using release_law [OF ready holder, of ub] by blast
  define N where "N = map snd (filter (\<lambda>p. counts (self_ref (snd p)) = 1) P)"
  define counts' where "counts' = (\<lambda>r. if r \<in> self_ref ` snd ` set P then counts r - 1 else counts r)"
  have dist: "distinct (map snd P)" "snd ` set P \<inter> snd ` set B = {}"
    using ready B by (auto simp: ready_to_release_def)
  have "set P \<subseteq> at_address act ctx q" using ok(4) B by auto
  then have "snd ` set P \<subseteq> act" by auto
  moreover have "q \<in> waits_at queues t" if "t \<in> snd ` set P" for t using B that by (auto simp: waits_at_def)
  ultimately have P: "snd ` set P \<subseteq> act" "\<And>t. t \<in> snd ` set P \<Longrightarrow> q \<in> waits_at queues t" by blast+
  have PZ: "snd ` set P \<inter> Z = {}" using P(2) unblocked_waits_nowhere [OF inv cnt] by blast
  have refs: "self_ref t \<in> self_ref ` snd ` set P \<longleftrightarrow> t \<in> snd ` set P" if "t \<in> act" for t
    using inv that P(1) by (intro inj_on_image_mem_iff [of self_ref act]) (auto simp: addresses_inv_def tasks_ok_def)
  have nz: "counts (self_ref t) \<noteq> 0" if "t \<in> snd ` set P" for t
    using ready that B by (auto simp: ready_to_release_def)
  have N: "t \<in> set N \<longleftrightarrow> t \<in> snd ` set P \<and> counts (self_ref t) = 1" for t
    by (force simp: N_def)
  have U: "at_address act ?ctx q = at_address act ctx q - {(u, t0)}"
    using act q by (auto simp: at_address_def split: if_splits)
  have addr: "address_ok cap arrival Z (at_address act ?ctx q) (H q - {(u, t0)} \<union> set P) q'"
    using after ok(3) notB dist(2) unfolding address_ok_def U ok(4) [symmetric] B by force
  have "unat (counts' (self_ref t)) = card (waits_at (queues(q := q')) t)" if t: "t \<in> act" for t
  proof -
    have before: "unat (counts (self_ref t)) = card (waits_at queues t)" using inv t by (auto simp: addresses_inv_def)
    show ?thesis
    proof (cases "t \<in> snd ` set P")
      case True
      then show ?thesis
        using P(2) [OF True] before dist(2) refs [OF t] unat_minus_one [OF nz [OF True]]
        by (auto simp: counts'_def waits_at_update after(2))
    next
      case False
      then have "q \<in> waits_at queues t \<longleftrightarrow> t \<in> snd ` set B" using B by (auto simp: waits_at_def)
      then show ?thesis using False before refs [OF t] by (auto simp: counts'_def waits_at_update after(2) insert_absorb)
    qed
  qed
  moreover have "card (dom (?ctx t)) < 2 ^ 32" if "t \<in> act" for t
    using inv that card_Diff1_le [of "dom (ctx t0)" q]
    by (auto simp: addresses_inv_def tasks_ok_def intro: order_le_less_trans)
  ultimately have "addresses_inv cap arrival act ?ctx Z (H(q := H q - {(u, t0)} \<union> set P)) (queues(q := q')) (\<lambda>t. counts' (self_ref t))"
    by (intro addresses_inv_update [OF inv addr]) auto
  then have "addresses_inv cap arrival act ?ctx (Z \<union> set N) (H(q := H q - {(u, t0)} \<union> set P)) (queues(q := q')) (\<lambda>t. counts' (self_ref t))"
    by (rule addresses_inv_mono) blast
  moreover have "counts_all act (Z \<union> set N) counts'"
    unfolding counts_all_def
  proof (intro conjI ballI)
    show "Z \<union> set N \<subseteq> act" using cnt N P(1) by (auto simp: counts_all_def)
    show "t \<in> Z \<union> set N \<longleftrightarrow> counts' (self_ref t) = 0" if "t \<in> act" for t
      using that refs [OF that] N [of t] PZ nz [of t] cnt by (auto simp: counts'_def counts_all_def)
  qed
  moreover have "distinct N" "set N \<inter> Z = {}" using dist(1) N PZ by (auto simp: N_def distinct_map_filter)
  moreover have "counts' r = counts r" if "r \<notin> self_ref ` act" for r using that P(1) by (auto simp: counts'_def)
  ultimately show ?thesis using rel unfolding N_def [symmetric] counts'_def [symmetric] by blast
qed

lemma release_loop:
  assumes "addresses_inv cap arrival act ctx Z H queues (\<lambda>t. counts (self_ref t))" and "counts_all act Z counts"
    and "t0 \<in> Z" and "\<forall>x\<in>set cs. ctx t0 (usage_queue x) = Some (requested_usage x)"
    and "distinct (map usage_queue cs)"
  shows "\<exists>queues' N counts' H'. for_contexts (release t0) cs queues (ub, counts) = Ok (queues', ub @ N, counts') \<and>
     addresses_inv cap arrival act (ctx(t0 := ctx t0 |` (- usage_queue ` set cs))) (Z \<union> set N) H' queues'
       (\<lambda>t. counts' (self_ref t)) \<and>
     counts_all act (Z \<union> set N) counts' \<and> distinct N \<and> set N \<inter> Z = {} \<and>
     (\<forall>r. r \<notin> self_ref ` act \<longrightarrow> counts' r = counts r)"
  using assms
proof (induction cs arbitrary: ctx H queues Z counts ub)
  case Nil
  have "ctx(t0 := ctx t0 |` (- usage_queue ` set [])) = ctx" by (auto simp: restrict_map_def)
  then show ?case
    using Nil.prems(1,2)
    by (intro exI [of _ queues] exI [of _ "[]"] exI [of _ counts] exI [of _ H]) (simp del: fun_upd_apply)
next
  case (Cons x cs)
  let ?ctx = "ctx(t0 := (ctx t0)(usage_queue x := None))"
  have here: "ctx t0 (usage_queue x) = Some (requested_usage x)" using Cons.prems(4) by simp
  obtain q' N1 counts1 H1 where
    step: "release t0 (requested_usage x) (queues (usage_queue x)) (ub, counts) = Ok (q', ub @ N1, counts1)"
    "addresses_inv cap arrival act ?ctx (Z \<union> set N1) (H(usage_queue x := H1)) (queues(usage_queue x := q'))
       (\<lambda>t. counts1 (self_ref t))"
    "counts_all act (Z \<union> set N1) counts1" "distinct N1" "set N1 \<inter> Z = {}"
    "\<forall>r. r \<notin> self_ref ` act \<longrightarrow> counts1 r = counts r"
    using release_step [OF Cons.prems(1-3) here, of ub] by blast
  have x: "usage_queue x \<notin> usage_queue ` set cs" "distinct (map usage_queue cs)" using Cons.prems(5) by simp_all
  then have "\<forall>y\<in>set cs. ?ctx t0 (usage_queue y) = Some (requested_usage y)"
    using Cons.prems(4) by (metis fun_upd_other fun_upd_same image_eqI list.set_intros(2))
  moreover have "t0 \<in> Z \<union> set N1" using Cons.prems(3) by simp
  ultimately obtain queues' N counts' H' where
    IH: "for_contexts (release t0) cs (queues(usage_queue x := q')) (ub @ N1, counts1) = Ok (queues', (ub @ N1) @ N, counts')"
    "addresses_inv cap arrival act (?ctx(t0 := ?ctx t0 |` (- usage_queue ` set cs))) (Z \<union> set N1 \<union> set N) H' queues'
       (\<lambda>t. counts' (self_ref t))"
    "counts_all act (Z \<union> set N1 \<union> set N) counts'" "distinct N" "set N \<inter> (Z \<union> set N1) = {}"
    "\<forall>r. r \<notin> self_ref ` act \<longrightarrow> counts' r = counts1 r"
    using Cons.IH [OF step(2,3) _ _ x(2), of "ub @ N1"] by blast
  have "?ctx(t0 := ?ctx t0 |` (- usage_queue ` set cs)) = ctx(t0 := ctx t0 |` (- usage_queue ` set (x # cs)))"
    by (auto simp: restrict_map_def fun_eq_iff)
  then have "addresses_inv cap arrival act (ctx(t0 := ctx t0 |` (- usage_queue ` set (x # cs)))) (Z \<union> set (N1 @ N)) H' queues'
       (\<lambda>t. counts' (self_ref t))"
    using IH(2) by (simp only: set_append Un_assoc)
  moreover have "for_contexts (release t0) (x # cs) queues (ub, counts) = Ok (queues', ub @ (N1 @ N), counts')"
    using step(1) IH(1) by simp
  moreover have "counts_all act (Z \<union> set (N1 @ N)) counts'" using IH(3) by (simp add: Un_assoc)
  moreover have "distinct (N1 @ N)" "set (N1 @ N) \<inter> Z = {}" using step(4,5) IH(4,5) by auto
  moreover have "\<forall>r. r \<notin> self_ref ` act \<longrightarrow> counts' r = counts r" using step(6) IH(6) by simp
  ultimately show ?case by blast
qed

end

section \<open>Adding and removing tasks\<close>

lemma admissible_cong:
  assumes "\<And>x. x \<in> H \<union> set B \<Longrightarrow> rank' (snd x) = rank (snd x) \<and> (snd x \<in> Z' \<longleftrightarrow> snd x \<in> Z)"
  shows "admissible strict rank' Z' H B \<longleftrightarrow> admissible strict rank Z H B"
proof -
  have "map (rank' \<circ> snd) B = map (rank \<circ> snd) B" using assms by simp
  moreover have "(\<forall>h\<in>H. \<forall>b\<in>set B. rank' (snd h) < rank' (snd b) \<or> \<not> strict \<and> snd h \<in> Z') \<longleftrightarrow>
      (\<forall>h\<in>H. \<forall>b\<in>set B. rank (snd h) < rank (snd b) \<or> \<not> strict \<and> snd h \<in> Z)"
    using assms by (intro ball_cong refl) simp
  ultimately show ?thesis by (simp only: admissible_def)
qed

text \<open>The invariant depends on the arrival, the usages and \<open>Z\<close> of the active tasks only.\<close>

lemma addresses_inv_cong:
  assumes inv: "addresses_inv cap arrival act ctx Z H queues cnt"
    and same: "\<And>t. t \<in> act \<Longrightarrow> arrival' t = arrival t \<and> ctx' t = ctx t \<and> (t \<in> Z' \<longleftrightarrow> t \<in> Z) \<and> cnt' t = cnt t"
  shows "addresses_inv cap arrival' act ctx' Z' H queues cnt'"
proof -
  have rank: "queue_rank cap arrival' t = queue_rank cap arrival t" if "t \<in> act" for t
    using same [OF that] by (cases cap) simp_all
  have U: "at_address act ctx' q = at_address act ctx q" for q using same by (auto simp: at_address_def)
  have "address_ok cap arrival' Z' (at_address act ctx' q) (H q) (queues q)" for q
  proof -
    have members: "snd x \<in> act" if "x \<in> H q \<union> set (blocked_usages (queues q))" for x
      using that unfolding address_okD(4) [OF inv] by (cases x) simp
    have "admissible (strict_order cap) (queue_rank cap arrival') Z' (H q) (blocked_usages (queues q))"
    proof (rule iffD2 [OF admissible_cong])
      show "admissible (strict_order cap) (queue_rank cap arrival) Z (H q) (blocked_usages (queues q))"
        by (rule address_okD(2) [OF inv])
    qed (use rank same members in simp)
    then show ?thesis using address_okD [OF inv, of q] by (simp add: address_ok_def U)
  qed
  moreover have "inj_on (queue_rank cap arrival') act"
    using inv rank by (auto simp: addresses_inv_def tasks_ok_def inj_on_def)
  ultimately show ?thesis using inv same by (auto simp: addresses_inv_def tasks_ok_def)
qed

lemma addresses_inv_insert:
  assumes inv: "addresses_inv cap arrival act ctx Z H queues cnt" and "new \<notin> act" and "card act + 1 < 2 ^ 32"
    and "self_ref new \<notin> self_ref ` act" and "queue_rank cap arrival new \<notin> queue_rank cap arrival ` act"
    and "ctx new = Map.empty" and "cnt new = 0"
  shows "addresses_inv cap arrival (insert new act) ctx Z H queues cnt"
proof -
  have "at_address (insert new act) ctx q = at_address act ctx q" for q using assms(6) by (auto simp: at_address_def)
  moreover have "waits_at queues new = {}" using waits_at_dom [OF inv, of new] assms(6) by simp
  ultimately show ?thesis using assms by (auto simp: addresses_inv_def tasks_ok_def)
qed

lemma addresses_inv_remove:
  assumes inv: "addresses_inv cap arrival act ctx Z H queues cnt" and "ctx t = Map.empty"
  shows "addresses_inv cap arrival (act - {t}) ctx Z H queues cnt"
proof -
  have "at_address (act - {t}) ctx q = at_address act ctx q" for q using assms(2) by (auto simp: at_address_def)
  moreover have "card (act - {t}) < 2 ^ 32"
    using inv card_Diff1_le [of act t] by (simp add: addresses_inv_def tasks_ok_def)
  ultimately show ?thesis using inv by (auto simp: addresses_inv_def tasks_ok_def intro: inj_on_subset)
qed

section \<open>What the invariant gives\<close>

lemma unblocked_holds:
  assumes "addresses_inv cap arrival act ctx Z H queues (\<lambda>t. counts (self_ref t))" and "counts_all act Z counts"
    and "t \<in> Z" and "ctx t q = Some u"
  shows "(u, t) \<in> H q"
proof -
  have "t \<in> act" using assms(2,3) by (auto simp: counts_all_def)
  then have "(u, t) \<in> H q \<union> set (blocked_usages (queues q))" using address_okD(4) [OF assms(1), of q] assms(4) by simp
  moreover have "q \<notin> waits_at queues t" using unblocked_waits_nowhere [OF assms(1-3)] by simp
  ultimately show ?thesis by (force simp: waits_at_def)
qed

text \<open>Two tasks with no blocked usage share an address only for reading.\<close>

lemma unblocked_compatible:
  assumes "addresses_inv cap arrival act ctx Z H queues (\<lambda>t. counts (self_ref t))" and "counts_all act Z counts"
    and "t1 \<in> Z" "t2 \<in> Z" "t1 \<noteq> t2" and "ctx t1 q = Some u1" "ctx t2 q = Some u2"
  shows "u1 = Readonly \<and> u2 = Readonly"
proof -
  have "(u1, t1) \<in> H q" "(u2, t2) \<in> H q" using unblocked_holds [OF assms(1,2)] assms by auto
  moreover have "compatible (H q)" using address_okD(2) [OF assms(1), of q] by (simp add: admissible_def)
  ultimately show ?thesis using assms(5) by (auto simp: compatible_def)
qed

text \<open>
  The active task that comes first has no blocked usage, or one that blocks it has none: there is no deadlock.
\<close>

lemma some_task_unblocked:
  assumes inv: "addresses_inv cap arrival act ctx Z H queues (\<lambda>t. counts (self_ref t))" and cnt: "counts_all act Z counts"
    and "act \<noteq> {}"
  shows "Z \<noteq> {}"
proof -
  have "finite act" using inv by (simp add: addresses_inv_def tasks_ok_def)
  then obtain t where t: "t \<in> act" "\<forall>t'\<in>act. queue_rank cap arrival t \<le> queue_rank cap arrival t'"
    using assms(3) by (metis arg_min_if_finite(1) arg_min_if_finite(2) linorder_not_less)
  show ?thesis
  proof (cases "waits_at queues t = {}")
    case True
    then have "unat (counts (self_ref t)) = 0" using inv t(1) by (auto simp: addresses_inv_def)
    then have "t \<in> Z" using cnt t(1) by (simp add: counts_all_def unat_eq_0)
    then show ?thesis by blast
  next
    case False
    then obtain q u where b: "(u, t) \<in> set (blocked_usages (queues q))" by (auto simp: waits_at_def)
    then have "H q \<noteq> {}" using address_okD(2) [OF inv, of q] by (auto simp: admissible_def)
    then obtain h where h: "h \<in> H q" by blast
    then have "h \<in> at_address act ctx q" using address_okD(4) [OF inv, of q] by blast
    then have "snd h \<in> act" by (cases h) simp
    moreover have "queue_rank cap arrival (snd h) < queue_rank cap arrival t \<or> snd h \<in> Z"
      using address_okD(2) [OF inv, of q] h b by (force simp: admissible_def)
    ultimately show ?thesis using t(2) by fastforce
  qed
qed

text \<open>In first-in-first-out queues a task waits for every earlier task that it conflicts with.\<close>

lemma fifo_order:
  assumes inv: "addresses_inv FifoQueueing arrival act ctx Z H queues (\<lambda>t. counts (self_ref t))" and "counts_all act Z counts"
    and "t1 \<in> act" "t2 \<in> act" "arrival t1 < arrival t2" and "ctx t1 q = Some u1" "ctx t2 q = Some u2"
    and "\<not> (u1 = Readonly \<and> u2 = Readonly)"
  shows "t2 \<notin> Z"
proof
  assume "t2 \<in> Z"
  then have h2: "(u2, t2) \<in> H q" using unblocked_holds [OF assms(1,2)] assms(7) by blast
  have "(u1, t1) \<in> H q \<union> set (blocked_usages (queues q))" using address_okD(4) [OF inv, of q] assms(3,6) by simp
  then show False
  proof
    assume "(u1, t1) \<in> H q"
    moreover have "compatible (H q)" using address_okD(2) [OF inv, of q] by (simp add: admissible_def)
    ultimately show False using h2 assms(5,8) by (auto simp: compatible_def)
  next
    assume "(u1, t1) \<in> set (blocked_usages (queues q))"
    then have "arrival t2 < arrival t1" using address_okD(2) [OF inv, of q] h2 by (force simp: admissible_def)
    then show False using assms(5) by simp
  qed
qed

text \<open>With no active task every queue is as it was created.\<close>

lemma queues_restored:
  assumes inv: "addresses_inv cap arrival {} ctx Z H queues cnt"
  shows "queues q = UsageQueueInner_new cap"
proof -
  have "H q \<union> set (blocked_usages (queues q)) = {}" using address_okD(4) [OF inv, of q] by (simp add: at_address_def)
  then show ?thesis
    using address_okD(1) [OF inv, of q]
    by (cases cap; cases "queues q") (auto simp: with_fifo_def with_priority_def split: option.splits Usage.splits)
qed

end
