(* ===== verification/Scheduler_Runs.thy ===== *)
theory Scheduler_Runs
  imports Scheduler_Addresses
begin

text \<open>
  The runs of a scheduling state machine that is used as its documentation asks, the invariant of their states, and
  the properties of the scheduler: exclusion, no panic, order, progress and the effect of clearing.
\<close>

section \<open>Runs\<close>

definition task_ctx :: "('k, 'h) TaskInner \<Rightarrow> queue_ref \<rightharpoonup> RequestedUsage" where
  "task_ctx t = contexts_map (lock_contexts t)"

text \<open>
  The documented use: the addresses of a task are distinct (\<open>validate_account_locks\<close> has been called), the task is
  new, and with priority queues its id is not the id of an active task.
\<close>

definition fresh_task ::
  "Capability \<Rightarrow> ('k, 'h) TaskInner set \<Rightarrow> ('k, 'h) SchedulingStateMachine \<Rightarrow> ('k, 'h) TaskInner \<Rightarrow> bool" where
  "fresh_task cap act s t \<longleftrightarrow>
     distinct (map usage_queue (lock_contexts t)) \<and> length (lock_contexts t) < 2 ^ 32 \<and>
     self_ref t \<notin> self_ref ` act \<and> count_token s (self_ref t) = 0 \<and>
     (cap = PriorityQueueing \<longrightarrow> task_id t \<notin> task_id ` act)"

definition drops :: "('k, 'h) TaskInner \<Rightarrow> ('k, 'h) SchedulingStateMachine \<Rightarrow> bool" where
  "drops t s \<longleftrightarrow>
     (case max_unique_active_task_count s of
        None \<Rightarrow> False
      | Some m \<Rightarrow> card (unique_active_task_hashes s) \<ge> m \<or> task_hash t \<in> unique_active_task_hashes s)"

text \<open>
  The counters are 32 bits wide and the caller has to reinitialize the machine before they overflow. A buffered task
  counts twice in \<open>unblocked_task_count\<close>, so there is room for half of their range.
\<close>

definition counter_room :: "('k, 'h) SchedulingStateMachine \<Rightarrow> bool" where
  "counter_room s \<longleftrightarrow> unat (total_task_count s) + 1 < 2 ^ 31"

text \<open>
  \<open>sched_run cap act arrival run s\<close>: the state \<open>s\<close> is reached with active tasks \<open>act\<close>, of which \<open>run\<close> have been
  given out and not yet descheduled. \<open>arrival\<close> numbers the tasks in the order in which they were taken. A task that
  is created gets a cell for its count.
\<close>

inductive sched_run ::
  "Capability \<Rightarrow> ('k, 'h) TaskInner set \<Rightarrow> (('k, 'h) TaskInner \<Rightarrow> nat) \<Rightarrow> ('k, 'h) TaskInner set \<Rightarrow>
   ('k, 'h) SchedulingStateMachine \<Rightarrow> bool" for cap where
  init: "exclusively_initialize_current_thread_for_scheduling max_running max_unique counts (\<lambda>_. UsageQueueInner_new cap) = Ok s \<Longrightarrow>
     sched_run cap {} arrival {} s"
| create: "sched_run cap act arrival run s \<Longrightarrow> r \<notin> self_ref ` act \<Longrightarrow>
     sched_run cap act arrival run (s\<lparr>count_token := (count_token s)(r := 0)\<rparr>)"
| schedule: "sched_run cap act arrival run s \<Longrightarrow> fresh_task cap act s t \<Longrightarrow> \<not> drops t s \<Longrightarrow> counter_room s \<Longrightarrow>
     \<forall>t'\<in>act. arrival t' < n \<Longrightarrow> schedule_or_buffer_task t force_buffering s = Ok (x, s') \<Longrightarrow>
     sched_run cap (insert t act) (arrival(t := n)) (run \<union> set_option x) s'"
| drop: "sched_run cap act arrival run s \<Longrightarrow> drops t s \<Longrightarrow> counter_room s \<Longrightarrow>
     schedule_or_buffer_task t force_buffering s = Ok (x, s') \<Longrightarrow> sched_run cap act arrival run s'"
| take_next: "sched_run cap act arrival run s \<Longrightarrow> schedule_next_unblocked_task s = Ok (x, s') \<Longrightarrow>
     sched_run cap act arrival (run \<union> set_option x) s'"
| deschedule: "sched_run cap act arrival run s \<Longrightarrow> t \<in> run \<Longrightarrow> deschedule_task t s = Ok s' \<Longrightarrow>
     sched_run cap (act - {t}) arrival (run - {t}) s'"
| reinit: "sched_run cap act arrival run s \<Longrightarrow> reinitialize s = Ok s' \<Longrightarrow> sched_run cap act arrival run s'"

section \<open>The invariant of a run\<close>

definition sched_addresses ::
  "Capability \<Rightarrow> ('k, 'h) TaskInner set \<Rightarrow> (('k, 'h) TaskInner \<Rightarrow> nat) \<Rightarrow> ('k, 'h) TaskInner set \<Rightarrow>
   ('k, 'h) SchedulingStateMachine \<Rightarrow> bool" where
  "sched_addresses cap act arrival Z s \<longleftrightarrow>
     counts_all act Z (count_token s) \<and>
     (\<exists>H. addresses_inv cap arrival act task_ctx Z H (usage_queue_token s) (\<lambda>t. count_token s (self_ref t))) \<and>
     (\<forall>t\<in>act. distinct (map usage_queue (lock_contexts t)))"

definition sched_counters ::
  "('k, 'h) TaskInner set \<Rightarrow> ('k, 'h) TaskInner set \<Rightarrow> ('k, 'h) SchedulingStateMachine \<Rightarrow> bool" where
  "sched_counters act run s \<longleftrightarrow>
     finite act \<and> run \<subseteq> act \<and>
     unat (active_task_count s) = card act \<and> unat (running_task_count s) = card run \<and>
     unat (handled_task_count s) + card act + unat (dropped_task_count s) = unat (total_task_count s) \<and>
     unat (total_task_count s) < 2 ^ 31 \<and>
     unat (unblocked_task_count s) \<le> 2 * unat (handled_task_count s) + card run + card act \<and>
     (case max_unique_active_task_count s of
        None \<Rightarrow> unique_active_task_hashes s = {}
      | Some _ \<Rightarrow> unique_active_task_hashes s = task_hash ` act \<and> inj_on task_hash act)"

definition sched_inv ::
  "Capability \<Rightarrow> ('k, 'h) TaskInner set \<Rightarrow> (('k, 'h) TaskInner \<Rightarrow> nat) \<Rightarrow> ('k, 'h) TaskInner set \<Rightarrow>
   ('k, 'h) SchedulingStateMachine \<Rightarrow> bool" where
  "sched_inv cap act arrival run s \<longleftrightarrow>
     sched_addresses cap act arrival (run \<union> set (unblocked_task_queue s)) s \<and> sched_counters act run s \<and>
     distinct (unblocked_task_queue s) \<and> run \<inter> set (unblocked_task_queue s) = {}"

text \<open>The loops over the contexts of a task, for both capabilities.\<close>

lemma lock_contexts_spec:
  assumes "addresses_inv cap arrival act ctx Z H queues cnt" and "counts_new act Z new c counts cnt"
    and "\<forall>x\<in>set cs. ctx new (usage_queue x) = None" and "distinct (map usage_queue cs)"
    and "card (dom (ctx new)) + length cs < 2 ^ 32"
    and "strict_order cap \<Longrightarrow> \<forall>t\<in>act - {new}. arrival t < arrival new"
  shows "\<exists>queues' c' counts' H' cnt'. for_contexts (lock_or_block new) cs queues (c, counts) = Ok (queues', c', counts') \<and>
     addresses_inv cap arrival act (ctx(new := ctx new ++ contexts_map cs)) Z H' queues' cnt' \<and>
     counts_new act Z new c' counts' cnt' \<and> (\<forall>r. r \<notin> self_ref ` (act - {new}) \<longrightarrow> counts' r = counts r)"
proof (cases cap)
  case FifoQueueing
  show ?thesis using assms unfolding FifoQueueing by (rule fifo.lock_loop)
next
  case PriorityQueueing
  show ?thesis using assms unfolding PriorityQueueing by (rule prio.lock_loop)
qed

lemma release_contexts_spec:
  assumes "addresses_inv cap arrival act ctx Z H queues (\<lambda>t. counts (self_ref t))" and "counts_all act Z counts"
    and "t0 \<in> Z" and "\<forall>x\<in>set cs. ctx t0 (usage_queue x) = Some (requested_usage x)"
    and "distinct (map usage_queue cs)"
  shows "\<exists>queues' N counts' H'. for_contexts (release_usage t0) cs queues (ub, counts) = Ok (queues', ub @ N, counts') \<and>
     addresses_inv cap arrival act (ctx(t0 := ctx t0 |` (- usage_queue ` set cs))) (Z \<union> set N) H' queues'
       (\<lambda>t. counts' (self_ref t)) \<and>
     counts_all act (Z \<union> set N) counts' \<and> distinct N \<and> set N \<inter> Z = {} \<and>
     (\<forall>r. r \<notin> self_ref ` act \<longrightarrow> counts' r = counts r)"
proof (cases cap)
  case FifoQueueing
  show ?thesis using assms unfolding FifoQueueing by (rule fifo.release_loop)
next
  case PriorityQueueing
  show ?thesis using assms unfolding PriorityQueueing by (rule prio.release_loop)
qed

section \<open>The operations keep the invariant\<close>

lemma notin_imageD: "f x \<notin> f ` A \<Longrightarrow> y \<in> A \<Longrightarrow> f y \<noteq> f x"
  by (metis imageI)

text \<open>A new task, before its addresses are locked.\<close>

lemma addresses_inv_new:
  assumes inv: "addresses_inv cap arrival act task_ctx Z H queues (\<lambda>t. counts (self_ref t))"
    and "counts_all act Z counts" and "self_ref t \<notin> self_ref ` act" and "counts (self_ref t) = 0"
    and "cap = PriorityQueueing \<Longrightarrow> task_id t \<notin> task_id ` act" and "\<forall>t'\<in>act. arrival t' < n" and "card act + 1 < 2 ^ 32"
  shows "addresses_inv cap (arrival(t := n)) (insert t act) (task_ctx(t := Map.empty)) Z H queues (\<lambda>t. counts (self_ref t))"
    and "counts_new (insert t act) Z t 0 counts (\<lambda>t. counts (self_ref t))"
proof -
  have t: "t \<notin> act" using assms(3) by blast
  have "queue_rank cap (arrival(t := n)) t \<notin> queue_rank cap (arrival(t := n)) ` act"
  proof (cases cap)
    case FifoQueueing
    then show ?thesis using assms(6) t by auto
  next
    case PriorityQueueing
    then have "unat (task_id t) \<noteq> unat (task_id t')" if "t' \<in> act" for t'
      using notin_imageD [OF assms(5) that] by (simp add: word_unat_eq_iff [symmetric])
    then show ?thesis using PriorityQueueing by auto
  qed
  moreover have "addresses_inv cap (arrival(t := n)) act (task_ctx(t := Map.empty)) Z H queues (\<lambda>t. counts (self_ref t))"
    using inv by (rule addresses_inv_cong) (use t in auto)
  ultimately show "addresses_inv cap (arrival(t := n)) (insert t act) (task_ctx(t := Map.empty)) Z H queues (\<lambda>t. counts (self_ref t))"
    using t assms(3,4,7) by (intro addresses_inv_insert) auto
  show "counts_new (insert t act) Z t 0 counts (\<lambda>t. counts (self_ref t))"
    using assms(2,4) t by (auto simp: counts_new_def counts_all_def)
qed

lemma try_lock_usage_queues_spec:
  assumes addr: "sched_addresses cap act arrival Z s" and fresh: "fresh_task cap act s t"
    and n: "\<forall>t'\<in>act. arrival t' < n" and card: "card act + 1 < 2 ^ 32"
  shows "\<exists>x queues' counts'. x \<in> {None, Some t} \<and>
     try_lock_usage_queues t s = Ok (x, s\<lparr>usage_queue_token := queues', count_token := counts'\<rparr>) \<and>
     sched_addresses cap (insert t act) (arrival(t := n)) (Z \<union> set_option x)
       (s\<lparr>usage_queue_token := queues', count_token := counts'\<rparr>) \<and>
     (\<forall>r. r \<notin> self_ref ` insert t act \<longrightarrow> counts' r = count_token s r)"
proof -
  obtain H where inv: "addresses_inv cap arrival act task_ctx Z H (usage_queue_token s) (\<lambda>t. count_token s (self_ref t))"
    and cnt: "counts_all act Z (count_token s)" and dist: "\<forall>t\<in>act. distinct (map usage_queue (lock_contexts t))"
    using addr by (auto simp: sched_addresses_def)
  have t: "distinct (map usage_queue (lock_contexts t))" "length (lock_contexts t) < 2 ^ 32" "self_ref t \<notin> self_ref ` act"
    "count_token s (self_ref t) = 0" "cap = PriorityQueueing \<Longrightarrow> task_id t \<notin> task_id ` act"
    using fresh by (auto simp: fresh_task_def)
  then have "t \<notin> act" by blast
  note start = addresses_inv_new [OF inv cnt t(3-5) n card]
  have "\<forall>t'\<in>insert t act - {t}. (arrival(t := n)) t' < (arrival(t := n)) t" using n \<open>t \<notin> act\<close> by auto
  then obtain queues' c counts' H' cnt' where
    loop: "for_contexts (lock_or_block t) (lock_contexts t) (usage_queue_token s) (0, count_token s) = Ok (queues', c, counts')"
    "addresses_inv cap (arrival(t := n)) (insert t act)
       ((task_ctx(t := Map.empty))(t := (task_ctx(t := Map.empty)) t ++ contexts_map (lock_contexts t))) Z H' queues' cnt'"
    "counts_new (insert t act) Z t c counts' cnt'"
    "\<forall>r. r \<notin> self_ref ` (insert t act - {t}) \<longrightarrow> counts' r = count_token s r"
    using lock_contexts_spec [OF start, of "lock_contexts t"] t(1,2) by auto
  have ctx: "(task_ctx(t := Map.empty))(t := (task_ctx(t := Map.empty)) t ++ contexts_map (lock_contexts t)) = task_ctx"
    by (auto simp: task_ctx_def)
  have old: "cnt' t' = counts' (self_ref t')" "t' \<in> Z \<longleftrightarrow> cnt' t' = 0" "self_ref t' \<noteq> self_ref t" if "t' \<in> act" for t'
    using loop(3) that notin_imageD [OF t(3) that] \<open>t \<notin> act\<close> by (auto simp: counts_new_def)
  have "Z \<subseteq> act" "t \<notin> Z" using cnt \<open>t \<notin> act\<close> by (auto simp: counts_all_def)
  show ?thesis
  proof (cases "c = 0")
    case True
    have "counts' (self_ref t) = 0" using loop(4) t(3,4) \<open>t \<notin> act\<close> by auto
    then have zero: "cnt' t' = counts' (self_ref t')" if "t' \<in> insert t act" for t'
      using that old(1) loop(3) True by (auto simp: counts_new_def)
    have "addresses_inv cap (arrival(t := n)) (insert t act) task_ctx (Z \<union> {t}) H' queues' cnt'"
      using loop(2) unfolding ctx by (rule addresses_inv_mono) blast
    then have "addresses_inv cap (arrival(t := n)) (insert t act) task_ctx (Z \<union> {t}) H' queues' (\<lambda>t. counts' (self_ref t))"
      by (rule addresses_inv_cong) (use zero in auto)
    moreover have "counts_all (insert t act) (Z \<union> {t}) counts'"
      using old \<open>Z \<subseteq> act\<close> \<open>counts' (self_ref t) = 0\<close> by (auto simp: counts_all_def)
    ultimately show ?thesis
      using loop(1,4) True dist t(1)
      by (intro exI [of _ "Some t"] exI [of _ queues'] exI [of _ counts'])
        (auto simp: try_lock_usage_queues_def sched_addresses_def)
  next
    case False
    define counts2 where "counts2 = set_blocked_usage_count t c counts'"
    have c2: "cnt' t' = counts2 (self_ref t')" if "t' \<in> insert t act" for t'
      using that old loop(3) by (auto simp: counts_new_def counts2_def set_blocked_usage_count_def)
    have frame2: "\<forall>r. r \<notin> self_ref ` insert t act \<longrightarrow> counts2 r = count_token s r"
      using loop(4) by (auto simp: counts2_def set_blocked_usage_count_def)
    have "addresses_inv cap (arrival(t := n)) (insert t act) task_ctx Z H' queues' (\<lambda>t. counts2 (self_ref t))"
      using loop(2) unfolding ctx by (rule addresses_inv_cong) (use c2 in auto)
    moreover have "counts_all (insert t act) Z counts2"
      unfolding counts_all_def using old c2 \<open>Z \<subseteq> act\<close> \<open>t \<notin> Z\<close> False loop(3) by (auto simp: counts_new_def)
    ultimately show ?thesis
      using loop(1) False dist t(1) frame2 unfolding counts2_def
      by (intro exI [of _ None] exI [of _ queues'] exI [of _ "set_blocked_usage_count t c counts'"])
        (auto simp: try_lock_usage_queues_def sched_addresses_def)
  qed
qed

lemma unlock_usage_queues_spec:
  assumes addr: "sched_addresses cap act arrival (Z \<union> set (unblocked_task_queue s)) s" and "t \<in> Z"
    and "distinct (unblocked_task_queue s)" and "t \<notin> set (unblocked_task_queue s)" and "Z \<inter> set (unblocked_task_queue s) = {}"
  shows "\<exists>queues' N counts'.
     unlock_usage_queues t s =
       Ok (s\<lparr>usage_queue_token := queues', unblocked_task_queue := unblocked_task_queue s @ N, count_token := counts'\<rparr>) \<and>
     sched_addresses cap (act - {t}) arrival (Z - {t} \<union> set (unblocked_task_queue s @ N))
       (s\<lparr>usage_queue_token := queues', unblocked_task_queue := unblocked_task_queue s @ N, count_token := counts'\<rparr>) \<and>
     distinct (unblocked_task_queue s @ N) \<and> (Z - {t}) \<inter> set (unblocked_task_queue s @ N) = {} \<and>
     (\<forall>r. r \<notin> self_ref ` act \<longrightarrow> counts' r = count_token s r)"
proof -
  let ?Z = "Z \<union> set (unblocked_task_queue s)"
  obtain H where inv: "addresses_inv cap arrival act task_ctx ?Z H (usage_queue_token s) (\<lambda>t. count_token s (self_ref t))"
    and cnt: "counts_all act ?Z (count_token s)" and dist: "\<forall>t\<in>act. distinct (map usage_queue (lock_contexts t))"
    using addr by (auto simp: sched_addresses_def)
  have t: "t \<in> ?Z" "t \<in> act" "distinct (map usage_queue (lock_contexts t))"
    using assms(2) cnt dist by (auto simp: counts_all_def)
  have "\<forall>x\<in>set (lock_contexts t). task_ctx t (usage_queue x) = Some (requested_usage x)"
    using t(3) by (auto simp: task_ctx_def contexts_map_def map_of_eq_Some_iff o_def)
  then obtain queues' N counts' H' where
    loop: "for_contexts (release_usage t) (lock_contexts t) (usage_queue_token s) (unblocked_task_queue s, count_token s) =
       Ok (queues', unblocked_task_queue s @ N, counts')"
    "addresses_inv cap arrival act (task_ctx(t := task_ctx t |` (- usage_queue ` set (lock_contexts t)))) (?Z \<union> set N) H' queues'
       (\<lambda>t. counts' (self_ref t))"
    "counts_all act (?Z \<union> set N) counts'" "distinct N" "set N \<inter> ?Z = {}"
    "\<forall>r. r \<notin> self_ref ` act \<longrightarrow> counts' r = count_token s r"
    using release_contexts_spec [OF inv cnt t(1) _ t(3), of "unblocked_task_queue s"] by blast
  have "task_ctx t |` (- usage_queue ` set (lock_contexts t)) = Map.empty"
    using dom_contexts_map [of "lock_contexts t"] by (auto simp: task_ctx_def restrict_map_def fun_eq_iff)
  then have "addresses_inv cap arrival (act - {t}) (task_ctx(t := Map.empty)) (?Z \<union> set N) H' queues' (\<lambda>t. counts' (self_ref t))"
    using loop(2) by (intro addresses_inv_remove) simp_all
  then have "addresses_inv cap arrival (act - {t}) task_ctx (Z - {t} \<union> set (unblocked_task_queue s @ N)) H' queues' (\<lambda>t. counts' (self_ref t))"
    by (rule addresses_inv_cong) auto
  moreover have "t \<notin> set N" using loop(5) t(1) by blast
  moreover have "counts_all (act - {t}) (Z - {t} \<union> set (unblocked_task_queue s @ N)) counts'"
    using loop(3) assms(4) \<open>t \<notin> set N\<close> by (auto simp: counts_all_def)
  ultimately show ?thesis
    using loop(1,4,5,6) assms(3,5) dist
    by (intro exI [of _ queues'] exI [of _ N] exI [of _ counts']) (auto simp: unlock_usage_queues_def sched_addresses_def)
qed

lemma increment_Ok: "unat c + 1 < 2 ^ 32 \<Longrightarrow> increment c = Ok (c + 1) \<and> unat (c + 1) = unat c + 1"
  using below_max unat_increment by (simp add: increment_def)

lemma decrement_Ok: "unat c \<noteq> 0 \<Longrightarrow> decrement c = Ok (c - 1) \<and> unat (c - 1) = unat c - 1"
  using unat_minus_one [of c] by (auto simp: decrement_def)

lemma lock_new_task_spec:
  assumes addr: "sched_addresses cap act arrival (run \<union> set (unblocked_task_queue s)) s" and fresh: "fresh_task cap act s t"
    and n: "\<forall>t'\<in>act. arrival t' < n"
    and q: "distinct (unblocked_task_queue s)" "run \<inter> set (unblocked_task_queue s) = {}" "run \<subseteq> act"
    and room: "card act + 1 < 2 ^ 32" "unat (active_task_count s) = card act" "unat (running_task_count s) + 1 < 2 ^ 32"
      "unat (unblocked_task_count s) + 1 < 2 ^ 32"
  shows "\<exists>x s'. lock_new_task t force_buffering s = Ok (x, s') \<and> x \<in> {None, Some t} \<and> (force_buffering \<longrightarrow> x = None) \<and>
     sched_addresses cap (insert t act) (arrival(t := n)) (run \<union> set_option x \<union> set (unblocked_task_queue s')) s' \<and>
     distinct (unblocked_task_queue s') \<and> (run \<union> set_option x) \<inter> set (unblocked_task_queue s') = {} \<and>
     unat (active_task_count s') = card act + 1 \<and>
     unat (running_task_count s') = unat (running_task_count s) + (if x = None then 0 else 1) \<and>
     unat (unblocked_task_count s') \<le> unat (unblocked_task_count s) + 1 \<and>
     handled_task_count s' = handled_task_count s \<and> dropped_task_count s' = dropped_task_count s \<and>
     total_task_count s' = total_task_count s \<and> max_unique_active_task_count s' = max_unique_active_task_count s \<and>
     unique_active_task_hashes s' = unique_active_task_hashes s \<and>
     (\<forall>r. r \<notin> self_ref ` insert t act \<longrightarrow> count_token s' r = count_token s r)"
proof -
  define active where "active = active_task_count s + 1"
  have active: "increment (active_task_count s) = Ok active" "unat active = card act + 1"
    using increment_Ok [of "active_task_count s"] room(1,2) by (simp_all add: active_def)
  define s0 where "s0 = s\<lparr>active_task_count := active, peak_active_task_count := max_self (peak_active_task_count s) active\<rparr>"
  let ?Z = "run \<union> set (unblocked_task_queue s)"
  have addr0: "sched_addresses cap act arrival ?Z s0" using addr by (simp add: s0_def sched_addresses_def)
  have fresh0: "fresh_task cap act s0 t" using fresh by (simp add: s0_def fresh_task_def)
  obtain x queues' counts' where x: "x \<in> {None, Some t}"
    and lock: "try_lock_usage_queues t s0 = Ok (x, s0\<lparr>usage_queue_token := queues', count_token := counts'\<rparr>)"
    and after: "sched_addresses cap (insert t act) (arrival(t := n)) (?Z \<union> set_option x)
       (s0\<lparr>usage_queue_token := queues', count_token := counts'\<rparr>)"
    and frame: "\<forall>r. r \<notin> self_ref ` insert t act \<longrightarrow> counts' r = count_token s r"
    using try_lock_usage_queues_spec [OF addr0 fresh0 n room(1)] by (auto simp: s0_def)
  define s1 where "s1 = s0\<lparr>usage_queue_token := queues', count_token := counts'\<rparr>"
  have "?Z \<subseteq> act" using addr by (auto simp: sched_addresses_def counts_all_def)
  moreover have "t \<notin> act" using fresh by (auto simp: fresh_task_def)
  ultimately have t: "t \<notin> ?Z" by blast
  show ?thesis
  proof (cases x)
    case None
    then have "lock_new_task t force_buffering s = Ok (None, s1)"
      using active(1) lock by (simp add: lock_new_task_def s0_def s1_def)
    then show ?thesis
      using after None q active(2) frame by (intro exI [of _ None] exI [of _ s1]) (simp add: s1_def s0_def)
  next
    case (Some t')
    then have [simp]: "t' = t" using x by simp
    show ?thesis
    proof (cases "\<not> is_task_runnable s1 \<or> force_buffering")
      case True
      define s2 where "s2 = s1\<lparr>unblocked_task_count := unblocked_task_count s + 1, unblocked_task_queue := unblocked_task_queue s @ [t]\<rparr>"
      have "lock_new_task t force_buffering s = Ok (None, s2)"
        using active(1) lock Some True increment_Ok [OF room(4)]
        by (simp add: lock_new_task_def s0_def s1_def s2_def)
      moreover have "sched_addresses cap (insert t act) (arrival(t := n)) (run \<union> set (unblocked_task_queue s2)) s2"
        using after Some by (simp add: s2_def s1_def sched_addresses_def)
      ultimately show ?thesis
        using q t active(2) frame increment_Ok [OF room(4)] by (intro exI [of _ None] exI [of _ s2]) (simp add: s2_def s1_def s0_def)
    next
      case False
      define s2 where "s2 = s1\<lparr>running_task_count := running_task_count s + 1\<rparr>"
      have "lock_new_task t force_buffering s = Ok (Some t, s2)"
        using active(1) lock Some False increment_Ok [OF room(3)]
        by (simp add: lock_new_task_def s0_def s1_def s2_def)
      moreover have "sched_addresses cap (insert t act) (arrival(t := n)) (run \<union> {t} \<union> set (unblocked_task_queue s2)) s2"
        using after Some by (simp add: s2_def s1_def s0_def sched_addresses_def insert_commute)
      ultimately show ?thesis
        using q t active(2) frame increment_Ok [OF room(3)] False by (intro exI [of _ "Some t"] exI [of _ s2]) (simp add: s2_def s1_def s0_def)
    qed
  qed
qed

lemma schedule_keeps_inv:
  assumes inv: "sched_inv cap act arrival run s" and fresh: "fresh_task cap act s t" and "\<not> drops t s"
    and room: "counter_room s" and n: "\<forall>t'\<in>act. arrival t' < n"
  shows "\<exists>x s'. schedule_or_buffer_task t force_buffering s = Ok (x, s') \<and> x \<in> {None, Some t} \<and>
     (force_buffering \<longrightarrow> x = None) \<and> sched_inv cap (insert t act) (arrival(t := n)) (run \<union> set_option x) s' \<and>
     (\<forall>r. r \<notin> self_ref ` insert t act \<longrightarrow> count_token s' r = count_token s r)"
proof -
  have cnt: "sched_counters act run s" using inv by (simp add: sched_inv_def)
  define s1 where "s1 = (let s0 = s\<lparr>total_task_count := total_task_count s + 1\<rparr> in
    if max_unique_active_task_count s = None then s0 else s0\<lparr>unique_active_task_hashes := task_hash ` insert t act\<rparr>)"
  have total: "increment (total_task_count s) = Ok (total_task_count s + 1)"
    "unat (total_task_count s + 1) = unat (total_task_count s) + 1"
    using increment_Ok [of "total_task_count s"] room by (simp_all add: counter_room_def)
  have bounds: "card act \<le> unat (total_task_count s)" "card run \<le> card act"
    using cnt by (auto simp: sched_counters_def intro: card_mono)
  have t: "t \<notin> act" using fresh by (auto simp: fresh_task_def)
  have "schedule_or_buffer_task t force_buffering s = lock_new_task t force_buffering s1"
    using total(1) assms(3) cnt
    by (auto simp: schedule_or_buffer_task_def drops_def s1_def Let_def sched_counters_def split: option.splits)
  moreover have "sched_addresses cap act arrival (run \<union> set (unblocked_task_queue s1)) s1" "fresh_task cap act s1 t"
    using inv fresh by (simp_all add: s1_def Let_def sched_inv_def sched_addresses_def fresh_task_def)
  moreover have "distinct (unblocked_task_queue s1)" "run \<inter> set (unblocked_task_queue s1) = {}" "run \<subseteq> act"
    using inv by (simp_all add: s1_def Let_def sched_inv_def sched_counters_def)
  moreover have "card act + 1 < 2 ^ 32" "unat (active_task_count s1) = card act" "unat (running_task_count s1) + 1 < 2 ^ 32"
    "unat (unblocked_task_count s1) + 1 < 2 ^ 32"
    using cnt bounds room by (simp_all add: s1_def Let_def sched_counters_def counter_room_def)
  ultimately obtain x s' where s': "schedule_or_buffer_task t force_buffering s = Ok (x, s')" "x \<in> {None, Some t}"
    "force_buffering \<longrightarrow> x = None"
    "sched_addresses cap (insert t act) (arrival(t := n)) (run \<union> set_option x \<union> set (unblocked_task_queue s')) s'"
    "distinct (unblocked_task_queue s')" "(run \<union> set_option x) \<inter> set (unblocked_task_queue s') = {}"
    and c': "unat (active_task_count s') = card act + 1"
      "unat (running_task_count s') = unat (running_task_count s1) + (if x = None then 0 else 1)"
      "unat (unblocked_task_count s') \<le> unat (unblocked_task_count s1) + 1"
      "handled_task_count s' = handled_task_count s1" "dropped_task_count s' = dropped_task_count s1"
      "total_task_count s' = total_task_count s1" "max_unique_active_task_count s' = max_unique_active_task_count s1"
      "unique_active_task_hashes s' = unique_active_task_hashes s1"
    and frame: "\<forall>r. r \<notin> self_ref ` insert t act \<longrightarrow> count_token s' r = count_token s1 r"
    using lock_new_task_spec [of cap act arrival run s1 t n force_buffering] n by auto
  have "card (run \<union> set_option x) = card run + (if x = None then 0 else 1)"
    using s'(2) t cnt by (auto simp: sched_counters_def finite_subset card_insert_if)
  moreover have "inj_on task_hash (insert t act)" if "max_unique_active_task_count s \<noteq> None"
    using that assms(3) cnt t by (auto simp: sched_counters_def drops_def split: option.splits)
  ultimately have "sched_counters (insert t act) (run \<union> set_option x) s'"
    using cnt c' t s'(2) total(2) room
    by (auto simp: sched_counters_def s1_def Let_def counter_room_def split: option.splits if_splits)
  moreover have "count_token s1 = count_token s" by (simp add: s1_def Let_def)
  ultimately show ?thesis using s' frame by (auto simp: sched_inv_def)
qed

lemma drop_keeps_inv:
  assumes inv: "sched_inv cap act arrival run s" and "drops t s" and room: "counter_room s"
  shows "\<exists>s'. schedule_or_buffer_task t force_buffering s = Ok (None, s') \<and> sched_inv cap act arrival run s' \<and>
     count_token s' = count_token s"
proof -
  have cnt: "sched_counters act run s" using inv by (simp add: sched_inv_def)
  define s' where "s' = s\<lparr>total_task_count := total_task_count s + 1, dropped_task_count := dropped_task_count s + 1\<rparr>"
  have total: "increment (total_task_count s) = Ok (total_task_count s + 1)"
    "unat (total_task_count s + 1) = unat (total_task_count s) + 1"
    "increment (dropped_task_count s) = Ok (dropped_task_count s + 1)"
    "unat (dropped_task_count s + 1) = unat (dropped_task_count s) + 1"
    using increment_Ok [of "total_task_count s"] increment_Ok [of "dropped_task_count s"] room cnt
    by (simp_all add: counter_room_def sched_counters_def)
  have "schedule_or_buffer_task t force_buffering s = Ok (None, s')"
    using total assms(2) by (auto simp: schedule_or_buffer_task_def drops_def s'_def split: option.splits)
  moreover have "sched_counters act run s'"
    using cnt total room by (auto simp: sched_counters_def s'_def counter_room_def split: option.splits)
  ultimately show ?thesis using inv by (simp add: sched_inv_def s'_def sched_addresses_def)
qed

lemma next_keeps_inv:
  assumes inv: "sched_inv cap act arrival run s"
  shows "\<exists>x s'. schedule_next_unblocked_task s = Ok (x, s') \<and> sched_inv cap act arrival (run \<union> set_option x) s' \<and>
     (x = None \<longleftrightarrow> \<not> has_runnable_task s) \<and> set_option x \<subseteq> act - run \<and>
     total_task_count s' = total_task_count s \<and> max_running_task_count s' = max_running_task_count s \<and>
     count_token s' = count_token s"
proof (cases "has_runnable_task s")
  case False
  then have "schedule_next_unblocked_task s = Ok (None, s)"
    by (auto simp: schedule_next_unblocked_task_def has_runnable_task_def has_unblocked_task_def)
  then show ?thesis using inv False by (intro exI [of _ None] exI [of _ s]) simp
next
  case True
  then obtain t rest where q: "unblocked_task_queue s = t # rest"
    by (auto simp: has_runnable_task_def has_unblocked_task_def neq_Nil_conv)
  have cnt: "sched_counters act run s" using inv by (simp add: sched_inv_def)
  have t: "t \<notin> run" "t \<in> act" "t \<notin> set rest" "finite run" "distinct rest" "run \<inter> set rest = {}"
    using inv q by (auto simp: sched_inv_def sched_addresses_def counts_all_def sched_counters_def finite_subset)
  then have "card (insert t run) \<le> card act" using cnt by (intro card_mono) (auto simp: sched_counters_def)
  then have less: "card run + 1 \<le> card act" using t by simp
  define s' where "s' = s\<lparr>unblocked_task_queue := rest, running_task_count := running_task_count s + 1,
    unblocked_task_count := unblocked_task_count s + 1\<rparr>"
  have inc: "increment (running_task_count s) = Ok (running_task_count s + 1)"
    "unat (running_task_count s + 1) = unat (running_task_count s) + 1"
    "increment (unblocked_task_count s) = Ok (unblocked_task_count s + 1)"
    "unat (unblocked_task_count s + 1) = unat (unblocked_task_count s) + 1"
    using increment_Ok [of "running_task_count s"] increment_Ok [of "unblocked_task_count s"] cnt less
    by (simp_all add: sched_counters_def)
  have "schedule_next_unblocked_task s = Ok (Some t, s')"
    using inc True q by (simp add: schedule_next_unblocked_task_def has_runnable_task_def s'_def)
  moreover have "sched_counters act (insert t run) s'"
    using cnt inc t by (auto simp: sched_counters_def s'_def split: option.splits)
  moreover have "sched_addresses cap act arrival (insert t run \<union> set rest) s'"
    using inv q by (simp add: sched_inv_def sched_addresses_def s'_def)
  ultimately show ?thesis
    using t True by (intro exI [of _ "Some t"] exI [of _ s']) (simp add: sched_inv_def s'_def)
qed

lemma deschedule_keeps_inv:
  assumes inv: "sched_inv cap act arrival run s" and "t \<in> run"
  shows "\<exists>s'. deschedule_task t s = Ok s' \<and> sched_inv cap (act - {t}) arrival (run - {t}) s' \<and>
     total_task_count s' = total_task_count s \<and> max_running_task_count s' = max_running_task_count s \<and>
     (\<forall>r. r \<notin> self_ref ` act \<longrightarrow> count_token s' r = count_token s r)"
proof -
  have cnt: "sched_counters act run s" using inv by (simp add: sched_inv_def)
  have t: "t \<in> act" "finite act" "finite run" "run \<subseteq> act" using cnt assms(2) by (auto simp: sched_counters_def finite_subset)
  have "card act \<noteq> 0" "card run \<noteq> 0" using t assms(2) by auto
  then obtain a b where ab: "card act = Suc a" "card run = Suc b" by (meson not0_implies_Suc)
  define s1 where "s1 = s\<lparr>running_task_count := running_task_count s - 1,
            unique_active_task_hashes :=
              (if max_unique_active_task_count s \<noteq> None then unique_active_task_hashes s - {task_hash t}
               else unique_active_task_hashes s),
            active_task_count := active_task_count s - 1, handled_task_count := handled_task_count s + 1\<rparr>"
  have nonzero: "unat (running_task_count s) \<noteq> 0" "unat (active_task_count s) \<noteq> 0" "unat (handled_task_count s) + 1 < 2 ^ 32"
    "unat (running_task_count s) = card run" "unat (active_task_count s) = card act"
    using cnt ab by (auto simp: sched_counters_def)
  have steps: "decrement (running_task_count s) = Ok (running_task_count s - 1)"
    "unat (running_task_count s - 1) = card run - 1"
    "decrement (active_task_count s) = Ok (active_task_count s - 1)"
    "unat (active_task_count s - 1) = card act - 1"
    "increment (handled_task_count s) = Ok (handled_task_count s + 1)"
    "unat (handled_task_count s + 1) = unat (handled_task_count s) + 1"
    using decrement_Ok [OF nonzero(1)] decrement_Ok [OF nonzero(2)] increment_Ok [OF nonzero(3)] nonzero(4,5) by simp_all
  have "max_unique_active_task_count s \<noteq> None \<longrightarrow> task_hash t \<in> unique_active_task_hashes s"
    using cnt t(1) by (auto simp: sched_counters_def)
  then have "deschedule_task t s = unlock_usage_queues t s1"
    using steps by (simp add: deschedule_task_def s1_def)
  moreover obtain queues' N counts' where
    unlock: "unlock_usage_queues t s1 =
       Ok (s1\<lparr>usage_queue_token := queues', unblocked_task_queue := unblocked_task_queue s1 @ N, count_token := counts'\<rparr>)"
    "sched_addresses cap (act - {t}) arrival (run - {t} \<union> set (unblocked_task_queue s1 @ N))
       (s1\<lparr>usage_queue_token := queues', unblocked_task_queue := unblocked_task_queue s1 @ N, count_token := counts'\<rparr>)"
    "distinct (unblocked_task_queue s1 @ N)" "(run - {t}) \<inter> set (unblocked_task_queue s1 @ N) = {}"
    "\<forall>r. r \<notin> self_ref ` act \<longrightarrow> counts' r = count_token s1 r"
  proof -
    have "sched_addresses cap act arrival (run \<union> set (unblocked_task_queue s1)) s1"
      using inv by (simp add: sched_inv_def s1_def sched_addresses_def)
    moreover have "distinct (unblocked_task_queue s1)" "run \<inter> set (unblocked_task_queue s1) = {}"
      using inv by (simp_all add: sched_inv_def s1_def)
    ultimately show ?thesis using unlock_usage_queues_spec [of cap act arrival run s1 t] assms(2) that by blast
  qed
  moreover have "unique_active_task_hashes s1 = task_hash ` (act - {t}) \<and> inj_on task_hash (act - {t})"
    if "max_unique_active_task_count s \<noteq> None"
  proof -
    have "unique_active_task_hashes s = task_hash ` act" "inj_on task_hash act"
      using that cnt by (auto simp: sched_counters_def)
    then show ?thesis
      using that inj_on_image_set_diff [of task_hash act act "{t}"] t(1) by (simp add: s1_def inj_on_diff)
  qed
  then have "sched_counters (act - {t}) (run - {t})
      (s1\<lparr>usage_queue_token := queues', unblocked_task_queue := unblocked_task_queue s1 @ N, count_token := counts'\<rparr>)"
    using cnt steps t assms(2) ab
    by (auto simp: sched_counters_def s1_def split: option.splits)
  ultimately show ?thesis by (simp add: sched_inv_def s1_def)
qed

lemma reinitialize_keeps_inv:
  assumes inv: "sched_inv cap act arrival run s" and "reinitialize s = Ok s'"
  shows "sched_inv cap act arrival run s'" "act = {}" "unblocked_task_queue s' = []" "count_token s' = count_token s"
    "\<forall>q. usage_queue_token s' q = UsageQueueInner_new cap"
proof -
  have cnt: "sched_counters act run s" using inv by (simp add: sched_inv_def)
  have s: "active_task_count s = 0" "unblocked_task_queue s = []"
    "s' = s\<lparr>active_task_count := 0, peak_active_task_count := 0, dropped_task_count := 0,
             handled_task_count := 0, unblocked_task_count := 0, total_task_count := 0\<rparr>"
    using assms(2) by (auto simp: reinitialize_def has_no_active_task_def)
  have "card act = 0" using s(1) cnt by (simp add: sched_counters_def)
  then show "act = {}" using cnt by (simp add: sched_counters_def)
  then show "sched_inv cap act arrival run s'"
    using inv s by (auto simp: sched_inv_def sched_counters_def sched_addresses_def split: option.splits)
  show "unblocked_task_queue s' = []" "count_token s' = count_token s" using s by simp_all
  show "\<forall>q. usage_queue_token s' q = UsageQueueInner_new cap"
    using inv \<open>act = {}\<close> s(3) queues_restored by (auto simp: sched_inv_def sched_addresses_def)
qed

lemma init_inv:
  assumes "exclusively_initialize_current_thread_for_scheduling max_running max_unique counts (\<lambda>_. UsageQueueInner_new cap) = Ok s"
  shows "sched_inv cap {} arrival {} s"
proof -
  have s: "unblocked_task_queue s = []" "usage_queue_token s = (\<lambda>_. UsageQueueInner_new cap)" "active_task_count s = 0"
    "running_task_count s = 0" "handled_task_count s = 0" "dropped_task_count s = 0" "total_task_count s = 0"
    "unblocked_task_count s = 0" "unique_active_task_hashes s = {}"
    using assms by (auto simp: exclusively_initialize_current_thread_for_scheduling_def Let_def split: if_splits)
  have "address_ok cap arrival {} {} {} (UsageQueueInner_new cap)"
    by (cases cap) (auto simp: address_ok_def with_fifo_def with_priority_def priority_queue_ok_def admissible_def compatible_def)
  then have "addresses_inv cap arrival {} task_ctx {} (\<lambda>_. {}) (usage_queue_token s) (\<lambda>t. count_token s (self_ref t))"
    by (auto simp: addresses_inv_def tasks_ok_def at_address_def s)
  then show ?thesis
    by (auto simp: sched_inv_def sched_addresses_def sched_counters_def counts_all_def s split: option.splits)
qed

lemma create_keeps_inv:
  assumes "sched_inv cap act arrival run s" and "r \<notin> self_ref ` act"
  shows "sched_inv cap act arrival run (s\<lparr>count_token := (count_token s)(r := 0)\<rparr>)"
proof -
  have same: "((count_token s)(r := 0)) (self_ref t) = count_token s (self_ref t)" if "t \<in> act" for t
    using that assms(2) by auto
  obtain H where inv: "addresses_inv cap arrival act task_ctx (run \<union> set (unblocked_task_queue s)) H (usage_queue_token s)
      (\<lambda>t. count_token s (self_ref t))"
    using assms(1) by (auto simp: sched_inv_def sched_addresses_def)
  have "addresses_inv cap arrival act task_ctx (run \<union> set (unblocked_task_queue s)) H (usage_queue_token s)
      (\<lambda>t. ((count_token s)(r := 0)) (self_ref t))"
    using inv by (rule addresses_inv_cong) (use same in auto)
  then show ?thesis
    using assms(1) same
    by (auto simp: sched_inv_def sched_addresses_def sched_counters_def counts_all_def simp del: fun_upd_apply
        split: option.splits)
qed

theorem sched_run_inv: "sched_run cap act arrival run s \<Longrightarrow> sched_inv cap act arrival run s"
proof (induction rule: sched_run.induct)
  case (init max_running max_unique counts s arrival)
  then show ?case by (rule init_inv)
next
  case (create act arrival run s r)
  then show ?case by (intro create_keeps_inv)
next
  case (schedule act arrival run s t n force_buffering x s')
  then show ?case using schedule_keeps_inv [of cap act arrival run s t n force_buffering] by (auto simp del: fun_upd_apply)
next
  case (drop act arrival run s t force_buffering x s')
  then show ?case using drop_keeps_inv [of cap act arrival run s t force_buffering] by auto
next
  case (take_next act arrival run s x s')
  then show ?case using next_keeps_inv [of cap act arrival run s] by auto
next
  case (deschedule act arrival run s t s')
  then show ?case using deschedule_keeps_inv [of cap act arrival run s t] by auto
next
  case (reinit act arrival run s s')
  show ?case using reinit.IH reinit.hyps(2) by (rule reinitialize_keeps_inv(1))
qed

lemma schedule_defined:
  assumes inv: "sched_inv cap act arrival run s" and t: "fresh_task cap act s t" "counter_room s"
  shows "\<exists>x s'. schedule_or_buffer_task t force_buffering s = Ok (x, s') \<and> x \<in> {None, Some t} \<and> (force_buffering \<longrightarrow> x = None)"
proof (cases "drops t s")
  case True
  then show ?thesis using drop_keeps_inv [OF inv _ t(2), of t force_buffering] by auto
next
  case False
  have "finite act" using inv by (simp add: sched_inv_def sched_counters_def)
  then have "\<forall>t'\<in>act. arrival t' < Suc (Max (arrival ` act))" by (simp add: less_Suc_eq_le)
  then show ?thesis using schedule_keeps_inv [OF inv t(1) False t(2), of _ force_buffering] by blast
qed

section \<open>Clearing\<close>

lemma inv_progress:
  assumes "sched_inv cap act arrival run s" and "act \<noteq> {}"
  shows "run \<noteq> {} \<or> has_unblocked_task s"
proof -
  let ?Z = "run \<union> set (unblocked_task_queue s)"
  obtain H where "addresses_inv cap arrival act task_ctx ?Z H (usage_queue_token s) (\<lambda>t. count_token s (self_ref t))"
    "counts_all act ?Z (count_token s)"
    using assms(1) by (auto simp: sched_inv_def sched_addresses_def)
  then have "?Z \<noteq> {}" using assms(2) by (rule some_task_unblocked)
  then show ?thesis by (auto simp: has_unblocked_task_def)
qed

lemma clear_loop_drains:
  assumes "sched_inv cap act arrival {} s" and "0 < max_running_task_count s" and "unat n + card act < 2 ^ 32"
  shows "\<exists>n' s'. clear_loop n s = Ok (n', s') \<and> unat n' = unat n + card act \<and> sched_inv cap {} arrival {} s'"
  using assms
proof (induction "card act" arbitrary: act s n)
  case 0
  then have act: "act = {}" by (auto simp: sched_inv_def sched_counters_def)
  then have "unblocked_task_queue s = []"
    using "0.prems"(1) by (auto simp: sched_inv_def sched_addresses_def counts_all_def)
  then have "clear_loop n s = Ok (n, s)"
    by (subst clear_loop.simps) (simp add: schedule_next_unblocked_task_def)
  then show ?case using "0.prems"(1) act by simp
next
  case (Suc k)
  then have "act \<noteq> {}" by auto
  moreover have "running_task_count s = 0"
    using Suc.prems(1) by (simp add: sched_inv_def sched_counters_def unat_eq_0)
  ultimately have "has_runnable_task s"
    using inv_progress [OF Suc.prems(1)] Suc.prems(2) by (simp add: has_runnable_task_def is_task_runnable_def)
  then obtain t s1 where s1: "schedule_next_unblocked_task s = Ok (Some t, s1)" "sched_inv cap act arrival {t} s1" "t \<in> act"
    "max_running_task_count s1 = max_running_task_count s"
    using next_keeps_inv [OF Suc.prems(1)] by (auto split: option.splits)
  then obtain s2 where s2: "deschedule_task t s1 = Ok s2" "sched_inv cap (act - {t}) arrival {} s2"
    "max_running_task_count s2 = max_running_task_count s1"
    using deschedule_keeps_inv [OF s1(2), of t] by auto
  have "finite act" using Suc.prems(1) by (simp add: sched_inv_def sched_counters_def)
  then have k: "k = card (act - {t})" using Suc.hyps(2) s1(3) by simp
  have n: "increment n = Ok (n + 1)" "unat (n + 1) = unat n + 1"
    using increment_Ok [of n] Suc.prems(3) Suc.hyps(2) by simp_all
  have "unat (n + 1) + card (act - {t}) < 2 ^ 32" using n(2) k Suc.prems(3) Suc.hyps(2) by simp
  then obtain n' s' where "clear_loop (n + 1) s2 = Ok (n', s')" "unat n' = unat (n + 1) + card (act - {t})"
    "sched_inv cap {} arrival {} s'"
    using Suc.hyps(1) [OF k s2(2), of "n + 1"] s1(4) s2(3) Suc.prems(2) by auto
  moreover have "clear_loop n s = clear_loop (n + 1) s2"
    using s1(1) s2(1) n(1) by (subst clear_loop.simps) simp
  ultimately show ?case using n(2) k Suc.hyps(2) by simp
qed

lemma clear_and_reinitialize_drains:
  assumes inv: "sched_inv cap act arrival {} s" and "0 < max_running_task_count s"
  shows "\<exists>s'. clear_and_reinitialize s = Ok (card act, s') \<and> has_no_active_task s' \<and> unblocked_task_queue s' = [] \<and>
     (\<forall>q. usage_queue_token s' q = UsageQueueInner_new cap)"
proof -
  have "card act < 2 ^ 32" using inv by (auto simp: sched_inv_def sched_counters_def)
  then obtain n s1 where s1: "clear_loop 0 s = Ok (n, s1)" "unat n = card act" "sched_inv cap {} arrival {} s1"
    using clear_loop_drains [OF assms, of 0] by auto
  have zero: "active_task_count s1 = 0" "running_task_count s1 = 0" "unique_active_task_hashes s1 = {}" "unblocked_task_queue s1 = []"
    using s1(3)
    by (auto simp: sched_inv_def sched_counters_def sched_addresses_def counts_all_def unat_eq_0 split: option.splits)
  then obtain s2 where s2: "reinitialize s1 = Ok s2" "has_no_active_task s2"
    by (simp add: reinitialize_def has_no_active_task_def)
  then have "clear_and_reinitialize s = Ok (card act, s2)" using s1 by (simp add: clear_and_reinitialize_def)
  then show ?thesis using s2 reinitialize_keeps_inv(3,5) [OF s1(3) s2(1)] by blast
qed

section \<open>Created tasks\<close>

text \<open>The loader never gives two addresses the same queue, and keeps what it has given.\<close>

definition loader_ok :: "('k, 'h) UsageQueueLoaderInner \<Rightarrow> bool" where
  "loader_ok l \<longleftrightarrow>
     (\<forall>a q. usage_queues l a = Some q \<longrightarrow> q < fresh_queue l \<and> (\<forall>b. usage_queues l b = Some q \<longrightarrow> a = b))"

lemma loader_okD:
  assumes "loader_ok l" and "usage_queues l a = Some q"
  shows "q < fresh_queue l" "usage_queues l b = Some q \<Longrightarrow> a = b"
  using assms by (auto simp: loader_ok_def)

lemma load_keeps_ok:
  assumes "loader_ok l" and "load address l = (q, l')"
  shows "loader_ok l'" "usage_queues l' address = Some q" "usage_queues l \<subseteq>\<^sub>m usage_queues l'"
proof -
  show "loader_ok l'"
  proof (cases "usage_queues l address")
    case None
    then have l': "usage_queues l' = (usage_queues l)(address \<mapsto> fresh_queue l)" "fresh_queue l' = fresh_queue l + 1"
      using assms(2) by (auto simp: load_def)
    show ?thesis
      unfolding loader_ok_def l'
      by (auto split: if_splits dest: loader_okD [OF assms(1)] intro: less_SucI)
  qed (use assms in \<open>auto simp: load_def\<close>)
  show "usage_queues l' address = Some q" "usage_queues l \<subseteq>\<^sub>m usage_queues l'"
    using assms(2) by (auto simp: load_def map_le_def split: option.splits)
qed

text \<open>The contexts of a task name the queues of its accounts and ask for the usage that the transaction declares.\<close>

definition created_with :: "('k, 'h) UsageQueueLoaderInner \<Rightarrow> ('k, 'h) TaskInner \<Rightarrow> bool" where
  "created_with l t \<longleftrightarrow>
     length (lock_contexts t) = length (sched_account_keys (transaction t)) \<and>
     (\<forall>i<length (lock_contexts t).
        usage_queues l (sched_account_keys (transaction t) ! i) = Some (usage_queue (lock_contexts t ! i)) \<and>
        requested_usage (lock_contexts t ! i) = (if sched_is_writable (transaction t) i then Writable else Readonly))"

lemma created_with_mono: "created_with l t \<Longrightarrow> usage_queues l \<subseteq>\<^sub>m usage_queues l' \<Longrightarrow> created_with l' t"
  by (auto simp: created_with_def map_le_def dom_def)

lemma create_lock_contexts_spec:
  assumes "loader_ok l" and "create_lock_contexts tx load i addresses l = (cs, l')"
  shows "loader_ok l' \<and> usage_queues l \<subseteq>\<^sub>m usage_queues l' \<and> length cs = length addresses \<and>
     (\<forall>j<length cs. usage_queues l' (addresses ! j) = Some (usage_queue (cs ! j)) \<and>
        requested_usage (cs ! j) = (if sched_is_writable tx (i + j) then Writable else Readonly))"
  using assms
proof (induction addresses arbitrary: i l cs)
  case (Cons address addresses)
  obtain q l1 where q: "load address l = (q, l1)" by (cases "load address l")
  obtain cs1 where cs1: "create_lock_contexts tx load (i + 1) addresses l1 = (cs1, l')"
    "cs = \<lparr>usage_queue = q, requested_usage = (if sched_is_writable tx i then Writable else Readonly)\<rparr> # cs1"
    using Cons.prems(2) q by (auto split: prod.splits)
  note ok = load_keeps_ok [OF Cons.prems(1) q]
  note IH = Cons.IH [OF ok(1) cs1(1)]
  have "usage_queues l' address = Some q" using IH ok(2) by (auto simp: map_le_def dom_def)
  then show ?case using IH ok(3) cs1(2) by (auto simp: nth_Cons split: nat.splits intro: map_le_trans)
qed simp

lemma do_create_task_spec:
  assumes "loader_ok l" and "do_create_task r tx ident block_size epoch slot load (l, counts) = (t, l', counts')"
  shows "loader_ok l'" "usage_queues l \<subseteq>\<^sub>m usage_queues l'" "created_with l' t" "counts' = counts(r := 0)"
    "self_ref t = r" "transaction t = tx" "task_id t = ident"
proof -
  obtain cs where cs: "create_lock_contexts tx load 0 (sched_account_keys tx) l = (cs, l')" and t: "counts' = counts(r := 0)"
    "t = \<lparr>self_ref = r, transaction = tx, task_id = ident, lock_contexts = cs, consumed_block_size = block_size,
         sanitized_epoch = epoch, alt_invalidation_slot = slot\<rparr>"
    using assms(2) by (auto simp: do_create_task_def split: prod.splits)
  note spec = create_lock_contexts_spec [OF assms(1) cs]
  show "loader_ok l'" "usage_queues l \<subseteq>\<^sub>m usage_queues l'" using spec by auto
  show "created_with l' t" using spec by (simp add: created_with_def t(2))
  show "counts' = counts(r := 0)" "self_ref t = r" "transaction t = tx" "task_id t = ident" using t by simp_all
qed

lemma created_distinct:
  assumes "loader_ok l" and "created_with l t" and "distinct (sched_account_keys (transaction t))"
  shows "distinct (map usage_queue (lock_contexts t))"
  unfolding distinct_conv_nth
proof (intro allI impI)
  fix i j assume "i < length (map usage_queue (lock_contexts t))" "j < length (map usage_queue (lock_contexts t))" "i \<noteq> j"
  then have ij: "i < length (lock_contexts t)" "j < length (lock_contexts t)" "i \<noteq> j" by simp_all
  let ?keys = "sched_account_keys (transaction t)"
  have "?keys ! i \<noteq> ?keys ! j" using assms(2,3) ij by (simp add: created_with_def nth_eq_iff_index_eq)
  moreover have "usage_queues l (?keys ! i) = Some (usage_queue (lock_contexts t ! i))"
    "usage_queues l (?keys ! j) = Some (usage_queue (lock_contexts t ! j))"
    using assms(2) ij by (auto simp: created_with_def)
  ultimately show "map usage_queue (lock_contexts t) ! i \<noteq> map usage_queue (lock_contexts t) ! j"
    using loader_okD(2) [OF assms(1)] ij by (metis nth_map)
qed

section \<open>Properties\<close>

lemma inv_contexts:
  assumes "sched_inv cap act arrival run s" and "t \<in> act" "c \<in> set (lock_contexts t)"
  shows "task_ctx t (usage_queue c) = Some (requested_usage c)"
  using assms by (auto simp: sched_inv_def sched_addresses_def task_ctx_def contexts_map_def map_of_eq_Some_iff o_def)

lemma ready_tasks_compatible:
  assumes inv: "sched_inv cap act arrival run s" and "t1 \<noteq> t2"
    and "c1 \<in> set (lock_contexts t1)" "c2 \<in> set (lock_contexts t2)" "usage_queue c1 = usage_queue c2"
    and "t1 \<in> run \<union> set (unblocked_task_queue s)" "t2 \<in> run \<union> set (unblocked_task_queue s)"
  shows "requested_usage c1 = Readonly \<and> requested_usage c2 = Readonly"
proof -
  let ?Z = "run \<union> set (unblocked_task_queue s)"
  obtain H where addr: "addresses_inv cap arrival act task_ctx ?Z H (usage_queue_token s) (\<lambda>t. count_token s (self_ref t))"
    and cnt: "counts_all act ?Z (count_token s)"
    using inv by (auto simp: sched_inv_def sched_addresses_def)
  have "t1 \<in> act" "t2 \<in> act" using cnt assms(6,7) by (auto simp: counts_all_def)
  then show ?thesis
    using unblocked_compatible [OF addr cnt assms(6,7,2)] inv_contexts [OF inv] assms(3-5) by metis
qed

text \<open>
  C35: exclusion and order. In every state of a documented run, two tasks that have been given out or are ready to
  be given out use a common address only for reading; and with first-in-first-out queues no task is given out or
  ready while an earlier task that it conflicts with is still active.
\<close>

theorem scheduled_tasks_exclusive:
  assumes "sched_run cap act arrival run s" and "t1 \<noteq> t2"
    and "c1 \<in> set (lock_contexts t1)" "c2 \<in> set (lock_contexts t2)" "usage_queue c1 = usage_queue c2"
    and "t2 \<in> run \<union> set (unblocked_task_queue s)"
    and "t1 \<in> run \<union> set (unblocked_task_queue s) \<or> cap = FifoQueueing \<and> t1 \<in> act \<and> arrival t1 < arrival t2"
  shows "requested_usage c1 = Readonly \<and> requested_usage c2 = Readonly"
proof -
  let ?Z = "run \<union> set (unblocked_task_queue s)"
  have sinv: "sched_inv cap act arrival run s" using assms(1) by (rule sched_run_inv)
  show ?thesis
  proof (cases "t1 \<in> ?Z")
    case True
    then show ?thesis using ready_tasks_compatible [OF sinv assms(2-5)] assms(6) by blast
  next
    case False
    then have fifo: "cap = FifoQueueing" "arrival t1 < arrival t2" "t1 \<in> act" using assms(7) by auto
    obtain H where inv: "addresses_inv FifoQueueing arrival act task_ctx ?Z H (usage_queue_token s) (\<lambda>t. count_token s (self_ref t))"
      and cnt: "counts_all act ?Z (count_token s)"
      using sinv by (auto simp: sched_inv_def sched_addresses_def fifo(1))
    have t2: "t2 \<in> act" using cnt assms(6) by (auto simp: counts_all_def)
    show ?thesis
      using fifo_order [OF inv cnt fifo(3) t2 fifo(2) inv_contexts [OF sinv fifo(3) assms(3)]]
        inv_contexts [OF sinv t2 assms(4)] assms(5,6) by auto
  qed
qed

text \<open>A small machine for the examples: tasks that use the address \<open>0\<close> only.\<close>

definition example_task :: "nat \<Rightarrow> RequestedUsage \<Rightarrow> (nat, nat) TaskInner" where
  "example_task i u =
     \<lparr>self_ref = i,
      transaction = \<lparr>sched_account_keys = [7], sched_is_writable = (\<lambda>_. u = Writable), sched_message_hash = i\<rparr>,
      task_id = of_nat i, lock_contexts = [\<lparr>usage_queue = 0, requested_usage = u\<rparr>],
      consumed_block_size = 0, sanitized_epoch = 0, alt_invalidation_slot = 0\<rparr>"

definition example_machine :: "Capability \<Rightarrow> (nat, nat) SchedulingStateMachine" where
  "example_machine cap =
     \<lparr>unblocked_task_queue = [], active_task_count = 0, peak_active_task_count = 0, dropped_task_count = 0,
      max_unique_active_task_count = Some 10, unique_active_task_hashes = {}, running_task_count = 0,
      max_running_task_count = 4, handled_task_count = 0, unblocked_task_count = 0,
      total_task_count = 0, count_token = (\<lambda>_. 0), usage_queue_token = (\<lambda>_. UsageQueueInner_new cap)\<rparr>"

lemma example_init: "sched_run cap {} arrival {} (example_machine cap)"
  by (rule sched_run.init [of "Some 4" "Some 10" "\<lambda>_. 0"])
    (simp add: exclusively_initialize_current_thread_for_scheduling_def example_machine_def)

lemmas scheduler_eval =
  schedule_or_buffer_task_def lock_new_task_def try_lock_usage_queues_def lock_or_block_def push_blocked_def
  increment_def max_self_def is_task_runnable_def task_hash_def set_blocked_usage_count_def with_fifo_def
  with_priority_def is_higher_priority_def insert_new_def insert_usage_from_task_def try_reblock_def Let_def

definition example_step ::
  "(nat, nat) TaskInner \<Rightarrow> bool \<Rightarrow> (nat, nat) SchedulingStateMachine \<Rightarrow> (nat, nat) SchedulingStateMachine" where
  "example_step t force_buffering s = (case schedule_or_buffer_task t force_buffering s of Ok (_, s') \<Rightarrow> s' | _ \<Rightarrow> s)"

definition example_readers :: "(nat, nat) SchedulingStateMachine" where
  "example_readers =
     example_step (example_task 2 Readonly) False (example_step (example_task 1 Readonly) False (example_machine FifoQueueing))"

definition example_buffered :: "(nat, nat) SchedulingStateMachine" where
  "example_buffered =
     example_step (example_task 2 Writable) True (example_step (example_task 1 Writable) True (example_machine PriorityQueueing))"

lemma example_readers_run:
  "sched_run FifoQueueing {example_task 2 Readonly, example_task 1 Readonly} (self_ref(example_task 1 Readonly := 1, example_task 2 Readonly := 2))
     {example_task 1 Readonly, example_task 2 Readonly} example_readers"
proof -
  let ?A = "example_task 1 Readonly" and ?B = "example_task 2 Readonly"
  let ?s1 = "example_step ?A False (example_machine FifoQueueing)"
  have "sched_run FifoQueueing (insert ?A {}) (self_ref(?A := 1)) ({} \<union> set_option (Some ?A)) ?s1"
    by (rule sched_run.schedule [OF example_init, where force_buffering = False])
      (simp_all add: scheduler_eval example_machine_def example_task_def example_step_def fresh_task_def drops_def counter_room_def)
  then have "sched_run FifoQueueing (insert ?B (insert ?A {})) (self_ref(?A := 1, ?B := 2))
      (({} \<union> set_option (Some ?A)) \<union> set_option (Some ?B)) example_readers"
    by (rule sched_run.schedule [where force_buffering = False])
      (simp_all add: scheduler_eval example_machine_def example_task_def example_step_def fresh_task_def drops_def
        counter_room_def example_readers_def)
  then show ?thesis by (simp add: insert_commute)
qed

lemma example_buffered_run:
  "sched_run PriorityQueueing {example_task 2 Writable, example_task 1 Writable}
     (self_ref(example_task 1 Writable := 1, example_task 2 Writable := 2)) {} example_buffered"
proof -
  let ?A = "example_task 1 Writable" and ?B = "example_task 2 Writable"
  let ?s1 = "example_step ?A True (example_machine PriorityQueueing)"
  have "sched_run PriorityQueueing (insert ?A {}) (self_ref(?A := 1)) ({} \<union> set_option None) ?s1"
    by (rule sched_run.schedule [OF example_init, where force_buffering = True])
      (simp_all add: scheduler_eval example_machine_def example_task_def example_step_def fresh_task_def drops_def counter_room_def)
  then have "sched_run PriorityQueueing (insert ?B (insert ?A {})) (self_ref(?A := 1, ?B := 2))
      (({} \<union> set_option None) \<union> set_option None) example_buffered"
    by (rule sched_run.schedule [where force_buffering = True])
      (simp_all add: scheduler_eval example_machine_def example_task_def example_step_def fresh_task_def drops_def
        counter_room_def example_buffered_def)
  then show ?thesis by simp
qed

theorem scheduled_tasks_exclusive_witness:
  "requested_usage (hd (lock_contexts (example_task 1 Readonly))) = Readonly \<and>
   requested_usage (hd (lock_contexts (example_task 2 Readonly))) = Readonly"
  by (rule scheduled_tasks_exclusive [OF example_readers_run, of "example_task 1 Readonly" "example_task 2 Readonly"])
    (simp_all add: example_task_def)

text \<open>
  C36: no panic. In every state of a documented run, with room left in the counters, every documented call returns:
  scheduling or buffering a fresh task, asking for the next unblocked task, descheduling a task that was given out,
  and reinitializing a machine with no active task. No assertion, \<open>unwrap\<close> or counter of the sources fails.
\<close>

theorem scheduler_never_panics:
  assumes "sched_run cap act arrival run s"
  shows "(fresh_task cap act s t \<and> counter_room s \<longrightarrow>
       (\<exists>x s'. schedule_or_buffer_task t force_buffering s = Ok (x, s') \<and> x \<in> {None, Some t}) \<and> (\<exists>s'. buffer_task t s = Ok s')) \<and>
     (\<exists>x s'. schedule_next_unblocked_task s = Ok (x, s') \<and> (x = None \<longleftrightarrow> \<not> has_runnable_task s)) \<and>
     (t \<in> run \<longrightarrow> (\<exists>s'. deschedule_task t s = Ok s')) \<and>
     (act = {} \<longrightarrow> (\<exists>s'. reinitialize s = Ok s'))"
proof -
  have inv: "sched_inv cap act arrival run s" using assms by (rule sched_run_inv)
  have "\<exists>s'. buffer_task t s = Ok s'" if "fresh_task cap act s t" "counter_room s"
    using schedule_defined [OF inv that, of True] by (auto simp: buffer_task_def)
  moreover have "\<exists>s'. reinitialize s = Ok s'" if "act = {}"
    using inv that by (auto simp: sched_inv_def sched_counters_def sched_addresses_def counts_all_def reinitialize_def
        has_no_active_task_def unat_eq_0 split: option.splits)
  ultimately show ?thesis
    using schedule_defined [OF inv, of t force_buffering] next_keeps_inv [OF inv] deschedule_keeps_inv [OF inv, of t]
    by blast
qed

theorem scheduler_never_panics_witness:
  "\<exists>s'. deschedule_task (example_task 1 Readonly) example_readers = Ok s'"
  using scheduler_never_panics [OF example_readers_run, of "example_task 1 Readonly"] by simp

text \<open>
  C37: progress. In every state of a documented run with an active task some task is running or ready to run: there
  is no deadlock, also not through the reordering of priority queues. When no task is running and at least one may
  run, clearing the machine hands out and finishes every active task, returns their number, and leaves every usage
  queue as it was created.
\<close>

theorem scheduler_progress:
  assumes "sched_run cap act arrival run s"
  shows "(act \<noteq> {} \<longrightarrow> run \<noteq> {} \<or> has_unblocked_task s) \<and>
     (run = {} \<and> 0 < max_running_task_count s \<longrightarrow>
       (\<exists>s'. clear_and_reinitialize s = Ok (card act, s') \<and> has_no_active_task s' \<and> unblocked_task_queue s' = [] \<and>
         (\<forall>q. usage_queue_token s' q = UsageQueueInner_new cap)))"
proof -
  have inv: "sched_inv cap act arrival run s" using assms by (rule sched_run_inv)
  then show ?thesis using inv_progress [OF inv] clear_and_reinitialize_drains by blast
qed

theorem scheduler_progress_witness:
  "\<exists>s'. clear_and_reinitialize example_buffered = Ok (2, s') \<and> has_no_active_task s'"
proof -
  have "0 < max_running_task_count example_buffered"
    by (simp add: scheduler_eval example_machine_def example_task_def example_step_def example_buffered_def)
  moreover have "card {example_task 2 Writable, example_task 1 Writable} = 2" by (simp add: example_task_def)
  ultimately show ?thesis using scheduler_progress [OF example_buffered_run] by auto
qed

end
