(* ===== verification/Peg_Relayer.thy ===== *)
theory Peg_Relayer
  imports Prelude "HOL-Library.Log_Nat"
begin

text \<open>
  \<open>scripts/peg-relayer/index.mjs\<close>: the relayer of the bridge between the token on Solana and the native token. It
  polls the deposits of the treasury and releases the same amount of native token for each of them. The answers of
  the two remote nodes and of the file system are arguments. The lemmas show, for all answers and for stops at any
  point, that a transfer pays a deposit of the chain with its amount, and that a deposit is paid again only after a
  transfer whose confirmation was lost or a failed write of the state file; and what exactly a round does in which
  no call throws.
\<close>

section \<open>Transactions\<close>

text \<open>
  The fields that the relayer reads of a parsed transaction. Keys are their base-58 strings. A token amount is the
  number that its decimal string denotes. A missing or null value is \<open>None\<close>.
\<close>

record TokenBalance =
  accountIndex :: nat
  mint :: string
  amount :: int

datatype Parsed = ParsedString string | ParsedObject "string option"

record Instruction =
  program :: "string option"
  parsed :: "Parsed option"

record Meta =
  err :: bool
  preTokenBalances :: "TokenBalance list option"
  postTokenBalances :: "TokenBalance list option"

record ParsedTx =
  meta :: "Meta option"
  accountKeys :: "string list"
  instructions :: "Instruction list"

record 'a Deposit =
  lamports :: int
  dest :: 'a

text \<open>
  Exceptions: \<open>TypeError\<close> is thrown by the property access on a null value, \<open>RangeError\<close> by the power of a
  \<open>BigInt\<close> with a negative exponent.
\<close>

datatype js_error = TypeError | RangeError | RpcError | FsError


text \<open>
  The constants of the module: the mint, the scale, and the constructor \<open>PublicKey\<close> of the external SDK, which
  throws on a string that is not a key. The module does not load when the scale cannot be computed.
\<close>

record 'a Config =
  MINT :: string
  scale :: int
  PublicKey :: "string \<Rightarrow> 'a option"


text \<open>
  \<open>indexOf\<close> and \<open>find\<close> of arrays, and \<open>trim\<close> of strings: the white space among the code units below 256.
\<close>

fun indexOf :: "'b list \<Rightarrow> 'b \<Rightarrow> nat option" where
  "indexOf [] x = None"
| "indexOf (y # ys) x = (if y = x then Some 0 else map_option Suc (indexOf ys x))"

definition is_space :: "char \<Rightarrow> bool" where
  "is_space c \<longleftrightarrow> of_char c \<in> {9 :: nat, 10, 11, 12, 13, 32, 160}"

definition trim :: "string \<Rightarrow> string" where
  "trim s = rev (dropWhile is_space (rev (dropWhile is_space s)))"

definition find_balance :: "nat \<Rightarrow> TokenBalance list option \<Rightarrow> TokenBalance option" where
  "find_balance i balances = (case balances of None \<Rightarrow> None | Some bs \<Rightarrow> find (\<lambda>b. accountIndex b = i) bs)"

definition memo_of :: "ParsedTx \<Rightarrow> string option" where
  "memo_of tx =
     (case find (\<lambda>i. program i = Some ''spl-memo'') (instructions tx) of
        None \<Rightarrow> None
      | Some ix \<Rightarrow> (case parsed ix of Some (ParsedString s) \<Rightarrow> Some s | Some (ParsedObject m) \<Rightarrow> m | None \<Rightarrow> None))"

definition parseDeposit ::
  "'a Config \<Rightarrow> ParsedTx option \<Rightarrow> string \<Rightarrow> (js_error, 'a Deposit option) outcome" where
  "parseDeposit cfg tx treasuryAta =
     (case tx of
        None \<Rightarrow> Ok None
      | Some t \<Rightarrow>
          if (case meta t of Some m \<Rightarrow> err m | None \<Rightarrow> False) then Ok None
          else (case indexOf (accountKeys t) treasuryAta of
            None \<Rightarrow> Ok None
          | Some idx \<Rightarrow>
              (case meta t of
                 None \<Rightarrow> Err TypeError
               | Some m \<Rightarrow>
                   (let pre = find_balance idx (preTokenBalances m);
                        post = find_balance idx (postTokenBalances m)
                    in case post of
                         None \<Rightarrow> Ok None
                       | Some p \<Rightarrow>
                           if mint p \<noteq> MINT cfg then Ok None
                           else
                             (let delta = amount p - (case pre of Some b \<Rightarrow> amount b | None \<Rightarrow> 0) in
                              if delta \<le> 0 then Ok None
                              else (case memo_of t of
                                      None \<Rightarrow> Ok None
                                    | Some memo \<Rightarrow>
                                        if memo = '''' then Ok None
                                        else (case PublicKey cfg (trim memo) of
                                                None \<Rightarrow> Ok None
                                              | Some d \<Rightarrow>
                                                  Ok (Some \<lparr>lamports = delta * scale cfg, dest = d\<rparr>))))))))"

section \<open>The loop\<close>

text \<open>
  \<open>Number\<close> of a positive \<open>BigInt\<close> rounds to a double: 53 significant bits, ties to even.
\<close>

definition js_Number :: "int \<Rightarrow> int" where
  "js_Number n =
     (let e = floorlog 2 (nat n) - 53;
          q = n div 2 ^ e;
          r = n mod 2 ^ e
      in (if 2 * r > 2 ^ e \<or> 2 * r = 2 ^ e \<and> odd q then q + 1 else q) * 2 ^ e)"

text \<open>
  The answers of one round of the loop. A release throws before the transfer lands, throws although it has landed
  (the confirmation times out), or is confirmed; \<open>confirmTransaction\<close> also returns when the transaction was included
  and failed, with the error in a value that the relayer does not read. Writing the state file succeeds, or throws
  and leaves the file as it was or cut short. A stop of the process at any point of a round leaves the state that an
  exception at that point leaves, followed by a start.
\<close>

datatype release_answer = NotLanded | LandedUnconfirmed | ConfirmedError | Confirmed

datatype save_answer = Saved | NotWritten | CutShort

record Answers =
  signatures :: "(js_error, string list) outcome"
  parsedTransaction :: "string \<Rightarrow> (js_error, ParsedTx option) outcome"
  release_answer_for :: "string \<Rightarrow> release_answer"
  save_answer_for :: "string \<Rightarrow> save_answer"

text \<open>
  The state: the set of processed signatures in insertion order, the state file (\<open>None\<close> when it is absent or
  cannot be parsed), and what happened outside: the transfers that took place on the native chain, each with the
  deposit that it pays, and the number of lapses, that is of transfers that landed although the release threw and
  of writes of the state file that failed. The relayer does not read the last two.
\<close>

record 'a Relayer =
  processed :: "string list"
  state_file :: "string list option"
  landed :: "(string \<times> 'a \<times> int) list"
  lapses :: nat

text \<open>\<open>new Set(xs)\<close>: the first occurrence of every element, in order.\<close>

definition js_Set :: "'b list \<Rightarrow> 'b list" where
  "js_Set xs = rev (remdups (rev xs))"

definition loadState :: "string list option \<Rightarrow> string list" where
  "loadState file = (case file of Some sigs \<Rightarrow> js_Set sigs | None \<Rightarrow> [])"

definition saveState :: "save_answer \<Rightarrow> ('a Relayer, js_error, unit) op" where
  "saveState answer s =
     (case answer of
        Saved \<Rightarrow> (Ok (), s\<lparr>state_file := Some (processed s)\<rparr>)
      | NotWritten \<Rightarrow> (Err FsError, s\<lparr>lapses := lapses s + 1\<rparr>)
      | CutShort \<Rightarrow> (Err FsError, s\<lparr>state_file := None, lapses := lapses s + 1\<rparr>))"

definition releaseNative :: "release_answer \<Rightarrow> string \<Rightarrow> 'a Deposit \<Rightarrow> ('a Relayer, js_error, unit) op" where
  "releaseNative answer sig d s =
     (case answer of
        NotLanded \<Rightarrow> (Err RpcError, s)
      | LandedUnconfirmed \<Rightarrow>
          (Err RpcError, s\<lparr>landed := landed s @ [(sig, dest d, js_Number (lamports d))], lapses := lapses s + 1\<rparr>)
      | ConfirmedError \<Rightarrow> (Ok (), s)
      | Confirmed \<Rightarrow> (Ok (), s\<lparr>landed := landed s @ [(sig, dest d, js_Number (lamports d))]\<rparr>))"

definition handle_signature ::
  "'a Config \<Rightarrow> string \<Rightarrow> Answers \<Rightarrow> string \<Rightarrow> ('a Relayer, js_error, unit) op" where
  "handle_signature cfg treasuryAta answers sig s =
     (if sig \<in> set (processed s) then (Ok (), s)
      else
        sbind (slift (parsedTransaction answers sig)) (\<lambda>tx.
        sbind (slift (parseDeposit cfg tx treasuryAta)) (\<lambda>dep.
        sbind (case dep of None \<Rightarrow> sreturn () | Some d \<Rightarrow> releaseNative (release_answer_for answers sig) sig d) (\<lambda>_.
        sbind (\<lambda>s. (Ok (), s\<lparr>processed := processed s @ [sig]\<rparr>)) (\<lambda>_.
          saveState (save_answer_for answers sig))))) s)"

fun handle_signatures ::
  "'a Config \<Rightarrow> string \<Rightarrow> Answers \<Rightarrow> string list \<Rightarrow> ('a Relayer, js_error, unit) op" where
  "handle_signatures cfg treasuryAta answers [] = sreturn ()"
| "handle_signatures cfg treasuryAta answers (sig # sigs) =
     sbind (handle_signature cfg treasuryAta answers sig) (\<lambda>_. handle_signatures cfg treasuryAta answers sigs)"

text \<open>The \<open>try\<close> block of the loop of \<open>main\<close>, and one round: an exception ends the round and is logged.\<close>

definition try_round :: "'a Config \<Rightarrow> string \<Rightarrow> Answers \<Rightarrow> ('a Relayer, js_error, unit) op" where
  "try_round cfg treasuryAta answers =
     sbind (slift (signatures answers)) (\<lambda>sigs. handle_signatures cfg treasuryAta answers (rev sigs))"

definition poll :: "'a Config \<Rightarrow> string \<Rightarrow> Answers \<Rightarrow> 'a Relayer \<Rightarrow> 'a Relayer" where
  "poll cfg treasuryAta answers s = snd (try_round cfg treasuryAta answers s)"

text \<open>Starting the process: the processed signatures come from the state file.\<close>

definition start :: "'a Relayer \<Rightarrow> 'a Relayer" where
  "start s = s\<lparr>processed := loadState (state_file s)\<rparr>"

section \<open>What a deposit is worth\<close>





text \<open>
  The conversion to a double is exact for numbers below 2 to the 53, and for multiples of 2 to the \<open>k\<close> below 2 to the
  53 + \<open>k\<close>.
\<close>

lemma js_Number_exact:
  assumes "2 ^ k dvd n" and "0 < n" and "n < 2 ^ (53 + k)"
  shows "js_Number n = n"
proof -
  define e where "e = floorlog 2 (nat n) - 53"
  have "nat n < 2 ^ (53 + k)" using assms(2,3) by (simp add: nat_less_iff)
  then have "floorlog 2 (nat n) \<le> 53 + k" by (intro floorlog_leI) simp_all
  then have "(2 :: int) ^ e dvd 2 ^ k" by (intro le_imp_power_dvd) (simp add: e_def)
  then have "2 ^ e dvd n" using assms(1) by (rule dvd_trans)
  then have "n mod 2 ^ e = 0" "n div 2 ^ e * 2 ^ e = n" by auto
  then show ?thesis by (simp add: js_Number_def Let_def flip: e_def)
qed


section \<open>Runs of the relayer\<close>




definition times_paid :: "'a Relayer \<Rightarrow> string \<Rightarrow> nat" where
  "times_paid s sig = count_list (map fst (landed s)) sig"


lemma set_js_Set [simp]: "set (js_Set xs) = set xs"
  by (simp add: js_Set_def)

lemma loadState_simps [simp]: "set (loadState (Some xs)) = set xs" "loadState None = []"
  by (simp_all add: loadState_def)

lemma times_paid_processed [simp]: "times_paid (s\<lparr>processed := xs\<rparr>) sig = times_paid s sig"
  by (simp add: times_paid_def)













section \<open>Rounds in which no call throws\<close>

text \<open>
  The calls for a signature return: its transaction is fetched and parsed, a release is confirmed, whether or not the
  transfer succeeded, and the state file is written. What the round then pays for the signature.
\<close>

definition signature_returns :: "'a Config \<Rightarrow> string \<Rightarrow> Answers \<Rightarrow> string \<Rightarrow> bool" where
  "signature_returns cfg treasuryAta answers sig \<longleftrightarrow>
     (case obind (parsedTransaction answers sig) (\<lambda>tx. parseDeposit cfg tx treasuryAta) of
        Ok dep \<Rightarrow> dep = None \<or> release_answer_for answers sig \<in> {ConfirmedError, Confirmed}
      | _ \<Rightarrow> False) \<and>
     save_answer_for answers sig = Saved"

definition round_payment :: "'a Config \<Rightarrow> string \<Rightarrow> Answers \<Rightarrow> string \<Rightarrow> (string \<times> 'a \<times> int) list" where
  "round_payment cfg treasuryAta answers sig =
     (case obind (parsedTransaction answers sig) (\<lambda>tx. parseDeposit cfg tx treasuryAta) of
        Ok (Some d) \<Rightarrow>
          if release_answer_for answers sig = Confirmed then [(sig, dest d, js_Number (lamports d))] else []
      | _ \<Rightarrow> [])"

lemma handle_signature_new:
  assumes "sig \<notin> set (processed s)"
  shows "if signature_returns cfg treasuryAta answers sig
    then handle_signature cfg treasuryAta answers sig s =
      (Ok (), s\<lparr>processed := processed s @ [sig], state_file := Some (processed s @ [sig]),
        landed := landed s @ round_payment cfg treasuryAta answers sig\<rparr>)
    else fst (handle_signature cfg treasuryAta answers sig s) \<noteq> Ok ()"
  using assms
  by (cases "release_answer_for answers sig"; cases "save_answer_for answers sig")
    (auto simp: handle_signature_def signature_returns_def round_payment_def sbind_def slift_def sreturn_def saveState_def
      releaseNative_def split: outcome.splits option.splits)

abbreviation unprocessed :: "'a Relayer \<Rightarrow> string list \<Rightarrow> string list" where
  "unprocessed s sigs \<equiv> filter (\<lambda>sig. sig \<notin> set (processed s)) sigs"

lemma handle_signatures_exact:
  assumes "distinct sigs" and "handle_signatures cfg treasuryAta answers sigs s = (r, t)"
  shows "(r = Ok () \<longleftrightarrow> list_all (signature_returns cfg treasuryAta answers) (unprocessed s sigs)) \<and>
    (r = Ok () \<longrightarrow>
      processed t = processed s @ unprocessed s sigs \<and>
      landed t = landed s @ concat (map (round_payment cfg treasuryAta answers) (unprocessed s sigs)) \<and>
      state_file t = (if unprocessed s sigs = [] then state_file s else Some (processed t)))"
  using assms
proof (induction sigs arbitrary: s)
  case Nil
  then show ?case by (simp add: sreturn_def)
next
  case (Cons sig sigs)
  show ?case
  proof (cases "sig \<in> set (processed s)")
    case True
    then have "handle_signatures cfg treasuryAta answers sigs s = (r, t)"
      using Cons.prems(2) by (simp add: sbind_def handle_signature_def)
    then show ?thesis using Cons.IH [of s] Cons.prems(1) True by simp
  next
    case False
    note step = handle_signature_new [OF False, of cfg treasuryAta answers]
    show ?thesis
    proof (cases "signature_returns cfg treasuryAta answers sig")
      case returns: True
      let ?s = "s\<lparr>processed := processed s @ [sig], state_file := Some (processed s @ [sig]),
        landed := landed s @ round_payment cfg treasuryAta answers sig\<rparr>"
      have "handle_signatures cfg treasuryAta answers sigs ?s = (r, t)"
        using Cons.prems(2) step returns by (simp add: sbind_def)
      moreover have "unprocessed ?s sigs = unprocessed s sigs" using Cons.prems(1) by (auto intro: filter_cong)
      ultimately show ?thesis using Cons.IH [of ?s] Cons.prems(1) returns False by simp
    next
      case fails: False
      then have "r \<noteq> Ok ()"
        using Cons.prems(2) step by (auto simp: sbind_def split: prod.splits outcome.splits)
      then show ?thesis using fails False by simp
    qed
  qed
qed

section \<open>Example\<close>

text \<open>Five tokens for \<open>bob\<close> in the deposit \<open>d1\<close>; every other transaction leaves the treasury alone.\<close>

definition example_relayer :: "string Config" where
  "example_relayer = \<lparr>MINT = ''BBC'', scale = 1000, PublicKey = (\<lambda>k. if k = ''bob'' then Some k else None)\<rparr>"

definition example_chain :: "string \<Rightarrow> ParsedTx" where
  "example_chain sig =
     \<lparr>meta = Some \<lparr>err = False, preTokenBalances = Some [\<lparr>accountIndex = 1, mint = ''BBC'', amount = 2000000\<rparr>],
        postTokenBalances =
          Some [\<lparr>accountIndex = 1, mint = ''BBC'', amount = (if sig = ''d1'' then 7000000 else 2000000)\<rparr>]\<rparr>,
      accountKeys = [''alice'', ''ata''],
      instructions = [\<lparr>program = Some ''spl-memo'', parsed = Some (ParsedString '' bob'')\<rparr>]\<rparr>"

definition example_answers :: "release_answer \<Rightarrow> Answers" where
  "example_answers answer =
     \<lparr>signatures = Ok [''d2'', ''d1''], parsedTransaction = (\<lambda>sig. Ok (Some (example_chain sig))),
      release_answer_for = (\<lambda>_. answer), save_answer_for = (\<lambda>_. Saved)\<rparr>"

definition example_round :: "release_answer \<Rightarrow> string Relayer \<Rightarrow> string Relayer" where
  "example_round answer = poll example_relayer ''ata'' (example_answers answer)"

definition example_first :: "string Relayer" where
  "example_first = start \<lparr>processed = [], state_file = None, landed = [], lapses = 0\<rparr>"






lemma example_trim: "trim '' bob'' = ''bob''"
  by (simp add: trim_def is_space_def of_char_def)

lemma example_deposit:
  "parseDeposit example_relayer (Some (example_chain ''d1'')) ''ata'' =
     Ok (Some \<lparr>lamports = 5000000000, dest = ''bob''\<rparr>)"
  "parseDeposit example_relayer (Some (example_chain ''d2'')) ''ata'' = Ok None"
  by (simp_all add: parseDeposit_def example_relayer_def example_chain_def find_balance_def memo_of_def example_trim)

lemma example_Number: "js_Number 5000000000 = 5000000000"
  by (rule js_Number_exact [of 0]) simp_all

lemmas example_steps =
  example_round_def poll_def try_round_def example_answers_def handle_signature_def sbind_def slift_def sreturn_def
  saveState_def releaseNative_def start_def loadState_def js_Set_def example_first_def example_deposit example_Number


section \<open>The peg\<close>








text \<open>
  C40: a round, exactly. For the signatures that the node lists, newest first and each once, no call of the round
  throws if and only if, for every listed signature that was not processed before, the transaction is fetched and
  parsed, the release of a deposit is confirmed (whether or not the transfer succeeded), and the state file is written.
  Such a round records these signatures, oldest first, in memory and in the file, and the transfers that it makes
  are, in this order, one for each deposit among them whose transaction was found and whose transfer succeeded.
\<close>

theorem round_exact:
  assumes "signatures answers = Ok sigs" and "distinct sigs"
  shows "(fst (try_round cfg treasuryAta answers s) = Ok () \<longleftrightarrow>
      list_all (signature_returns cfg treasuryAta answers) (unprocessed s (rev sigs))) \<and>
    (fst (try_round cfg treasuryAta answers s) = Ok () \<longrightarrow>
      processed (poll cfg treasuryAta answers s) = processed s @ unprocessed s (rev sigs) \<and>
      landed (poll cfg treasuryAta answers s) =
        landed s @ concat (map (round_payment cfg treasuryAta answers) (unprocessed s (rev sigs))) \<and>
      state_file (poll cfg treasuryAta answers s) =
        (if unprocessed s (rev sigs) = [] then state_file s else Some (processed (poll cfg treasuryAta answers s))))"
proof -
  obtain r t where rt: "handle_signatures cfg treasuryAta answers (rev sigs) s = (r, t)" by fastforce
  then have "try_round cfg treasuryAta answers s = (r, t)"
    using assms(1) by (simp add: try_round_def sbind_def slift_def)
  then show ?thesis
    using handle_signatures_exact [OF _ rt] assms(2) by (simp add: poll_def)
qed

theorem round_exact_witness:
  "fst (try_round example_relayer ''ata'' (example_answers Confirmed) example_first) = Ok () \<and>
   processed (example_round Confirmed example_first) = [''d1'', ''d2''] \<and>
   landed (example_round Confirmed example_first) = [(''d1'', ''bob'', 5000000000)]"
proof -
  have l: "signatures (example_answers Confirmed) = Ok [''d2'', ''d1'']" "distinct [''d2'', ''d1'']"
    by (simp_all add: example_answers_def)
  have "processed example_first = []" "landed example_first = []" by (simp_all add: example_first_def start_def)
  moreover have "signature_returns example_relayer ''ata'' (example_answers Confirmed) sig"
    if "sig = ''d1'' \<or> sig = ''d2''" for sig
    using that by (auto simp: signature_returns_def example_answers_def example_deposit)
  moreover have "round_payment example_relayer ''ata'' (example_answers Confirmed) ''d1'' = [(''d1'', ''bob'', 5000000000)]"
    "round_payment example_relayer ''ata'' (example_answers Confirmed) ''d2'' = []"
    by (simp_all add: round_payment_def example_answers_def example_deposit example_Number)
  ultimately show ?thesis
    using round_exact [OF l, of example_relayer "''ata''" example_first] by (simp add: example_round_def)
qed

section \<open>Deposits that are paid again, late or never\<close>

text \<open>A state file that was cut short makes the relayer pay every listed deposit again after a restart.\<close>

lemma cut_state_file_paid_twice:
  "landed (example_round Confirmed (start ((example_round Confirmed example_first)\<lparr>state_file := None\<rparr>))) =
     [(''d1'', ''bob'', 5000000000), (''d1'', ''bob'', 5000000000)]"
  by (simp add: example_steps)

text \<open>
  A deposit whose transaction the node does not find, or whose transfer was included and failed, is recorded as
  processed without a transfer, and no later round looks at it again.
\<close>

lemma unpaid_deposit_processed:
  assumes "sig \<notin> set (processed s)" and "save_answer_for answers sig = Saved"
    and "parsedTransaction answers sig = Ok None \<or>
      parsedTransaction answers sig = Ok (Some t) \<and> parseDeposit cfg (Some t) treasuryAta = Ok (Some d) \<and>
      release_answer_for answers sig = ConfirmedError"
  shows "handle_signature cfg treasuryAta answers sig s =
    (Ok (), s\<lparr>processed := processed s @ [sig], state_file := Some (processed s @ [sig])\<rparr>)"
  using assms
  by (auto simp: handle_signature_def sbind_def slift_def sreturn_def saveState_def releaseNative_def parseDeposit_def [of _ None])

text \<open>
  While the release of the oldest unprocessed signature throws, for example because the amount is too small for a
  new account, no later deposit is released.
\<close>

lemma refused_release_blocks:
  assumes "signatures answers = Ok (newer @ sig # older)" and "set older \<subseteq> set (processed s)"
    and "sig \<notin> set (processed s)" and "parsedTransaction answers sig = Ok (Some t)"
    and "parseDeposit cfg (Some t) treasuryAta = Ok (Some d)" and "release_answer_for answers sig = NotLanded"
  shows "poll cfg treasuryAta answers s = s"
proof -
  have first: "handle_signature cfg treasuryAta answers sig s = (Err RpcError, s)"
    using assms(3-6) by (simp add: handle_signature_def sbind_def slift_def releaseNative_def)
  have known: "handle_signature cfg treasuryAta answers x s = (Ok (), s)" if "x \<in> set (processed s)" for x
    using that by (simp add: handle_signature_def)
  have "handle_signatures cfg treasuryAta answers (sigs @ sig # rest) s = (Err RpcError, s)"
    if "set sigs \<subseteq> set (processed s)" for sigs rest
    using that by (induction sigs) (simp_all add: sbind_def first known)
  note this [of "rev older" "rev newer"]
  then show ?thesis using assms(2) by (simp add: poll_def try_round_def sbind_def slift_def assms(1))
qed

text \<open>Above the bound of the exact amounts the transfer differs from the deposit.\<close>

lemma large_deposit_rounded: "js_Number (72057594037929 * 1000) = 72057594037929000 - 8"
proof -
  have "floorlog 2 (nat 72057594037929000) = 57"
    by (intro antisym floorlog_leI floorlog_geI) simp_all
  then show ?thesis by (simp add: js_Number_def)
qed

end
