(* ===== verification/Spec2Isabelle.thy ===== *)
theory Spec2Isabelle
  imports Packet_Intake Batch_Locks Account_Locks Scheduler_Runs Peg_Relayer
begin

text \<open>
  Verification of the BlackBull node: how a block producer turns the bytes of a packet into a transaction that is
  executed without conflicts and within the budget of a block; and of the relayer that moves tokens onto the chain.
  Paths are relative to \<open>src/node\<close> of the repository unless they start with \<open>scripts\<close>.

  \<^bold>\<open>The path of a transaction.\<close> A packet is parsed in place by \<open>transaction-view\<close>: a frame of counts and offsets is
  computed once with checked reads, and the accessors then read the bytes without checks. The view is sanitized,
  its metadata and compute budget are extracted (\<open>runtime-transaction\<close>, \<open>compute-budget-instruction\<close>), its address
  lookups are resolved, its account locks are validated, and it gets a fee, a cost and a priority
  (\<open>core/src/banking_stage/transaction_scheduler/receive_and_buffer.rs\<close>). The scheduler of the banking stage locks
  the accounts for a worker thread (\<open>scheduling-utils\<close>), the worker reserves the cost in the tracker of the block
  (\<open>qos_service.rs\<close>, \<open>cost-model\<close>) and the bank locks the accounts of the batch (\<open>accounts-db\<close>). The unified
  scheduler (\<open>unified-scheduler-logic\<close>) is the other way to order transactions: it makes a task of each of them
  and gives out the tasks whose addresses are free.

  \<^bold>\<open>Theories.\<close>
  \<^item> \<open>Prelude\<close>: results of calls (\<open>outcome\<close>), operations on a state with weakest preconditions, machine arithmetic.
  \<^item> \<open>Tx_Bytes\<close>, \<open>Tx_Frames\<close>, \<open>Tx_Instructions\<close>, \<open>Tx_Lookups\<close>, \<open>Tx_Frame\<close>: the parser, one theory per group of files
    of \<open>transaction-view/src\<close> (\<open>bytes.rs\<close>; the fixed frames; \<open>instructions_frame.rs\<close>;
    \<open>address_table_lookup_frame.rs\<close>; \<open>transaction_frame.rs\<close>). \<open>Tx_Wire\<close> states the wire format as data and an
    encoder, and shows that the parser is memory safe on every slice and, below 65536 bytes, the inverse of the encoder.
  \<^item> \<open>Tx_View\<close>, \<open>Tx_Resolved\<close>: \<open>sanitize.rs\<close>, \<open>transaction_view.rs\<close> and \<open>resolved_transaction_view.rs\<close>. Sanitization
    accepts exactly the transactions that satisfy its constraints over the natural numbers; after it the counters
    do not wrap and the accessors do not panic; an account is writable exactly when it should be.
  \<^item> \<open>Builtin_Costs\<close>, \<open>Compute_Budget\<close>, \<open>Runtime_Tx\<close>: \<open>builtins-default-costs\<close>, \<open>compute-budget-instruction\<close>, the limits
    of \<open>compute-budget\<close>, \<open>runtime-transaction\<close> and \<open>fee\<close>. The filters that remember answers satisfy the contract
    \<open>memo_filter\<close>; budget processing grants the requested, capped or default limits, or reports the first error; fees
    and prices are exact up to the documented rounding.
  \<^item> \<open>Cost_Model\<close>, \<open>Cost_Tracker\<close>, \<open>Qos_Service\<close>: \<open>cost-model\<close> and \<open>qos_service.rs\<close>. Costs are exact sums saturated
    once; the tracker refines the multiset of the transactions of the block, exceeds a limit by at most what
    transactions used beyond their estimates, and after a batch is settled accounts for exactly the committed
    transactions.
  \<^item> \<open>Packet_Intake\<close>: \<open>receive_and_buffer.rs\<close> with the lookups of \<open>runtime\<close> and \<open>accounts-db\<close> that it calls. It composes
    the theories above: a packet gives an error or a well-formed buffered transaction, and never a panic.
  \<^item> \<open>Thread_Set\<close>, \<open>Account_Locks\<close>: \<open>scheduling-utils/src/thread_aware_account_locks.rs\<close>. Bit sets satisfy the contract
    \<open>id_set\<close>, the lock table the contract \<open>counted_locks\<close>; a write lock excludes the other threads, and unlocking in
    any order restores the table. \<open>Batch_Locks\<close>: \<open>accounts-db/src/account_locks.rs\<close>, the same for batches of a bank.
  \<^item> \<open>Usage_Queue\<close>, \<open>Usage_Laws\<close>: the first half of \<open>unified-scheduler-logic/src/lib.rs\<close>, the queue of an address. The
    locale \<open>address_queue\<close> has the laws of locking and releasing one address; the first-in-first-out and the priority
    queue both interpret it.
  \<^item> \<open>Unified_Scheduler\<close>, \<open>Scheduler_Addresses\<close>, \<open>Scheduler_Runs\<close>: the scheduling state machine, the invariant of all
    addresses, and the runs of a machine that is used as its documentation asks. From the laws alone: tasks given
    out do not conflict, no call panics, some task can always run, and clearing runs every task to its end.
  \<^item> \<open>Peg_Relayer\<close>: \<open>scripts/peg-relayer/index.mjs\<close>. For all answers of the two nodes and of the file system, and stops of
    the process at any point, a transfer pays a deposit of the chain with its amount, and a deposit is paid more than
    once only after a lapse (a transfer that landed without being confirmed and recorded, or a failed write of the
    state file). A round in which no call throws is described exactly; further lemmas show how a deposit is paid
    twice, late or never.
  \<^item> This theory joins \<open>Packet_Intake\<close> and the scheduler: \<open>pool_run\<close> has the runs in which the tasks are made by
    \<open>create_task\<close> with the loader of the pool for transactions with validated account locks. They are runs of the
    scheduler, and no two transactions are given out together when one of them writes a common account.

  \<^bold>\<open>Conventions.\<close> A Rust call ends in \<open>Ok\<close>, in \<open>Err\<close>, in \<open>Panic\<close> (assertions, \<open>unwrap\<close>, \<open>unreachable!\<close>, slices out of
  range) or in \<open>UB\<close> (an unchecked read outside of the slice); the absence of the last two is proved, never assumed.
  The state after a panic is not observed. Arithmetic is that of the release build: \<open>+\<close> and \<open>-\<close> wrap around and
  shifts take their amount modulo the width. Integers of fixed width are words; \<open>usize\<close> is a natural number, with
  the wrap-around at 2 to the 64 written out where a value can reach it. Hash maps are partial maps, ordered maps
  are sorted lists. Cells that tasks and queues share in the unified scheduler are stores, indexed by references;
  the token that the source passes along to open a cell is the store itself. Interior locks and atomics are the
  values that they hold: each operation is one step, and runs are arbitrary sequences of such steps.

  \<^bold>\<open>Code outside the repository\<close> is a parameter. Constants, decoders, hash functions and identifiers of external
  crates are fields of the records \<open>sanitize_params\<close>, \<open>program_ids\<close>, \<open>budget_env\<close>, \<open>runtime_env\<close> and \<open>cost_env\<close>; the
  order of account keys is the hypothesis \<open>account_keys_spec\<close>; the thread selector of the lock table has its
  documented contract as hypothesis; the two remote nodes, the file system and the key parser of the relayer are
  the records \<open>Answers\<close> and \<open>Config\<close>. Each theorem with such a hypothesis is applied to a concrete instance.

  \<^bold>\<open>Bounds.\<close> No definition uses fuel: every loop is structural or has a termination proof. The inverse property of
  the parser is stated below 65536 bytes, because offsets are cast to 16 bits; packets are far smaller, and memory
  safety is shown without the bound. The runs of the unified scheduler keep fewer than 2 to the 31 tasks in total
  between two reinitializations, because its 32-bit counters panic on overflow and count a buffered task twice. The amounts of the
  relayer are those that a double represents exactly after the multiplication by the scale.

  \<^bold>\<open>Not modelled.\<close> The execution of programs (\<open>svm\<close>, \<open>program-runtime\<close>, \<open>programs\<close>) rests on the external virtual
  machine. Account storage, ledger and snapshots (\<open>accounts-db\<close>, \<open>ledger\<close>, \<open>bucket_map\<close>) are files, memory maps and
  background threads. Networking (\<open>gossip\<close>, \<open>turbine\<close>, \<open>streamer\<close>, \<open>quic-client\<close>, \<open>xdp\<close>) is input and output.
  Consensus (\<open>vote\<close>, \<open>votor\<close>, the replay stage of \<open>core\<close>) is a separate subsystem that shares no operation with the
  admission of transactions. The threads, channels and timeouts around the modelled state machines
  (\<open>unified-scheduler-pool\<close>, the controllers and workers of the banking stage) are left out: the theorems hold for
  every order of the calls that they can make. Conversions to transaction types of the external SDK, printers,
  metrics, command line tools, client interfaces, the web site and the shell scripts are left out as well.
\<close>

section \<open>From validated transactions to exclusive execution\<close>

text \<open>
  The runs of a scheduler with the usage queue loader of its pool. A task is made by \<open>create_task\<close> with the loader, as
  in \<open>schedule_execution\<close> of \<open>unified-scheduler-pool/src/lib.rs\<close>, for a transaction whose account locks have been
  validated; it is then \<open>pending\<close> until the scheduler thread takes it. In between, other tasks are made, taken,
  given out and descheduled. A new task has a cell of its own, and with priority queues an id that no active task
  has; the counters have room, as in the runs of the scheduler.
\<close>

inductive pool_run ::
  "Capability \<Rightarrow> usize \<Rightarrow> ('k, 'h) TaskInner set \<Rightarrow> ('k, 'h) TaskInner set \<Rightarrow> (('k, 'h) TaskInner \<Rightarrow> nat) \<Rightarrow>
   ('k, 'h) TaskInner set \<Rightarrow> ('k, 'h) UsageQueueLoaderInner \<Rightarrow> ('k, 'h) SchedulingStateMachine \<Rightarrow> bool"
  for cap limit where
  init: "exclusively_initialize_current_thread_for_scheduling max_running max_unique counts (\<lambda>_. UsageQueueInner_new cap) = Ok s \<Longrightarrow>
     pool_run cap limit {} {} arrival {} (UsageQueueLoaderInner_new cap) s"
| create: "pool_run cap limit pending act arrival run l s \<Longrightarrow> validate_account_locks (sched_account_keys tx) limit = Ok () \<Longrightarrow>
     r \<notin> self_ref ` (pending \<union> act) \<Longrightarrow> create_task r tx ident load (l, count_token s) = (t, l', counts') \<Longrightarrow>
     pool_run cap limit (insert t pending) act arrival run l' (s\<lparr>count_token := counts'\<rparr>)"
| schedule: "pool_run cap limit pending act arrival run l s \<Longrightarrow> t \<in> pending \<Longrightarrow>
     (cap = PriorityQueueing \<longrightarrow> task_id t \<notin> task_id ` act) \<Longrightarrow> \<not> drops t s \<Longrightarrow> counter_room s \<Longrightarrow>
     \<forall>t'\<in>act. arrival t' < n \<Longrightarrow> schedule_or_buffer_task t force_buffering s = Ok (x, s') \<Longrightarrow>
     pool_run cap limit (pending - {t}) (insert t act) (arrival(t := n)) (run \<union> set_option x) l s'"
| drop: "pool_run cap limit pending act arrival run l s \<Longrightarrow> t \<in> pending \<Longrightarrow> drops t s \<Longrightarrow> counter_room s \<Longrightarrow>
     schedule_or_buffer_task t force_buffering s = Ok (x, s') \<Longrightarrow> pool_run cap limit (pending - {t}) act arrival run l s'"
| take_next: "pool_run cap limit pending act arrival run l s \<Longrightarrow> schedule_next_unblocked_task s = Ok (x, s') \<Longrightarrow>
     pool_run cap limit pending act arrival (run \<union> set_option x) l s'"
| deschedule: "pool_run cap limit pending act arrival run l s \<Longrightarrow> t \<in> run \<Longrightarrow> deschedule_task t s = Ok s' \<Longrightarrow>
     pool_run cap limit pending (act - {t}) arrival (run - {t}) l s'"
| reinit: "pool_run cap limit pending act arrival run l s \<Longrightarrow> reinitialize s = Ok s' \<Longrightarrow>
     pool_run cap limit pending act arrival run l s'"

text \<open>
  All tasks name the queues that the loader has for their accounts, and the pending tasks are as \<open>create_task\<close> left
  them, so that they are fresh for the scheduler.
\<close>

definition pending_ok ::
  "('k, 'h) TaskInner set \<Rightarrow> ('k, 'h) TaskInner set \<Rightarrow> ('k, 'h) SchedulingStateMachine \<Rightarrow> bool" where
  "pending_ok pending act s \<longleftrightarrow>
     inj_on self_ref pending \<and>
     (\<forall>t\<in>pending. self_ref t \<notin> self_ref ` act \<and> count_token s (self_ref t) = 0 \<and>
        distinct (sched_account_keys (transaction t)) \<and> length (sched_account_keys (transaction t)) < 2 ^ 32)"

definition pool_inv ::
  "('k, 'h) TaskInner set \<Rightarrow> ('k, 'h) TaskInner set \<Rightarrow> ('k, 'h) UsageQueueLoaderInner \<Rightarrow>
   ('k, 'h) SchedulingStateMachine \<Rightarrow> bool" where
  "pool_inv pending act l s \<longleftrightarrow>
     loader_ok l \<and> (\<forall>t\<in>pending \<union> act. created_with l t) \<and> pending_ok pending act s"

lemma disjoint_imageI: "(\<And>x. x \<in> B \<Longrightarrow> f x \<notin> A) \<Longrightarrow> A \<inter> f ` B = {}"
  by blast

lemma pending_ok_frame:
  assumes "pending_ok pending act s" and "pending' \<subseteq> pending" and "self_ref ` act' \<inter> self_ref ` pending' = {}"
    and "\<forall>t\<in>pending'. count_token s' (self_ref t) = count_token s (self_ref t)"
  shows "pending_ok pending' act' s'"
proof -
  have "inj_on self_ref pending'" using assms(1,2) by (auto simp: pending_ok_def intro: inj_on_subset)
  moreover have "self_ref t \<notin> self_ref ` act'" if "t \<in> pending'" for t using that assms(3) by blast
  moreover have "t \<in> pending" if "t \<in> pending'" for t using that assms(2) by blast
  ultimately show ?thesis using assms(1,4) by (simp add: pending_ok_def)
qed

lemma pending_ok_subset:
  assumes "pending_ok pending act s" and "pending' \<subseteq> pending" and "act' \<subseteq> act"
    and "\<forall>r. r \<notin> self_ref ` act \<longrightarrow> count_token s' r = count_token s r"
  shows "pending_ok pending' act' s'"
proof (rule pending_ok_frame [OF assms(1,2)])
  have new: "self_ref t \<notin> self_ref ` act" if "t \<in> pending'" for t
    using assms(1,2) that unfolding pending_ok_def by blast
  have "self_ref ` act \<inter> self_ref ` pending' = {}" using new by (rule disjoint_imageI)
  then show "self_ref ` act' \<inter> self_ref ` pending' = {}" using image_mono [OF assms(3), of self_ref] by blast
  show "\<forall>t\<in>pending'. count_token s' (self_ref t) = count_token s (self_ref t)" using new assms(4) by simp
qed

lemma pool_invI:
  assumes "pool_inv pending act l s" and "pending' \<union> act' \<subseteq> pending \<union> act" and "pending_ok pending' act' s'"
  shows "pool_inv pending' act' l s'"
proof -
  have "created_with l t" if "t \<in> pending' \<union> act'" for t
    using assms(1) subsetD [OF assms(2) that] by (simp add: pool_inv_def)
  then show ?thesis using assms(1,3) by (simp add: pool_inv_def)
qed

lemma pool_inv_fresh:
  assumes "pool_inv pending act l s" and "t \<in> pending" and "cap = PriorityQueueing \<longrightarrow> task_id t \<notin> task_id ` act"
  shows "fresh_task cap act s t"
proof -
  have t: "loader_ok l" "created_with l t" "distinct (sched_account_keys (transaction t))"
    "length (sched_account_keys (transaction t)) < 2 ^ 32" "self_ref t \<notin> self_ref ` act" "count_token s (self_ref t) = 0"
    using assms(1,2) by (auto simp: pool_inv_def pending_ok_def)
  then show ?thesis
    using created_distinct [OF t(1-3)] assms(3) by (simp add: fresh_task_def created_with_def)
qed

lemma create_keeps_pool:
  assumes "pool_inv pending act l s" and "validate_account_locks (sched_account_keys tx) limit = Ok ()" and "limit < 2 ^ 32"
    and "r \<notin> self_ref ` (pending \<union> act)" and "create_task r tx ident load (l, count_token s) = (t, l', counts')"
  shows "pool_inv (insert t pending) act l' (s\<lparr>count_token := counts'\<rparr>)" "counts' = (count_token s)(r := 0)"
proof -
  have l: "loader_ok l" "\<forall>t\<in>pending \<union> act. created_with l t" "pending_ok pending act s"
    using assms(1) by (auto simp: pool_inv_def)
  note spec = do_create_task_spec [OF l(1) assms(5) [unfolded create_task_def]]
  show c: "counts' = (count_token s)(r := 0)" by (rule spec(4))
  have "length (sched_account_keys tx) \<le> limit" "distinct (sched_account_keys tx)"
    using assms(2) by (auto simp: validate_account_locks_Ok)
  then have "pending_ok (insert t pending) act (s\<lparr>count_token := counts'\<rparr>)"
    using l(3) assms(3,4) spec(5,6) by (auto simp: pending_ok_def c)
  then show "pool_inv (insert t pending) act l' (s\<lparr>count_token := counts'\<rparr>)"
    using l(2) spec(1-3) created_with_mono by (auto simp: pool_inv_def)
qed

lemma schedule_keeps_pool:
  assumes inv: "pool_inv pending act l s" and t: "t \<in> pending"
    and frame: "\<forall>r. r \<notin> self_ref ` insert t act \<longrightarrow> count_token s' r = count_token s r"
  shows "pool_inv (pending - {t}) (insert t act) l s'"
proof -
  have p: "inj_on self_ref pending" "\<forall>t\<in>pending. self_ref t \<notin> self_ref ` act" "pending_ok pending act s"
    using inv by (auto simp: pool_inv_def pending_ok_def)
  have other: "self_ref t' \<notin> self_ref ` insert t act" if "t' \<in> pending - {t}" for t'
    using that p(2) t inj_onD [OF p(1), of t' t] by auto
  then have "self_ref ` insert t act \<inter> self_ref ` (pending - {t}) = {}" by (rule disjoint_imageI)
  then have "pending_ok (pending - {t}) (insert t act) s'"
    by (rule pending_ok_frame [OF p(3) Diff_subset]) (use other frame in simp)
  then show ?thesis by (rule pool_invI [OF inv, rotated]) (use t in auto)
qed

lemma pool_run_inv:
  assumes "pool_run cap limit pending act arrival run l s" and "limit < 2 ^ 32"
  shows "sched_run cap act arrival run s \<and> pool_inv pending act l s"
  using assms(1)
proof (induction rule: pool_run.induct)
  case (init max_running max_unique counts s arrival)
  then have "sched_run cap {} arrival {} s" by (rule sched_run.init)
  then show ?case by (simp add: pool_inv_def pending_ok_def loader_ok_def UsageQueueLoaderInner_new_def)
next
  case (create pending act arrival run l s tx r ident t l' counts')
  note c = create_keeps_pool [OF create.IH [THEN conjunct2] create.hyps(2) assms(2) create.hyps(3,4)]
  have "r \<notin> self_ref ` act" using create.hyps(3) by blast
  then have "sched_run cap act arrival run (s\<lparr>count_token := counts'\<rparr>)"
    unfolding c(2) by (rule sched_run.create [OF create.IH [THEN conjunct1]])
  then show ?case using c(1) by simp
next
  case (schedule pending act arrival run l s t n force_buffering x s')
  have run: "sched_run cap act arrival run s" and inv: "pool_inv pending act l s" using schedule.IH by simp_all
  have fresh: "fresh_task cap act s t" using inv schedule.hyps(2,3) by (rule pool_inv_fresh)
  have "\<forall>r. r \<notin> self_ref ` insert t act \<longrightarrow> count_token s' r = count_token s r"
    using schedule_keeps_inv [OF sched_run_inv [OF run] fresh schedule.hyps(4-6), of force_buffering] schedule.hyps(7)
    by simp
  then have "pool_inv (pending - {t}) (insert t act) l s'" by (rule schedule_keeps_pool [OF inv schedule.hyps(2)])
  then show ?case by (rule conjI [OF sched_run.schedule [OF run fresh schedule.hyps(4-7)]])
next
  case (drop pending act arrival run l s t force_buffering x s')
  have run: "sched_run cap act arrival run s" and inv: "pool_inv pending act l s" using drop.IH by simp_all
  have same: "count_token s' = count_token s"
    using drop_keeps_inv [OF sched_run_inv [OF run] drop.hyps(3,4), of force_buffering] drop.hyps(5) by simp
  have "pending_ok (pending - {t}) act s'"
    by (rule pending_ok_subset [of pending act s]) (use inv same in \<open>simp_all add: pool_inv_def\<close>)
  then have "pool_inv (pending - {t}) act l s'" by (rule pool_invI [OF inv, rotated]) blast
  then show ?case by (rule conjI [OF sched_run.drop [OF run drop.hyps(3-5)]])
next
  case (take_next pending act arrival run l s x s')
  have run: "sched_run cap act arrival run s" and inv: "pool_inv pending act l s" using take_next.IH by simp_all
  have "count_token s' = count_token s"
    using next_keeps_inv [OF sched_run_inv [OF run]] take_next.hyps(2) by simp
  then show ?case using sched_run.take_next [OF run take_next.hyps(2)] inv by (simp add: pool_inv_def pending_ok_def)
next
  case (deschedule pending act arrival run l s t s')
  have run: "sched_run cap act arrival run s" and inv: "pool_inv pending act l s" using deschedule.IH by simp_all
  have frame: "\<forall>r. r \<notin> self_ref ` act \<longrightarrow> count_token s' r = count_token s r"
    using deschedule_keeps_inv [OF sched_run_inv [OF run] deschedule.hyps(2)] deschedule.hyps(3) by simp
  have "pending_ok pending (act - {t}) s'"
    by (rule pending_ok_subset [of pending act s]) (use inv frame in \<open>simp_all add: pool_inv_def\<close>)
  then have "pool_inv pending (act - {t}) l s'" by (rule pool_invI [OF inv, rotated]) blast
  then show ?case by (rule conjI [OF sched_run.deschedule [OF run deschedule.hyps(2,3)]])
next
  case (reinit pending act arrival run l s s')
  have run: "sched_run cap act arrival run s" and inv: "pool_inv pending act l s" using reinit.IH by simp_all
  have "count_token s' = count_token s" by (rule reinitialize_keeps_inv(4) [OF sched_run_inv [OF run] reinit.hyps(2)])
  then show ?case using sched_run.reinit [OF run reinit.hyps(2)] inv by (simp add: pool_inv_def pending_ok_def)
qed

text \<open>
  C38: exclusive execution of transactions. In every run of a scheduler with the loader of its pool, whose tasks are
  created by \<open>create_task\<close> for transactions with validated account locks (under a limit below 2 to the 32), two tasks
  that have been given out or are ready never have a common account that one of the two transactions writes.
\<close>

theorem scheduled_transactions_exclusive:
  assumes "pool_run cap limit pending act arrival run l s" and "limit < 2 ^ 32"
    and "t1 \<noteq> t2" and "t1 \<in> run \<union> set (unblocked_task_queue s)" "t2 \<in> run \<union> set (unblocked_task_queue s)"
    and "i < length (sched_account_keys (transaction t1))" "j < length (sched_account_keys (transaction t2))"
    and "sched_account_keys (transaction t1) ! i = sched_account_keys (transaction t2) ! j"
  shows "\<not> sched_is_writable (transaction t1) i \<and> \<not> sched_is_writable (transaction t2) j"
proof -
  have inv: "sched_inv cap act arrival run s" and pool: "pool_inv pending act l s"
    using pool_run_inv [OF assms(1,2)] by (simp_all add: sched_run_inv)
  have "t1 \<in> act" "t2 \<in> act"
    using inv assms(4,5) by (auto simp: sched_inv_def sched_addresses_def counts_all_def)
  then have made: "created_with l t1" "created_with l t2" using pool by (auto simp: pool_inv_def)
  let ?c1 = "lock_contexts t1 ! i" and ?c2 = "lock_contexts t2 ! j"
  have in1: "?c1 \<in> set (lock_contexts t1)" and in2: "?c2 \<in> set (lock_contexts t2)"
    using made assms(6,7) by (auto simp: created_with_def)
  have q: "usage_queues l (sched_account_keys (transaction t1) ! i) = Some (usage_queue ?c1)"
    "usage_queues l (sched_account_keys (transaction t2) ! j) = Some (usage_queue ?c2)"
    using made assms(6,7) by (simp_all add: created_with_def)
  then have c: "usage_queue ?c1 = usage_queue ?c2" using assms(8) by simp
  have u: "requested_usage ?c1 = (if sched_is_writable (transaction t1) i then Writable else Readonly)"
    "requested_usage ?c2 = (if sched_is_writable (transaction t2) j then Writable else Readonly)"
    using made assms(6,7) by (simp_all add: created_with_def)
  have "requested_usage ?c1 = Readonly \<and> requested_usage ?c2 = Readonly"
    by (rule ready_tasks_compatible [OF inv assms(3) in1 in2 c assms(4,5)])
  then show ?thesis using u by (simp split: if_splits)
qed

text \<open>Two transactions that read the account 7 and write an account of their own, created and given out.\<close>

definition example_tx :: "nat \<Rightarrow> (nat, nat) SchedTransaction" where
  "example_tx i = \<lparr>sched_account_keys = [i, 7], sched_is_writable = (\<lambda>k. k = 0), sched_message_hash = i\<rparr>"

definition example_made :: "nat \<Rightarrow> queue_ref \<Rightarrow> (nat, nat) TaskInner" where
  "example_made i q =
     \<lparr>self_ref = i, transaction = example_tx i, task_id = of_nat i,
      lock_contexts = [\<lparr>usage_queue = q, requested_usage = Writable\<rparr>, \<lparr>usage_queue = 1, requested_usage = Readonly\<rparr>],
      consumed_block_size = NO_CONSUMED_BLOCK_SIZE, sanitized_epoch = MAX_SANITIZED_EPOCH,
      alt_invalidation_slot = MAX_ALT_INVALIDATION_SLOT\<rparr>"

lemma example_create:
  obtains l1 l2 :: "(nat, nat) UsageQueueLoaderInner" where
    "create_task 1 (example_tx 1) 1 load (UsageQueueLoaderInner_new FifoQueueing, \<lambda>_. 0) = (example_made 1 0, l1, \<lambda>_. 0)"
    "create_task 2 (example_tx 2) 2 load (l1, \<lambda>_. 0) = (example_made 2 2, l2, \<lambda>_. 0)"
proof -
  have [simp]: "(\<lambda>_. 0)(r := 0) = (\<lambda>_. 0 :: ShortCounter)" for r :: nat by auto
  define l1 :: "(nat, nat) UsageQueueLoaderInner" where
    "l1 = fst (snd (create_task 1 (example_tx 1) 1 load (UsageQueueLoaderInner_new FifoQueueing, \<lambda>_. 0)))"
  have 1: "create_task 1 (example_tx 1) 1 load (UsageQueueLoaderInner_new FifoQueueing, \<lambda>_. 0) = (example_made 1 0, l1, \<lambda>_. 0)"
    by (simp add: l1_def create_task_def do_create_task_def example_tx_def example_made_def load_def UsageQueueLoaderInner_new_def)
  have "usage_queues l1 = [1 \<mapsto> 0, 7 \<mapsto> 1]" "fresh_queue l1 = 2"
    by (simp_all add: l1_def create_task_def do_create_task_def example_tx_def load_def UsageQueueLoaderInner_new_def)
  then obtain l2 :: "(nat, nat) UsageQueueLoaderInner" where
    "create_task 2 (example_tx 2) 2 load (l1, \<lambda>_. 0) = (example_made 2 2, l2, \<lambda>_. 0)"
    by (simp add: create_task_def do_create_task_def example_tx_def example_made_def load_def)
  then show ?thesis using that 1 by blast
qed

definition example_given_out :: "(nat, nat) SchedulingStateMachine" where
  "example_given_out =
     example_step (example_made 2 2) False (example_step (example_made 1 0) False (example_machine FifoQueueing))"

lemma example_pool_run:
  obtains l where "pool_run FifoQueueing 64 {} {example_made 1 0, example_made 2 2}
     (self_ref(example_made 1 0 := 1, example_made 2 2 := 2)) {example_made 1 0, example_made 2 2} l example_given_out"
proof -
  let ?A = "example_made 1 0" and ?B = "example_made 2 2" and ?s = "example_machine FifoQueueing"
  let ?s1 = "example_step ?A False ?s"
  obtain l1 l2 :: "(nat, nat) UsageQueueLoaderInner" where
    l: "create_task 1 (example_tx 1) 1 load (UsageQueueLoaderInner_new FifoQueueing, \<lambda>_. 0) = (?A, l1, \<lambda>_. 0)"
    "create_task 2 (example_tx 2) 2 load (l1, \<lambda>_. 0) = (?B, l2, \<lambda>_. 0)"
    by (rule example_create)
  have same: "count_token ?s = (\<lambda>_. 0)" "?s\<lparr>count_token := \<lambda>_. 0\<rparr> = ?s" by (simp_all add: example_machine_def)
  have valid: "validate_account_locks (sched_account_keys (example_tx i)) 64 = Ok ()" if "i < 7" for i
    using that by (simp add: validate_account_locks_Ok example_tx_def)
  have "pool_run FifoQueueing 64 {} {} self_ref {} (UsageQueueLoaderInner_new FifoQueueing) ?s"
    by (rule pool_run.init [of "Some 4" "Some 10" "\<lambda>_. 0"])
      (simp add: exclusively_initialize_current_thread_for_scheduling_def example_machine_def)
  from pool_run.create [OF this valid [of 1] _ l(1) [folded same(1)]]
  have "pool_run FifoQueueing 64 {?A} {} self_ref {} l1 ?s" by (simp add: same)
  from pool_run.create [OF this valid [of 2] _ l(2) [folded same(1)]]
  have p: "pool_run FifoQueueing 64 {?B, ?A} {} self_ref {} l2 ?s" by (simp add: same) (simp add: example_made_def)
  have "pool_run FifoQueueing 64 ({?B, ?A} - {?A}) (insert ?A {}) (self_ref(?A := 1)) ({} \<union> set_option (Some ?A)) l2 ?s1"
    by (rule pool_run.schedule [OF p, where force_buffering = False])
      (simp_all add: scheduler_eval example_machine_def example_made_def example_tx_def example_step_def drops_def counter_room_def)
  then have "pool_run FifoQueueing 64 ({?B, ?A} - {?A} - {?B}) (insert ?B (insert ?A {})) (self_ref(?A := 1, ?B := 2))
      (({} \<union> set_option (Some ?A)) \<union> set_option (Some ?B)) l2 example_given_out"
    by (rule pool_run.schedule [where force_buffering = False])
      (simp_all add: scheduler_eval example_machine_def example_made_def example_tx_def example_step_def drops_def
        counter_room_def example_given_out_def)
  moreover have "{?B, ?A} - {?A} - {?B} = {}" "insert ?B (insert ?A {}) = {?A, ?B}"
    "({} \<union> set_option (Some ?A)) \<union> set_option (Some ?B) = {?A, ?B}" by auto
  ultimately show ?thesis using that by (simp only:)
qed

theorem scheduled_transactions_exclusive_witness:
  "example_made 1 0 \<noteq> example_made 2 2 \<and>
   sched_account_keys (example_tx 1) ! 1 = sched_account_keys (example_tx 2) ! 1 \<and>
   \<not> sched_is_writable (transaction (example_made 1 0)) 1 \<and> \<not> sched_is_writable (transaction (example_made 2 2)) 1"
proof -
  obtain l where run: "pool_run FifoQueueing 64 {} {example_made 1 0, example_made 2 2}
     (self_ref(example_made 1 0 := 1, example_made 2 2 := 2)) {example_made 1 0, example_made 2 2} l example_given_out"
    by (rule example_pool_run)
  have "\<not> sched_is_writable (transaction (example_made 1 0)) 1 \<and> \<not> sched_is_writable (transaction (example_made 2 2)) 1"
    by (rule scheduled_transactions_exclusive [OF run]) (simp_all add: example_made_def example_tx_def)
  then show ?thesis by (simp add: example_made_def example_tx_def)
qed

end
